(* ===== verification/Transitions.thy ===== *)
theory Transitions
  imports Main
begin

text \<open>
  What the step relations of the concurrent components have in common: an invariant that every step
  keeps, and a weight that every step lowers. The components interpret these contracts on their own
  steps; the facts about sequences of steps are proved here once.
\<close>

locale invariant_system =
  fixes step :: "'s \<Rightarrow> 's \<Rightarrow> bool" and inv :: "'s \<Rightarrow> bool"
  assumes inv_step: "step s t \<Longrightarrow> inv s \<Longrightarrow> inv t"
begin

lemma inv_steps: "step\<^sup>*\<^sup>* s t \<Longrightarrow> inv s \<Longrightarrow> inv t"
  by (induction rule: rtranclp_induct) (auto intro: inv_step)

lemma inv_power: "(step ^^ n) s t \<Longrightarrow> inv s \<Longrightarrow> inv t"
  by (rule inv_steps) (rule relpowp_imp_rtranclp)

end

locale terminating_system = invariant_system +
  fixes weight :: "'s \<Rightarrow> nat"
  assumes weight_step: "step s t \<Longrightarrow> inv s \<Longrightarrow> weight t < weight s"
begin

lemma weight_power: "(step ^^ n) s t \<Longrightarrow> inv s \<Longrightarrow> n + weight t \<le> weight s"
proof (induction n arbitrary: t)
  case (Suc n)
  then obtain u where u: "(step ^^ n) s u" "step u t" by auto
  with Suc have "n + weight u \<le> weight s" by blast
  with weight_step [OF u(2) inv_power [OF u(1) Suc.prems(2)]] show ?case by simp
qed simp

lemma steps_bounded: "(step ^^ n) s t \<Longrightarrow> inv s \<Longrightarrow> n \<le> weight s"
  using weight_power by fastforce

lemma comes_to_rest: "inv s \<Longrightarrow> \<exists>t. step\<^sup>*\<^sup>* s t \<and> inv t \<and> (\<nexists>u. step t u)"
proof (induction "weight s" arbitrary: s rule: less_induct)
  case less
  show ?case
  proof (cases "\<exists>u. step s u")
    case True
    then obtain u where "step s u" ..
    with less weight_step inv_step show ?thesis by (meson converse_rtranclp_into_rtranclp)
  qed (use less.prems in blast)
qed

end

end
