(* ===== verification/Prelude.thy ===== *)
theory Prelude
  imports Transitions "HOL-Library.Word"
begin

text \<open>
  Shared vocabulary of the development: octets and characters, the ASCII case folding and
  string scanning the C++ code does with \<^verbatim>\<open>std::string_view\<close>, and the generic
  list, option and word lemmas the component theories rely on. The collections
  \<open>string_simps\<close> and \<open>octet_simps\<close> gather the rewrite rules for the two.
\<close>

unbundle bit_operations_syntax

named_theorems string_simps \<open>rewrite rules for the string helpers\<close>
named_theorems octet_simps \<open>rewrite rules for octets and big-endian encodings\<close>

subsection \<open>Octets and characters\<close>

text \<open>
  \<^verbatim>\<open>std::byte\<close> and \<^verbatim>\<open>std::uint8_t\<close> are \<open>8 word\<close>; \<^verbatim>\<open>std::string\<close> is a list of
  \<open>char\<close>, whose values are exactly the 256 octets.
\<close>

type_synonym octet = "8 word"
type_synonym octets = "octet list"

definition octet_of_char :: "char \<Rightarrow> octet" where
  "octet_of_char c = word_of_nat (of_char c)"

definition char_of_octet :: "octet \<Rightarrow> char" where
  "char_of_octet b = char_of (unat b)"

lemma unat_octet_of_char [simp, octet_simps]: "unat (octet_of_char c) = of_char c"
  using nat_of_char_less_256 [of c] by (simp add: octet_of_char_def unat_of_nat)

lemma unat_octet_less: "unat (b :: octet) < 256"
  using unsigned_less [of b] by simp

lemma char_of_octet_of_char [simp, octet_simps]: "char_of_octet (octet_of_char c) = c"
  by (simp add: char_of_octet_def)

lemma octet_of_char_of_octet [simp, octet_simps]: "octet_of_char (char_of_octet b) = b"
  using unat_octet_less [of b] by (simp add: octet_of_char_def char_of_octet_def of_char_of)

lemma octet_of_char_inj [simp]: "octet_of_char c = octet_of_char d \<longleftrightarrow> c = d"
  by (metis char_of_octet_of_char)

lemma map_char_of_octet_of_char [simp, octet_simps]: "map (char_of_octet \<circ> octet_of_char) s = s"
  by (induction s) simp_all

subsection \<open>ASCII case folding\<close>

text \<open>
  \<^verbatim>\<open>std::tolower\<close> of the default "C" locale: only the 26 upper-case ASCII letters change.
\<close>

definition ascii_lower :: "char \<Rightarrow> char" where
  "ascii_lower c = (let n = (of_char c :: nat) in if 65 \<le> n \<and> n \<le> 90 then char_of (n + 32) else c)"

lemma ascii_lower_idem [simp, string_simps]: "ascii_lower (ascii_lower c) = ascii_lower c"
  by (simp add: ascii_lower_def Let_def of_char_of)

definition iequal :: "string \<Rightarrow> string \<Rightarrow> bool" where
  "iequal a b = (if length a \<noteq> length b then False
     else list_all2 (\<lambda>x y. ascii_lower x = ascii_lower y) a b)"

lemma iequal_iff [string_simps]: "iequal a b \<longleftrightarrow> map ascii_lower a = map ascii_lower b"
proof (cases "length a = length b")
  case True
  then show ?thesis
    by (simp add: iequal_def list_eq_iff_nth_eq list_all2_conv_all_nth)
next
  case False
  then have "map ascii_lower a \<noteq> map ascii_lower b" by (metis length_map)
  with False show ?thesis by (simp add: iequal_def)
qed

lemma iequal_refl [simp]: "iequal a a"
  and iequal_sym: "iequal a b \<Longrightarrow> iequal b a"
  and iequal_trans: "iequal a b \<Longrightarrow> iequal b c \<Longrightarrow> iequal a c"
  by (simp_all add: iequal_iff)

text \<open>
  The substring scan of the handshake code: the loop tries every start position that leaves
  room for the needle.
\<close>

definition icontains :: "string \<Rightarrow> string \<Rightarrow> bool" where
  "icontains haystack needle =
     (if needle = [] then True
      else if length haystack < length needle then False
      else list_ex (\<lambda>i. iequal (take (length needle) (drop i haystack)) needle)
             [0..<Suc (length haystack - length needle)])"

lemma icontains_iff [string_simps]:
  "icontains h n \<longleftrightarrow> (\<exists>pre mid post. h = pre @ mid @ post \<and> iequal mid n)"
proof
  assume a: "icontains h n"
  show "\<exists>pre mid post. h = pre @ mid @ post \<and> iequal mid n"
  proof (cases "n = []")
    case True
    then have "h = [] @ [] @ h \<and> iequal [] n" by simp
    then show ?thesis by blast
  next
    case False
    with a obtain i where i: "iequal (take (length n) (drop i h)) n"
      by (auto simp: icontains_def list_ex_iff simp del: upt_Suc split: if_splits)
    have "h = take i h @ take (length n) (drop i h) @ drop (length n) (drop i h)"
      by (simp only: append_take_drop_id)
    with i show ?thesis by blast
  qed
next
  assume "\<exists>pre mid post. h = pre @ mid @ post \<and> iequal mid n"
  then obtain pre mid post where h: "h = pre @ mid @ post" and m: "iequal mid n" by blast
  from m have l: "length mid = length n" by (metis iequal_iff length_map)
  show "icontains h n"
  proof (cases "n = []")
    case False
    have "length pre < Suc (length h - length n)" using h l by simp
    moreover have "iequal (take (length n) (drop (length pre) h)) n" using h l m by simp
    moreover have "\<not> length h < length n" using h l by simp
    ultimately show ?thesis using False
      by (auto simp: icontains_def list_ex_iff simp del: upt_Suc
          intro!: bexI [where x = "length pre"])
  qed (simp add: icontains_def)
qed

subsection \<open>Scanning for a delimiter\<close>

text \<open>
  \<^verbatim>\<open>sv.find(c)\<close> splits a view at the first occurrence of \<open>c\<close>: \<open>before c s\<close> is the part
  in front of it (all of \<open>s\<close> when there is none, as \<^verbatim>\<open>substr(0, npos)\<close>) and \<open>from_first\<close>
  the rest with the delimiter still at its head (empty for \<^verbatim>\<open>npos\<close>).
\<close>

definition before :: "char \<Rightarrow> string \<Rightarrow> string" where
  "before c s = takeWhile (\<lambda>x. x \<noteq> c) s"

definition from_first :: "char \<Rightarrow> string \<Rightarrow> string" where
  "from_first c s = dropWhile (\<lambda>x. x \<noteq> c) s"

lemma before_from_first [simp, string_simps]: "before c s @ from_first c s = s"
  by (simp add: before_def from_first_def)

lemma before_no_delim [simp, string_simps]: "c \<notin> set (before c s)"
  by (auto simp: before_def dest: set_takeWhileD)

lemma before_nodelim_id [string_simps]: "c \<notin> set s \<Longrightarrow> before c s = s"
  by (auto simp: before_def takeWhile_eq_all_conv)

lemma from_first_nodelim [string_simps]: "c \<notin> set s \<Longrightarrow> from_first c s = []"
  by (auto simp: from_first_def dropWhile_eq_Nil_conv)

lemma before_append [string_simps]: "c \<notin> set s \<Longrightarrow> before c (s @ c # r) = s"
  by (induction s) (auto simp: before_def)

lemma from_first_append [string_simps]: "c \<notin> set s \<Longrightarrow> from_first c (s @ c # r) = c # r"
  by (induction s) (auto simp: from_first_def)

lemma from_first_Nil_iff: "from_first c s = [] \<longleftrightarrow> c \<notin> set s"
  by (auto simp: from_first_def dropWhile_eq_Nil_conv)

lemma from_first_Cons: "from_first c s = x # xs \<Longrightarrow> x = c"
  by (auto simp: from_first_def dropWhile_eq_Cons_conv)

lemma length_from_first_le: "length (from_first c s) \<le> length s"
  by (simp add: from_first_def length_dropWhile_le)

lemma length_drop_from_first:
  "from_first c s \<noteq> [] \<Longrightarrow> length (from_first c s) - Suc 0 < length s"
  using length_from_first_le [of c s] by (cases "from_first c s") auto

definition starts_with :: "string \<Rightarrow> string \<Rightarrow> bool" where
  "starts_with s p = (take (length p) s = p)"

lemma starts_with_iff [string_simps]: "starts_with s p \<longleftrightarrow> (\<exists>r. s = p @ r)"
proof
  assume "starts_with s p"
  then have "s = p @ drop (length p) s" unfolding starts_with_def by (metis append_take_drop_id)
  then show "\<exists>r. s = p @ r" by blast
qed (auto simp: starts_with_def)

subsection \<open>Lists\<close>

lemma nth_list_update_if:
  "i < length xs \<Longrightarrow> xs[i := v] ! j = (if i = j then v else xs ! j)"
  by simp

lemma list_all_take: "list_all P xs \<Longrightarrow> list_all P (take n xs)"
  by (metis append_take_drop_id list_all_append)

lemma list_all_drop: "list_all P xs \<Longrightarrow> list_all P (drop n xs)"
  by (metis append_take_drop_id list_all_append)

subsection \<open>Shifts and masks as arithmetic\<close>

lemma nat_or_shift [octet_simps]:
  assumes "x < 2 ^ n"
  shows "push_bit n y OR x = y * 2 ^ n + (x :: nat)"
proof -
  have x: "take_bit n x = x" using assms by (simp add: take_bit_nat_eq_self)
  have "push_bit n y AND take_bit n x = 0"
    by (rule bit_eqI) (auto simp: bit_simps)
  then have "push_bit n y AND x = 0" using x by simp
  then have "push_bit n y + x = push_bit n y OR x" by (rule disjunctive_add_eq_or)
  then show ?thesis by (simp add: push_bit_nat_def)
qed

lemma unat_and_mask: "unat (w AND mask n) = unat w mod 2 ^ n"
  by (simp add: take_bit_eq_mask [symmetric] unsigned_take_bit_eq take_bit_nat_def)

lemma take_bit_octet: "8 \<le> n \<Longrightarrow> take_bit n (unat (w :: octet)) = unat w"
  using unat_octet_less [of w] power_increasing [of 8 n "2::nat"]
  by (simp add: take_bit_nat_eq_self)

lemma unat_push_bit_ucast:
  "unat (w :: octet) * 2 ^ n < 2 ^ LENGTH('a) \<Longrightarrow> 8 \<le> LENGTH('a) \<Longrightarrow>
     unat (push_bit n (ucast w :: 'a::len word)) = unat w * 2 ^ n"
  by (simp add: unsigned_push_bit_eq unsigned_ucast_eq take_bit_octet push_bit_nat_def
      take_bit_nat_eq_self)

lemma unat_ucast_octet: "8 \<le> LENGTH('a) \<Longrightarrow> unat (ucast (w :: octet) :: 'a::len word) = unat w"
  by (simp add: unsigned_ucast_eq take_bit_octet)

lemma unat_drop_bit: "unat (drop_bit n (w :: 'a::len word)) = unat w div 2 ^ n"
  by (simp add: unsigned_drop_bit_eq drop_bit_nat_def take_bit_nat_eq_self)

lemma unat_be16:
  assumes "16 \<le> LENGTH('a)"
  shows "unat (push_bit 8 (ucast a) OR ucast b :: 'a::len word)
    = unat (a :: octet) * 256 + unat (b :: octet)"
proof -
  have "(2::nat) ^ 16 \<le> 2 ^ LENGTH('a)" using assms by (rule power_increasing) simp
  then have "unat a * 256 < 2 ^ LENGTH('a)" using unat_octet_less [of a] by simp
  then have "unat (push_bit 8 (ucast a) :: 'a word) = push_bit 8 (unat a)"
    using assms by (simp add: unat_push_bit_ucast push_bit_nat_def)
  then show ?thesis
    using assms unat_octet_less [of b]
    by (simp add: unsigned_or_eq unat_ucast_octet nat_or_shift [where n = 8, simplified])
qed

lemma push_drop_or_take: "push_bit n (drop_bit n w) OR take_bit n w = (w :: 'a::len word)"
  by (rule bit_eqI) (auto simp: bit_simps not_le)

subsection \<open>Two and three octets in a 32-bit word\<close>

lemma unat_ucast32 [simp]: "unat (ucast (w :: octet) :: 32 word) = unat w"
  by (rule unat_ucast_octet) simp

lemma unat_duo:
  "unat (push_bit 8 (ucast a) OR ucast b :: 32 word) = unat (a :: octet) * 256 + unat (b :: octet)"
  by (rule unat_be16) simp

lemma unat_trio:
  "unat (push_bit 16 (ucast a) OR push_bit 8 (ucast b) OR ucast (c :: octet) :: 32 word)
     = unat (a :: octet) * 65536 + unat (b :: octet) * 256 + unat c"
proof -
  have "unat (push_bit 16 (ucast a) OR (push_bit 8 (ucast b) OR ucast (c :: octet)) :: 32 word)
     = push_bit 16 (unat a) OR (unat b * 256 + unat c)"
    using unat_octet_less [of a]
    by (simp add: unsigned_or_eq [of "push_bit 16 (ucast a)"] unat_duo unsigned_push_bit_eq
        take_bit_nat_eq_self push_bit_nat_def)
  also have "\<dots> = unat a * 65536 + (unat b * 256 + unat c)"
    using unat_octet_less [of b] unat_octet_less [of c]
    by (subst nat_or_shift) simp_all
  finally show ?thesis by (simp add: or.assoc)
qed

subsection \<open>Big-endian numbers\<close>

text \<open>
  The \<open>k\<close> octets of a number, most significant first, and the number that octets stand for: the
  reading of the standards the code implements, written on naturals and without shifts.
\<close>

fun big_endian :: "nat \<Rightarrow> nat \<Rightarrow> octets" where
  "big_endian 0 n = []"
| "big_endian (Suc k) n = big_endian k (n div 256) @ [word_of_nat (n mod 256)]"

lemma length_big_endian [simp]: "length (big_endian k n) = k"
  by (induction k n rule: big_endian.induct) simp_all

lemma big_endian_numeral:
  "big_endian (numeral m) n = big_endian (pred_numeral m) (n div 256) @ [word_of_nat (n mod 256)]"
  by (subst numeral_eq_Suc) (rule big_endian.simps)

lemma octet_mod: "(word_of_nat (n mod 256) :: octet) = word_of_nat n"
  by (simp add: word_unat_eq_iff unat_of_nat)

lemma big_endian_map: "big_endian k n = map (\<lambda>i. word_of_nat (n div 256 ^ (k - 1 - i))) [0..<k]"
proof (induction k arbitrary: n)
  case (Suc k)
  have "n div 256 div 256 ^ (k - 1 - i) = n div 256 ^ (k - i)" if "i < k" for i
  proof -
    have "(256 :: nat) ^ (k - i) = 256 * 256 ^ (k - 1 - i)"
      using that by (simp add: power_eq_if)
    then show ?thesis by (simp add: div_mult2_eq)
  qed
  with Suc show ?case by (simp add: octet_mod)
qed simp

lemma octet_of_word:
  assumes "8 * j + 8 \<le> LENGTH('a)"
  shows "ucast (drop_bit (8 * j) (word_of_nat n :: 'a::len word)) = (word_of_nat (n div 256 ^ j) :: octet)"
proof (rule bit_word_eqI)
  fix i assume i: "i < LENGTH(8)"
  have "n div 256 ^ j = drop_bit (8 * j) n" by (simp add: drop_bit_nat_def power_mult)
  with i assms show "bit (ucast (drop_bit (8 * j) (word_of_nat n :: 'a::len word)) :: octet) i
      = bit (word_of_nat (n div 256 ^ j) :: octet) i"
    by (auto simp: bit_simps)
qed

fun be_value :: "octets \<Rightarrow> nat" where
  "be_value [] = 0"
| "be_value (x # xs) = unat x * 256 ^ length xs + be_value xs"

lemma ucast_low: "8 \<le> LENGTH('a) \<Longrightarrow> ucast (w AND 0xFF :: 'a::len word) = (ucast w :: octet)"
proof (rule bit_word_eqI)
  fix i assume i: "8 \<le> LENGTH('a)" "i < LENGTH(8)"
  have m: "(0xFF :: 'a word) = mask 8" by (simp add: mask_eq_exp_minus_1)
  show "bit (ucast (w AND 0xFF) :: octet) i = bit (ucast w :: octet) i"
    unfolding m using i by (auto simp: bit_simps)
qed

lemma be32:
  "push_bit 24 (ucast a) OR push_bit 16 (ucast b) OR push_bit 8 (ucast c) OR ucast d
     = (word_of_nat (be_value [a, b, c, d]) :: 32 word)"
proof -
  have "unat (push_bit 24 (ucast a) OR (push_bit 16 (ucast b) OR push_bit 8 (ucast c) OR ucast d) :: 32 word)
     = push_bit 24 (unat a) OR (unat b * 65536 + unat c * 256 + unat d)"
    using unat_octet_less [of a]
    by (simp add: unsigned_or_eq [of "push_bit 24 (ucast a)"] unat_trio unsigned_push_bit_eq
        take_bit_nat_eq_self push_bit_nat_def)
  also have "\<dots> = be_value [a, b, c, d]"
    using unat_octet_less [of b] unat_octet_less [of c] unat_octet_less [of d]
    by (subst nat_or_shift) simp_all
  finally have u: "unat (push_bit 24 (ucast a) OR (push_bit 16 (ucast b) OR push_bit 8 (ucast c) OR ucast d) :: 32 word)
     = be_value [a, b, c, d]" .
  have "unat w = n \<Longrightarrow> w = word_of_nat n" for w :: "32 word" and n by auto
  from this [OF u] show ?thesis by (simp only: or.assoc)
qed

subsection \<open>Decimal and hexadecimal rendering\<close>

text \<open>The integer cases of \<^verbatim>\<open>std::to_string\<close> and \<^verbatim>\<open>std::format\<close> the code uses.\<close>

definition digit_char :: "nat \<Rightarrow> char" where
  "digit_char d = (if d < 10 then char_of (48 + d) else char_of (87 + d))"

fun nat_digits :: "nat \<Rightarrow> nat \<Rightarrow> string" where
  "nat_digits base n =
     (if base < 2 \<or> n < base then [digit_char n]
      else nat_digits base (n div base) @ [digit_char (n mod base)])"

declare nat_digits.simps [simp del]

definition dec_string :: "nat \<Rightarrow> string" where
  "dec_string n = nat_digits 10 n"

definition hex_padded :: "nat \<Rightarrow> nat \<Rightarrow> string" where
  "hex_padded width n =
     (let d = nat_digits 16 n in replicate (width - length d) (CHR ''0'') @ d)"

definition int_text :: "int \<Rightarrow> string" where
  "int_text n = (if n < 0 then ''-'' @ dec_string (nat (- n)) else dec_string (nat n))"

definition dec_padded :: "nat \<Rightarrow> nat \<Rightarrow> string" where
  "dec_padded width n = (let d = dec_string n in replicate (width - length d) (CHR ''0'') @ d)"

definition is_digit :: "char \<Rightarrow> bool" where
  "is_digit c \<longleftrightarrow> 48 \<le> (of_char c :: nat) \<and> of_char c \<le> (57 :: nat)"

definition digits_value :: "string \<Rightarrow> nat" where
  "digits_value s = foldl (\<lambda>acc c. acc * 10 + (of_char c - 48)) 0 s"

lemma digits_value_snoc: "digits_value (s @ [c]) = digits_value s * 10 + (of_char c - 48)"
  by (simp add: digits_value_def)

lemma dec_digit: "d < 10 \<Longrightarrow> is_digit (digit_char d) \<and> of_char (digit_char d) = (48 + d :: nat)"
  by (simp add: digit_char_def is_digit_def of_char_of)

lemma dec_string_props:
  "list_all is_digit (dec_string n) \<and> digits_value (dec_string n) = n \<and> dec_string n \<noteq> []"
proof (induction n rule: less_induct)
  case (less n)
  show ?case
  proof (cases "n < 10")
    case True
    then show ?thesis
      using dec_digit [of n] by (simp add: dec_string_def nat_digits.simps digits_value_def)
  next
    case False
    then have e: "dec_string n = dec_string (n div 10) @ [digit_char (n mod 10)]"
      by (simp add: dec_string_def nat_digits.simps [of 10 n])
    have "n div 10 < n" using False by simp
    note ih = less.IH [OF this]
    have "digits_value (dec_string n) = n div 10 * 10 + n mod 10"
      using ih dec_digit [of "n mod 10"] by (simp add: e digits_value_snoc)
    then show ?thesis using ih dec_digit [of "n mod 10"] by (simp add: e)
  qed
qed

end
