(* ===== verification/Base64.thy ===== *)
theory Base64
  imports Prelude
begin

text \<open>
  The Base64 encoder of \<^verbatim>\<open>src/net/base64.hpp\<close>. The loop over full groups of three octets
  and the two remainder branches are the equations of \<open>base64_encode\<close>; the 24-bit group is
  kept as a 32-bit word and cut into sextets with the shifts of the source. A decoder for
  RFC 4648, written from the RFC and not from the program, states the round trip.
\<close>

definition kBase64Alphabet :: string where
  "kBase64Alphabet = ''ABCDEFGHIJKLMNOPQRSTUVWXYZabcdefghijklmnopqrstuvwxyz0123456789+/''"

definition b64_char :: "32 word \<Rightarrow> char" where
  "b64_char v = kBase64Alphabet ! unat (v AND 0x3F)"

fun base64_encode :: "octets \<Rightarrow> string" where
  "base64_encode (a # b # c # rest) =
     (let trio = push_bit 16 (ucast a) OR push_bit 8 (ucast b) OR ucast c in
      [b64_char (drop_bit 18 trio), b64_char (drop_bit 12 trio),
       b64_char (drop_bit 6 trio), b64_char trio] @ base64_encode rest)"
| "base64_encode [a] =
     (let val = ucast a in [b64_char (drop_bit 2 val), b64_char (push_bit 4 val), CHR ''='', CHR ''=''])"
| "base64_encode [a, b] =
     (let val = push_bit 8 (ucast a) OR ucast b in
      [b64_char (drop_bit 10 val), b64_char (drop_bit 4 val), b64_char (push_bit 2 val), CHR ''=''])"
| "base64_encode [] = []"

subsection \<open>The reference decoder\<close>

text \<open>Table 1 of RFC 4648 read backwards, by ranges of characters and not from the program's string.\<close>

definition b64_index :: "char \<Rightarrow> nat option" where
  "b64_index c = (let n = (of_char c :: nat) in
     if 65 \<le> n \<and> n \<le> 90 then Some (n - 65)
     else if 97 \<le> n \<and> n \<le> 122 then Some (n - 97 + 26)
     else if 48 \<le> n \<and> n \<le> 57 then Some (n - 48 + 52)
     else if c = CHR ''+'' then Some 62
     else if c = CHR ''/'' then Some 63
     else None)"

definition octet_of_nat :: "nat \<Rightarrow> octet" where
  "octet_of_nat n = word_of_nat n"

definition b64_quad :: "nat \<Rightarrow> nat \<Rightarrow> nat \<Rightarrow> nat \<Rightarrow> nat" where
  "b64_quad w x y z = w * 262144 + x * 4096 + y * 64 + z"

fun base64_decode :: "string \<Rightarrow> octets option" where
  "base64_decode [] = Some []"
| "base64_decode (p # q # r # s # rest) =
     (case (b64_index p, b64_index q) of
        (Some w, Some x) \<Rightarrow>
          if r = CHR ''='' \<and> s = CHR ''='' \<and> rest = [] then
            Some [octet_of_nat (b64_quad w x 0 0 div 65536)]
          else (case b64_index r of None \<Rightarrow> None | Some y \<Rightarrow>
            if s = CHR ''='' \<and> rest = [] then
              Some [octet_of_nat (b64_quad w x y 0 div 65536),
                    octet_of_nat (b64_quad w x y 0 div 256 mod 256)]
            else (case b64_index s of None \<Rightarrow> None | Some z \<Rightarrow>
              map_option (\<lambda>ds. octet_of_nat (b64_quad w x y z div 65536)
                  # octet_of_nat (b64_quad w x y z div 256 mod 256)
                  # octet_of_nat (b64_quad w x y z mod 256) # ds)
                (base64_decode rest)))
      | _ \<Rightarrow> None)"
| "base64_decode _ = None"

lemma length_kBase64Alphabet [simp]: "length kBase64Alphabet = 64"
  by (simp add: kBase64Alphabet_def)

lemma b64_index_alphabet: "map b64_index kBase64Alphabet = map Some [0..<64]"
  by (simp add: kBase64Alphabet_def b64_index_def upt_rec [of _ 64])

lemma b64_index_nth: "i < 64 \<Longrightarrow> b64_index (kBase64Alphabet ! i) = Some i"
  using arg_cong [OF b64_index_alphabet, of "\<lambda>xs. xs ! i"] by simp

lemma unat_sextet: "unat (v AND 0x3F :: 32 word) = unat v mod 64"
  using unat_and_mask [of v 6] by (simp add: mask_eq_exp_minus_1)

lemma unat_sextet_less: "unat (v AND 0x3F :: 32 word) < 64"
  by (simp add: unat_sextet)

lemma b64_index_char [simp]: "b64_index (b64_char v) = Some (unat v mod 64)"
  unfolding b64_char_def using b64_index_nth [OF unat_sextet_less] by (simp add: unat_sextet)

lemma b64_char_not_pad [simp]: "b64_char v \<noteq> CHR ''=''"
proof
  assume "b64_char v = CHR ''=''"
  then have "b64_index (CHR ''='') = Some (unat v mod 64)" by (metis b64_index_char)
  then show False by (simp add: b64_index_def)
qed

subsection \<open>The group as a number\<close>

lemma octet_of_nat_unat [simp]: "octet_of_nat (unat a) = a"
  by (simp add: octet_of_nat_def)

lemma sextets_join:
  assumes "(n :: nat) < 16777216"
  shows "b64_quad (n div 262144 mod 64) (n div 4096 mod 64) (n div 64 mod 64) (n mod 64) = n"
proof -
  let ?p = "n div 64" and ?q = "n div 64 div 64" and ?r = "n div 64 div 64 div 64"
  have e: "n div 4096 = ?q" "n div 262144 = ?r" by (simp_all add: div_mult2_eq [symmetric])
  have "n = ?p * 64 + n mod 64" "?p = ?q * 64 + ?p mod 64" "?q = ?r * 64 + ?q mod 64"
    by (simp_all only: div_mult_mod_eq)
  moreover have "?r mod 64 = ?r" using assms by (simp add: div_mult2_eq [symmetric])
  ultimately show ?thesis unfolding b64_quad_def e by linarith
qed

lemma octets_split:
  assumes "(a::nat) < 256" "b < 256" "c < 256"
  shows "(a * 65536 + b * 256 + c) div 65536 = a"
    and "(a * 65536 + b * 256 + c) div 256 mod 256 = b"
    and "(a * 65536 + b * 256 + c) mod 256 = c"
proof -
  show "(a * 65536 + b * 256 + c) div 65536 = a"
    by (rule div_nat_eqI) (use assms in simp_all)
  have "(a * 65536 + b * 256 + c) div 256 = a * 256 + b"
    by (rule div_nat_eqI) (use assms in simp_all)
  then show "(a * 65536 + b * 256 + c) div 256 mod 256 = b" using assms by simp
  have "(a * 65536 + b * 256 + c) mod 256 = ((a * 256 + b) * 256 + c) mod 256"
    by (simp add: algebra_simps)
  also have "\<dots> = c" using assms by (simp only: mod_mult_self3 mod_less)
  finally show "(a * 65536 + b * 256 + c) mod 256 = c" .
qed

text \<open>A short group is a full one whose missing octets are zero.\<close>

lemma two_octet_quad:
  assumes "(a::nat) < 256" "b < 256"
  shows "b64_quad ((a * 256 + b) div 1024 mod 64) ((a * 256 + b) div 16 mod 64)
    ((a * 256 + b) * 4 mod 64) 0 = a * 65536 + b * 256"
proof -
  let ?m = "a * 256 + b" and ?n = "(a * 256 + b) * 256"
  have "?n div (256 * 1024) = ?m div 1024" "?n div (256 * 16) = ?m div 16"
    by (simp_all only: div_mult2_eq) simp_all
  then have e: "?n div 262144 = ?m div 1024" "?n div 4096 = ?m div 16" by simp_all
  have d: "?n div 64 = ?m * 4" "?n mod 64 = 0" by (simp_all add: algebra_simps)
  have "b64_quad (?n div 262144 mod 64) (?n div 4096 mod 64) (?n div 64 mod 64) (?n mod 64) = ?n"
    by (rule sextets_join) (use assms in simp)
  then show ?thesis unfolding e d by (simp add: algebra_simps)
qed

lemma one_octet_quad:
  assumes "(a::nat) < 256"
  shows "b64_quad (a div 4 mod 64) (a * 16 mod 64) 0 0 = a * 65536"
proof -
  have "(a * 256) div (256 * 4) = a div 4" "(a * 256) div (16 * 1) = a * 16"
    by (simp_all only: div_mult2_eq) simp_all
  then have "(a * 256) div 1024 = a div 4" "(a * 256) div 16 = a * 16" by simp_all
  moreover have "a * 256 * 4 mod 64 = 0" by (simp add: mult.assoc)
  ultimately show ?thesis using two_octet_quad [OF assms, of 0] by (simp add: mult.commute)
qed

lemma base64_decode_group:
  assumes "b64_index p = Some w" "b64_index q = Some x" "b64_index r = Some y" "b64_index s = Some z"
  shows "base64_decode (p # q # r # s # rest) =
    map_option (\<lambda>ds. octet_of_nat (b64_quad w x y z div 65536)
      # octet_of_nat (b64_quad w x y z div 256 mod 256)
      # octet_of_nat (b64_quad w x y z mod 256) # ds) (base64_decode rest)"
proof -
  have "b64_index (CHR ''='') = None" by (simp add: b64_index_def)
  with assms have "r \<noteq> CHR ''=''" "s \<noteq> CHR ''=''" by auto
  with assms show ?thesis by simp
qed

lemma pad_no_index [simp]: "b64_index (CHR ''='') = None"
  by (simp add: b64_index_def)

lemma base64_decode_trio:
  assumes t: "unat t = unat (a :: octet) * 65536 + unat (b :: octet) * 256 + unat (c :: octet)"
  shows "base64_decode (b64_char (drop_bit 18 t) # b64_char (drop_bit 12 t)
      # b64_char (drop_bit 6 t) # b64_char t # rest)
    = map_option (\<lambda>ds. a # b # c # ds) (base64_decode rest)"
proof -
  note lt = unat_octet_less [of a] unat_octet_less [of b] unat_octet_less [of c]
  have "b64_quad (unat t div 262144 mod 64) (unat t div 4096 mod 64) (unat t div 64 mod 64)
      (unat t mod 64) = unat t"
    by (rule sextets_join) (use lt t in linarith)
  then show ?thesis
    by (simp add: base64_decode_group unat_drop_bit)
      (simp add: t octets_split [OF lt])
qed

lemma base64_decode_two:
  assumes v: "unat v = unat (a :: octet) * 256 + unat (b :: octet)"
  shows "base64_decode [b64_char (drop_bit 10 v), b64_char (drop_bit 4 v), b64_char (push_bit 2 v),
    CHR ''=''] = Some [a, b]"
proof -
  note lt = unat_octet_less [of a] unat_octet_less [of b]
  have p: "unat (push_bit 2 v) = unat v * 4"
    using lt v by (simp add: unsigned_push_bit_eq push_bit_nat_def take_bit_nat_eq_self)
  note q = two_octet_quad [OF lt, folded v]
  have "(unat a * 65536 + unat b * 256) div 65536 = unat a"
    "(unat a * 65536 + unat b * 256) div 256 mod 256 = unat b"
    using octets_split [OF lt, of 0] by simp_all
  then show ?thesis by (simp add: unat_drop_bit p q)
qed

lemma base64_decode_one:
  assumes v: "unat v = unat (a :: octet)"
  shows "base64_decode [b64_char (drop_bit 2 v), b64_char (push_bit 4 v), CHR ''='', CHR ''='']
    = Some [a]"
proof -
  note lt = unat_octet_less [of a]
  have p: "unat (push_bit 4 v) = unat v * 16"
    using lt v by (simp add: unsigned_push_bit_eq push_bit_nat_def take_bit_nat_eq_self)
  show ?thesis
    by (simp add: unat_drop_bit p v one_octet_quad [OF lt])
qed

lemma base64_roundtrip [octet_simps]: "base64_decode (base64_encode bs) = Some bs"
proof (induction bs rule: base64_encode.induct)
  case (1 a b c rest)
  then show ?case
    by (simp only: base64_encode.simps Let_def append.simps base64_decode_trio [OF unat_trio])
      simp
next
  case (2 a)
  show ?case
    by (simp only: base64_encode.simps Let_def base64_decode_one [OF unat_ucast32])
next
  case (3 a b)
  show ?case
    by (simp only: base64_encode.simps Let_def base64_decode_two [OF unat_duo])
qed simp

lemma base64_shape:
  "length (base64_encode bs) = (length bs + 2) div 3 * 4 \<and>
   set (base64_encode bs) \<subseteq> set kBase64Alphabet \<union> {CHR ''=''}"
proof (induction bs rule: base64_encode.induct)
  case (1 a b c rest)
  have "b64_char v \<in> set kBase64Alphabet" for v
    using unat_sextet_less [of v] by (simp add: b64_char_def)
  moreover have "(length (a # b # c # rest) + 2) div 3 = Suc ((length rest + 2) div 3)" by simp
  ultimately show ?case using 1 by (simp add: Let_def)
next
  case (2 a)
  have "b64_char v \<in> set kBase64Alphabet" for v
    using unat_sextet_less [of v] by (simp add: b64_char_def)
  with 2 show ?case by (simp add: Let_def)
next
  case (3 a b)
  have "b64_char v \<in> set kBase64Alphabet" for v
    using unat_sextet_less [of v] by (simp add: b64_char_def)
  with 3 show ?case by (simp add: Let_def)
qed simp

text \<open>Decoding an encoded octet string with the RFC 4648 reference decoder gives the
  octets back, for inputs of every length, so no octet is lost in the shifts, in the two padding
  branches or across groups; and the encoder writes exactly \<open>ceil(n / 3) * 4\<close> characters, the
  size the source reserves before it fills the buffer by index, all in the alphabet or padding.\<close>
lemma base64_encode_correct:
  "base64_decode (base64_encode bs) = Some bs \<and>
   length (base64_encode bs) = (length bs + 2) div 3 * 4 \<and>
   set (base64_encode bs) \<subseteq> set kBase64Alphabet \<union> {CHR ''=''}"
  using base64_roundtrip base64_shape by blast

end
