(* ===== verification/Sha1.thy ===== *)
theory Sha1
  imports Prelude
begin

text \<open>
  The SHA-1 routine of \<^verbatim>\<open>src/net/sha1.hpp\<close>: word schedule, the eighty rounds, the digest
  and the driver that hashes full blocks in place and builds the one or two padding blocks in
  a 128-octet buffer. The reference definition pads the whole message as FIPS 180-4 section 5
  says and cuts it into blocks; the driver is proved equal to it.
\<close>

type_synonym u32 = "32 word"
type_synonym sha_state = "u32 \<times> u32 \<times> u32 \<times> u32 \<times> u32"

definition kInitialState :: sha_state where
  "kInitialState = (0x67452301, 0xEFCDAB89, 0x98BADCFE, 0x10325476, 0xC3D2E1F0)"

definition rotl32 :: "u32 \<Rightarrow> nat \<Rightarrow> u32" where
  "rotl32 v n = push_bit n v OR drop_bit (32 - n) v"

text \<open>The first loop of \<^verbatim>\<open>process_block\<close>: sixteen big-endian words.\<close>

definition load_word :: "octets \<Rightarrow> nat \<Rightarrow> u32" where
  "load_word block i = (let offset = i * 4 in
     push_bit 24 (ucast (block ! offset)) OR push_bit 16 (ucast (block ! (offset + 1)))
     OR push_bit 8 (ucast (block ! (offset + 2))) OR ucast (block ! (offset + 3)))"

text \<open>The second loop: word \<open>i\<close> is computed from four earlier ones.\<close>

definition schedule_word :: "u32 list \<Rightarrow> nat \<Rightarrow> u32" where
  "schedule_word ws i = rotl32 (ws ! (i - 3) XOR ws ! (i - 8) XOR ws ! (i - 14) XOR ws ! (i - 16)) 1"

definition message_schedule :: "octets \<Rightarrow> u32 list" where
  "message_schedule block =
     foldl (\<lambda>ws i. ws @ [schedule_word ws i]) (map (load_word block) [0..<16]) [16..<80]"

definition round_fk :: "nat \<Rightarrow> u32 \<Rightarrow> u32 \<Rightarrow> u32 \<Rightarrow> u32 \<times> u32" where
  "round_fk i b c d =
     (if i < 20 then ((b AND c) OR ((NOT b) AND d), 0x5A827999)
      else if i < 40 then (b XOR c XOR d, 0x6ED9EBA1)
      else if i < 60 then ((b AND c) OR (b AND d) OR (c AND d), 0x8F1BBCDC)
      else (b XOR c XOR d, 0xCA62C1D6))"

definition sha_round :: "u32 list \<Rightarrow> sha_state \<Rightarrow> nat \<Rightarrow> sha_state" where
  "sha_round ws st i = (case st of (a, b, c, d, e) \<Rightarrow>
     (case round_fk i b c d of (f, k) \<Rightarrow>
        let temp = rotl32 a 5 + f + e + k + ws ! i
        in (temp, a, rotl32 b 30, c, d)))"

definition process_block :: "sha_state \<Rightarrow> octets \<Rightarrow> sha_state" where
  "process_block h block = (case h of (h0, h1, h2, h3, h4) \<Rightarrow>
     (case foldl (sha_round (message_schedule block)) (h0, h1, h2, h3, h4) [0..<80] of
        (a, b, c, d, e) \<Rightarrow> (h0 + a, h1 + b, h2 + c, h3 + d, h4 + e)))"

definition write_word :: "u32 \<Rightarrow> octets" where
  "write_word w = [ucast (drop_bit 24 w), ucast (drop_bit 16 w), ucast (drop_bit 8 w), ucast w]"

definition digest_of :: "sha_state \<Rightarrow> octets" where
  "digest_of h = (case h of (h0, h1, h2, h3, h4) \<Rightarrow>
     write_word h0 @ write_word h1 @ write_word h2 @ write_word h3 @ write_word h4)"

text \<open>The eight octets of the bit length, most significant first.\<close>

definition be64_octets :: "64 word \<Rightarrow> octets" where
  "be64_octets n = map (\<lambda>i. ucast (drop_bit ((8 - 1 - i) * 8) n)) [0..<8]"

subsection \<open>The driver\<close>

definition subspan :: "'a list \<Rightarrow> nat \<Rightarrow> nat \<Rightarrow> 'a list" where
  "subspan xs offset count = take count (drop offset xs)"

fun write_at :: "'a list \<Rightarrow> nat \<Rightarrow> 'a list \<Rightarrow> 'a list" where
  "write_at buf pos [] = buf"
| "write_at buf pos (y # ys) = write_at (buf[pos := y]) (Suc pos) ys"

text \<open>
  The local \<^verbatim>\<open>pad_buf\<close>: 128 zero octets, the tail of the message copied to its front, the
  marker octet after it and the bit length at \<^verbatim>\<open>len_offset\<close>.
\<close>

definition padding_buffer :: "octets \<Rightarrow> 64 word \<Rightarrow> nat \<Rightarrow> octets" where
  "padding_buffer tail bit_length pad_blocks =
     (let pb = write_at (replicate 128 0) 0 tail;
          pb = pb[length tail := 0x80];
          len_offset = (pad_blocks - 1) * 64 + 56
      in write_at pb len_offset (be64_octets bit_length))"

definition hash_blocks :: "octets \<Rightarrow> nat \<Rightarrow> sha_state \<Rightarrow> sha_state" where
  "hash_blocks xs n h = foldl (\<lambda>h i. process_block h (subspan xs (i * 64) 64)) h [0..<n]"

definition sha1_compute :: "octets \<Rightarrow> octets" where
  "sha1_compute data =
     (let bit_length = (word_of_nat (length data) :: 64 word) * 8;
          full_blocks = length data div 64;
          tail_size = length data mod 64;
          h = hash_blocks data full_blocks kInitialState;
          pad_blocks = (if tail_size < 56 then 1 else 2);
          pb = padding_buffer (subspan data (full_blocks * 64) tail_size) bit_length pad_blocks
      in digest_of (hash_blocks pb pad_blocks h))"

subsection \<open>FIPS 180-4\<close>

text \<open>
  The standard, sections 4.1.1, 4.2.1, 5.1.1, 5.3.1 and 6.1.2: nothing of the program is used here. The
  constants are written out again, words and lengths are read as numbers, the rotation is the library's
  and the schedule is the recurrence for \<open>W\<close>.
\<close>

definition fips_H0 :: "u32 list" where
  "fips_H0 = [0x67452301, 0xefcdab89, 0x98badcfe, 0x10325476, 0xc3d2e1f0]"

definition fips_f :: "nat \<Rightarrow> u32 \<Rightarrow> u32 \<Rightarrow> u32 \<Rightarrow> u32" where
  "fips_f t x y z =
     (if t \<le> 19 then (x AND y) XOR (NOT x AND z)
      else if t \<le> 39 then x XOR y XOR z
      else if t \<le> 59 then (x AND y) XOR (x AND z) XOR (y AND z)
      else x XOR y XOR z)"

definition fips_K :: "nat \<Rightarrow> u32" where
  "fips_K t = (if t \<le> 19 then 0x5a827999 else if t \<le> 39 then 0x6ed9eba1
     else if t \<le> 59 then 0x8f1bbcdc else 0xca62c1d6)"

fun fips_W :: "octets \<Rightarrow> nat \<Rightarrow> u32" where
  "fips_W M t =
     (if t < 16 then word_of_nat (be_value (take 4 (drop (4 * t) M)))
      else word_rotl 1 (fips_W M (t - 3) XOR fips_W M (t - 8) XOR fips_W M (t - 14) XOR fips_W M (t - 16)))"

declare fips_W.simps [simp del]

text \<open>The assignments of step 3 of the hash computation, on \<open>a, b, c, d, e\<close>.\<close>

definition fips_step :: "u32 \<Rightarrow> nat \<Rightarrow> u32 list \<Rightarrow> u32 list" where
  "fips_step w t v =
     [word_rotl 5 (v ! 0) + fips_f t (v ! 1) (v ! 2) (v ! 3) + v ! 4 + fips_K t + w,
      v ! 0, word_rotl 30 (v ! 1), v ! 2, v ! 3]"

fun fips_vars :: "octets \<Rightarrow> u32 list \<Rightarrow> nat \<Rightarrow> u32 list" where
  "fips_vars M H 0 = H"
| "fips_vars M H (Suc t) = fips_step (fips_W M t) t (fips_vars M H t)"

definition fips_block :: "u32 list \<Rightarrow> octets \<Rightarrow> u32 list" where
  "fips_block H M = map2 (+) H (fips_vars M H 80)"

definition pad_zeros :: "nat \<Rightarrow> nat" where
  "pad_zeros l = (119 - l mod 64) mod 64"

definition sha1_pad :: "octets \<Rightarrow> octets" where
  "sha1_pad m = m @ [0x80] @ replicate (pad_zeros (length m)) 0 @ big_endian 8 (8 * length m)"

fun blocks_of :: "octets \<Rightarrow> octets list" where
  "blocks_of [] = []"
| "blocks_of (x # xs) = take 64 (x # xs) # blocks_of (drop 63 xs)"

definition sha1_reference :: "octets \<Rightarrow> octets" where
  "sha1_reference m =
     concat (map (\<lambda>w. big_endian 4 (unat w)) (foldl fips_block fips_H0 (blocks_of (sha1_pad m))))"

text \<open>The zeros are the fewest that bring the length to 56 octets modulo 64.\<close>

lemma pad_zeros_fips: "pad_zeros l < 64" "(l + 1 + pad_zeros l) mod 64 = 56"
proof -
  have "(l mod 64 + 1 + pad_zeros l) mod 64 = 56"
  proof (cases "l mod 64 < 56")
    case True
    then have "119 - l mod 64 = 55 - l mod 64 + 64" by simp
    then have "pad_zeros l = 55 - l mod 64" unfolding pad_zeros_def by (simp only: mod_add_self2) simp
    with True show ?thesis by simp
  next
    case False
    then have "pad_zeros l = 119 - l mod 64" by (simp add: pad_zeros_def)
    moreover have "l mod 64 < 64" by simp
    ultimately have "l mod 64 + 1 + pad_zeros l = 120" by simp
    then show ?thesis by simp
  qed
  then show "(l + 1 + pad_zeros l) mod 64 = 56" by (metis mod_add_left_eq)
qed (simp add: pad_zeros_def)

subsection \<open>The routine computes the functions of the standard\<close>

lemma rotl32_word: assumes "0 < n" "n < 32" shows "rotl32 v n = word_rotl n v"
proof (rule bit_word_eqI)
  fix i assume i: "i < LENGTH(32)"
  show "bit (rotl32 v n) i = bit (word_rotl n v) i"
  proof (cases "n \<le> i")
    case True
    then have "(i + (32 - n)) mod 32 = i - n" using i assms by (simp add: mod_if)
    moreover have "\<not> bit v (32 - n + i)" using True assms bit_imp_le_length [of v "32 - n + i"] by auto
    ultimately show ?thesis using True i assms by (simp add: rotl32_def bit_simps)
  next
    case False
    then have "i + (32 - n) < 32" using assms by linarith
    then have "(i + (32 - n)) mod 32 = 32 - n + i" by (simp only: mod_less add.commute)
    then show ?thesis using False i assms by (simp add: rotl32_def bit_simps)
  qed
qed

lemma drop_four: "n + 4 \<le> length M \<Longrightarrow> take 4 (drop n M) = [M ! n, M ! (n + 1), M ! (n + 2), M ! (n + 3)]"
  using Cons_nth_drop_Suc [of n M] Cons_nth_drop_Suc [of "n + 1" M] Cons_nth_drop_Suc [of "n + 2" M]
    Cons_nth_drop_Suc [of "n + 3" M]
  by (simp add: eval_nat_numeral) (metis take0 take_Suc_Cons)

lemma load_word_be:
  assumes "4 * t + 4 \<le> length M"
  shows "load_word M t = word_of_nat (be_value (take 4 (drop (4 * t) M)))"
  unfolding drop_four [OF assms] load_word_def Let_def be32 by (simp only: mult.commute [of t 4])

lemma bit_or: "(x AND y) OR (NOT x AND z) = (x AND y) XOR (NOT x AND (z :: u32))"
  by (rule bit_word_eqI) (auto simp: bit_simps)
lemma maj_or: "(x AND y) OR (x AND z) OR (y AND z) = (x AND y) XOR (x AND z) XOR (y AND (z :: u32))"
  by (rule bit_word_eqI) (auto simp: bit_simps)
lemma round_fk_fips: "round_fk t b c d = (fips_f t b c d, fips_K t)"
 by (simp add: round_fk_def fips_f_def fips_K_def bit_or maj_or)

lemma message_schedule_fips:
  assumes "length M = 64" "n \<le> 64"
  shows "foldl (\<lambda>ws i. ws @ [schedule_word ws i]) (map (load_word M) [0..<16]) [16..<16 + n] = map (fips_W M) [0..<16 + n]"
  using assms(2)
proof (induction n)
  case 0
  have "load_word M t = fips_W M t" if "t < 16" for t
    using that assms(1) by (simp add: fips_W.simps load_word_be)
  then show ?case by simp
next
  case (Suc n)
  have "fips_W M (16 + n) = schedule_word (map (fips_W M) [0..<16 + n]) (16 + n)"
   by (subst fips_W.simps) (simp add: schedule_word_def rotl32_word)
  moreover have "[16..<16 + Suc n] = [16..<16 + n] @ [16 + n]" "[0..<16 + Suc n] = [0..<16 + n] @ [16 + n]"
    by (simp_all only: add_Suc_right upt_Suc le_add1 le0 if_True)
  ultimately show ?case using Suc.IH Suc.prems by (simp only: foldl_append map_append foldl.simps list.map Suc_leD)
qed

fun list5 :: "sha_state \<Rightarrow> u32 list" where "list5 (a, b, c, d, e) = [a, b, c, d, e]"

lemma sha_round_fips:
  "t < 80 \<Longrightarrow> list5 (sha_round (map (fips_W M) [0..<80]) h t) = fips_step (fips_W M t) t (list5 h)"
  by (cases h) (simp add: sha_round_def fips_step_def round_fk_fips rotl32_word Let_def)

lemma process_block_fips:
  assumes "length M = 64"
  shows "list5 (process_block h M) = fips_block (list5 h) M"
proof -
  have w: "message_schedule M = map (fips_W M) [0..<80]"
  proof -
    have "16 + 64 = (80 :: nat)" by simp
    from message_schedule_fips [OF assms, of 64, unfolded this]
    show ?thesis by (simp only: message_schedule_def order.refl)
  qed
  have "list5 (foldl (sha_round (message_schedule M)) h [0..<n]) = fips_vars M (list5 h) n" if "n \<le> 80" for n
    using that
  proof (induction n)
    case (Suc n)
    then have n: "n < 80" "n \<le> 80" by simp_all
    have "[0..<Suc n] = [0..<n] @ [n]" by simp
    then show ?case
      by (simp only: foldl_append foldl.simps w sha_round_fips [OF n(1)] fips_vars.simps Suc.IH [OF n(2), unfolded w])
  qed simp
  from this [of 80] have v: "list5 (foldl (sha_round (message_schedule M)) h [0..<80]) = fips_vars M (list5 h) 80"
    by simp
  obtain a b c d e where f: "foldl (sha_round (message_schedule M)) h [0..<80] = (a, b, c, d, e)"
    by (metis prod_cases5)
  obtain h0 h1 h2 h3 h4 where h: "h = (h0, h1, h2, h3, h4)" by (metis prod_cases5)
  show ?thesis
    unfolding fips_block_def v [symmetric] f [unfolded h]
    by (simp add: h process_block_def f [unfolded h])
qed

lemma digest_fips: "digest_of h = concat (map (\<lambda>w. big_endian 4 (unat w)) (list5 h))"
proof -
  have "write_word w = big_endian 4 (unat w)" for w
    using octet_of_word [of 3 "unat w", where 'a = 32] octet_of_word [of 2 "unat w", where 'a = 32]
      octet_of_word [of 1 "unat w", where 'a = 32] octet_of_word [of 0 "unat w", where 'a = 32]
    by (simp add: write_word_def big_endian_map upt_rec [of _ 4])
  then show ?thesis by (cases h) (simp add: digest_of_def)
qed

lemma be64_octets_be: "be64_octets (word_of_nat n) = big_endian 8 n"
proof -
  have "ucast (drop_bit ((8 - 1 - i) * 8) (word_of_nat n :: 64 word)) = (word_of_nat (n div 256 ^ (8 - 1 - i)) :: octet)" if "i < 8" for i
   using octet_of_word [of "8 - 1 - i" n, where 'a=64] that
   by (simp add: mult.commute)
  then show ?thesis unfolding be64_octets_def big_endian_map by simp
qed

subsection \<open>The driver pads as the standard says\<close>

lemma length_be64_octets [simp]: "length (be64_octets n) = 8"
  by (simp add: be64_octets_def)

lemma length_write_at [simp]: "length (write_at buf pos ys) = length buf"
  by (induction buf pos ys rule: write_at.induct) simp_all

lemma write_at_eq:
  "pos + length ys \<le> length buf \<Longrightarrow>
     write_at buf pos ys = take pos buf @ ys @ drop (pos + length ys) buf"
proof (induction buf pos ys rule: write_at.induct)
  case (2 buf pos y ys)
  then have "write_at buf pos (y # ys) =
      take (Suc pos) (buf[pos := y]) @ ys @ drop (Suc pos + length ys) (buf[pos := y])"
    by simp
  also have "take (Suc pos) (buf[pos := y]) = take pos buf @ [y]"
    using 2 by (simp add: take_Suc_conv_app_nth)
  finally show ?case by simp
qed simp

lemma blocks_of_append:
  assumes "length xs = n * 64"
  shows "blocks_of (xs @ ys) = map (\<lambda>i. subspan xs (i * 64) 64) [0..<n] @ blocks_of ys"
  using assms
proof (induction n arbitrary: xs)
  case (Suc n)
  then obtain x xs' where x: "xs = x # xs'" and l: "63 \<le> length xs'" by (cases xs) auto
  have d: "length (drop 64 xs) = n * 64" using Suc.prems by simp
  have "blocks_of (xs @ ys) = take 64 xs # blocks_of (drop 64 xs @ ys)"
    using l by (simp add: x)
  also have "\<dots> = subspan xs 0 64 # map (\<lambda>i. subspan (drop 64 xs) (i * 64) 64) [0..<n] @ blocks_of ys"
    by (simp add: Suc.IH [OF d] subspan_def)
  also have "map (\<lambda>i. subspan (drop 64 xs) (i * 64) 64) [0..<n]
      = map (\<lambda>i. subspan xs (i * 64) 64) [1..<Suc n]"
    by (simp only: map_Suc_upt [symmetric] One_nat_def map_map comp_def) (simp add: subspan_def add.commute)
  also have "subspan xs 0 64 # \<dots> @ blocks_of ys
      = map (\<lambda>i. subspan xs (i * 64) 64) [0..<Suc n] @ blocks_of ys"
    by (simp add: upt_conv_Cons del: upt_Suc)
  finally show ?case .
qed simp

lemma hash_blocks_eq:
  "hash_blocks xs n h = foldl process_block h (map (\<lambda>i. subspan xs (i * 64) 64) [0..<n])"
  by (simp add: hash_blocks_def foldl_map)

lemma subspan_take: "i < n \<Longrightarrow> subspan (take (n * 64) xs) (i * 64) 64 = subspan xs (i * 64) 64"
proof -
  assume "i < n"
  then have "min 64 (n * 64 - i * 64) = 64"
    by (metis Suc_leI diff_mult_distrib min.absorb1 mult_1 mult_le_mono1 zero_less_diff One_nat_def)
  then show ?thesis by (simp add: subspan_def drop_take)
qed

lemma padding_buffer_eq:
  assumes t: "length tail < 64" and p: "p = (if length tail < 56 then 1 else 2)"
  shows "take (p * 64) (padding_buffer tail bits p)
    = tail @ [0x80] @ replicate (pad_zeros (length tail)) 0 @ be64_octets bits"
proof -
  have s: "128 - length tail = Suc (127 - length tail)" using t by simp
  have "write_at (replicate 128 0) 0 tail = tail @ replicate (128 - length tail) 0"
    using t by (simp add: write_at_eq)
  then have b: "(write_at (replicate 128 0) 0 tail)[length tail := 0x80]
      = tail @ [0x80] @ replicate (127 - length tail) 0"
    unfolding s by (simp add: list_update_append)
  show ?thesis
  proof (cases "length tail < 56")
    case True
    then have "119 - length tail = 55 - length tail + 64" by simp
    then have "pad_zeros (length tail) = 55 - length tail"
      using True t by (simp only: pad_zeros_def mod_add_self2 mod_less)
    with True t p show ?thesis
      unfolding padding_buffer_def Let_def b by (simp add: write_at_eq take_Cons' min.absorb1 min.absorb2)
  next
    case False
    then have "pad_zeros (length tail) = 119 - length tail" using t by (simp add: pad_zeros_def)
    with False t p show ?thesis
      unfolding padding_buffer_def Let_def b by (simp add: write_at_eq take_Cons' min.absorb1 min.absorb2)
  qed
qed

lemma sha1_pad_split:
  assumes "data = full @ tail" "length full = n * 64"
  shows "sha1_pad data = full @ tail @ [0x80] @ replicate (pad_zeros (length tail)) 0
    @ be64_octets (word_of_nat (length data) * 8)"
proof -
  have "word_of_nat (length data) * 8 = (word_of_nat (8 * length data) :: 64 word)" by simp
  then have "be64_octets (word_of_nat (length data) * 8) = big_endian 8 (8 * length data)"
    using be64_octets_be [of "8 * length data"] by (simp only:)
  with assms show ?thesis by (simp add: sha1_pad_def pad_zeros_def)
qed

lemma hash_blocks_take: "hash_blocks (take (n * 64) xs) n h = hash_blocks xs n h"
  unfolding hash_blocks_eq by (rule arg_cong [where f = "foldl process_block h"]) (simp add: subspan_take)

lemma hash_blocks_append:
  assumes "length xs = n * 64" "length ys = m * 64"
  shows "foldl process_block h (blocks_of (xs @ ys)) = hash_blocks ys m (hash_blocks xs n h)"
  using blocks_of_append [OF assms(1), of ys] blocks_of_append [OF assms(2), of "[]"]
  by (simp add: hash_blocks_eq)

lemma blocks_of_length: "length xs mod 64 = 0 \<Longrightarrow> b \<in> set (blocks_of xs) \<Longrightarrow> length b = 64"
proof (induction xs rule: blocks_of.induct)
  case (2 x xs)
  from "2.prems"(1) have l: "64 \<le> length (x # xs)" by (metis length_Cons mod_less not_less old.nat.distinct(2))
  then have "length (drop 63 xs) mod 64 = 0" using "2.prems"(1) by (simp add: le_mod_geq)
  with "2.IH" "2.prems"(2) l show ?case by auto
qed simp

lemma length_sha1_pad: "length (sha1_pad m) mod 64 = 0"
proof -
  have "(length m + 1 + pad_zeros (length m) + 8) mod 64 = 0"
    by (subst mod_add_left_eq [symmetric]) (simp only: pad_zeros_fips(2), simp)
  then show ?thesis by (simp add: sha1_pad_def ac_simps)
qed

lemma fold_blocks_fips:
  "(\<And>b. b \<in> set bs \<Longrightarrow> length b = 64) \<Longrightarrow> list5 (foldl process_block h bs) = foldl fips_block (list5 h) bs"
  by (induction bs arbitrary: h) (simp_all add: process_block_fips)

lemma digest_pad_fips: "digest_of (foldl process_block kInitialState (blocks_of (sha1_pad m))) = sha1_reference m"
proof -
  have "list5 kInitialState = fips_H0" by (simp add: kInitialState_def fips_H0_def)
  with fold_blocks_fips [OF blocks_of_length [OF length_sha1_pad [of m]], where h = kInitialState] show ?thesis
    by (simp add: digest_fips sha1_reference_def)
qed

lemma sha1_compute_eq: "sha1_compute data = sha1_reference data"
proof -
  define n where "n = length data div 64"
  define tail where "tail = subspan data (n * 64) (length data mod 64)"
  define p where "p = (if length tail < 56 then 1 else 2 :: nat)"
  define bits where "bits = (word_of_nat (length data) * 8 :: 64 word)"
  have t: "length tail = length data mod 64" "tail = drop (n * 64) data"
    by (simp_all add: tail_def subspan_def n_def minus_div_mult_eq_mod)
  have full: "length (take (n * 64) data) = n * 64" by (simp add: n_def)
  have d: "data = take (n * 64) data @ tail" by (simp add: t(2))
  have pb: "take (p * 64) (padding_buffer tail bits p) =
      tail @ [0x80] @ replicate (pad_zeros (length tail)) 0 @ be64_octets bits"
    by (rule padding_buffer_eq) (simp_all add: t(1) p_def)
  have len: "length (take (p * 64) (padding_buffer tail bits p)) = p * 64"
    by (simp add: padding_buffer_def Let_def p_def)
  have "sha1_pad data = take (n * 64) data @ take (p * 64) (padding_buffer tail bits p)"
    using sha1_pad_split [OF d full, folded bits_def] pb by simp
  then have "foldl process_block kInitialState (blocks_of (sha1_pad data))
      = hash_blocks (padding_buffer tail bits p) p (hash_blocks data n kInitialState)"
    by (simp only: hash_blocks_append [OF full len] hash_blocks_take)
  moreover have "subspan data (n * 64) (length tail) = tail"
    by (simp only: t(1) tail_def [symmetric])
  ultimately show ?thesis
    by (simp only: sha1_compute_def digest_pad_fips [symmetric] Let_def n_def [symmetric]
        bits_def [symmetric] t(1) [symmetric] p_def [symmetric])
qed

lemma length_digest_of [simp]: "length (digest_of h) = 20"
  by (simp add: digest_of_def write_word_def split: prod.splits)

subsection \<open>Evaluation on concrete messages\<close>

text \<open>
  The rounds with a window of sixteen schedule words, every value masked to 32 bits: equal to the
  recurrence of the standard, and quick to rewrite on numerals.
\<close>

fun rotl_num :: "nat \<Rightarrow> u32 \<Rightarrow> u32" where
  "rotl_num n w = (push_bit n w AND 0xFFFFFFFF) OR drop_bit (32 - n) w"

lemma low32: "w AND 0xFFFFFFFF = (w :: u32)"
proof -
  have "(0xFFFFFFFF :: u32) = mask 32" by (simp add: mask_eq_exp_minus_1)
  then show ?thesis by (simp only: take_bit_eq_mask [symmetric]) (simp add: take_bit_word_eq_self)
qed

fun window_rounds :: "u32 list \<Rightarrow> u32 \<Rightarrow> u32 \<Rightarrow> u32 \<Rightarrow> u32 \<Rightarrow> u32 \<Rightarrow> nat \<Rightarrow> nat \<Rightarrow> u32 list" where
  "window_rounds ws a b c d e 0 t = [a, b, c, d, e]"
| "window_rounds ws a b c d e (Suc n) t =
     window_rounds (tl ws @ [rotl_num 1 (ws ! 13 XOR ws ! 8 XOR ws ! 2 XOR ws ! 0)])
       ((rotl_num 5 a + fips_f t b c d + e + fips_K t + ws ! 0) AND 0xFFFFFFFF) a (rotl_num 30 b) c d n (t + 1)"

lemma window_rounds_numeral:
  "window_rounds ws a b c d e (numeral m) t =
     window_rounds (tl ws @ [rotl_num 1 (ws ! 13 XOR ws ! 8 XOR ws ! 2 XOR ws ! 0)])
       ((rotl_num 5 a + fips_f t b c d + e + fips_K t + ws ! 0) AND 0xFFFFFFFF) a (rotl_num 30 b) c d
       (pred_numeral m) (t + 1)"
  by (subst numeral_eq_Suc) (rule window_rounds.simps)

lemma rotl_num_word: "0 < n \<Longrightarrow> n < 32 \<Longrightarrow> rotl_num n w = word_rotl n w"
  by (simp only: rotl_num.simps low32 rotl32_word [symmetric] rotl32_def)

lemma fips_W_window:
  "rotl_num 1 (fips_W M (t + 13) XOR fips_W M (t + 8) XOR fips_W M (t + 2) XOR fips_W M t) = fips_W M (t + 16)"
  by (subst (5) fips_W.simps) (simp add: rotl_num_word add.commute del: rotl_num.simps)

lemma window_rounds_fips:
  "fips_vars M h t = [a, b, c, d, e] \<Longrightarrow>
     window_rounds (map (\<lambda>i. fips_W M (t + i)) [0..<16]) a b c d e n t = fips_vars M h (t + n)"
proof (induction n arbitrary: a b c d e t)
  case (Suc n)
  let ?ws = "map (\<lambda>i. fips_W M (t + i)) [0..<16]"
  have w: "?ws ! 13 = fips_W M (t + 13)" "?ws ! 8 = fips_W M (t + 8)" "?ws ! 2 = fips_W M (t + 2)" "?ws ! 0 = fips_W M t"
    by (simp_all del: upt_rec_numeral)
  have "tl ?ws @ [fips_W M (t + 16)] = map (\<lambda>i. fips_W M (Suc t + i)) [0..<16]"
    by (rule nth_equalityI) (auto simp: add.commute nth_append nth_tl not_less less_Suc_eq_le dest!: le_antisym simp del: upt_rec_numeral)
  moreover have "fips_vars M h (Suc t) =
      [rotl_num 5 a + fips_f t b c d + e + fips_K t + fips_W M t, a, rotl_num 30 b, c, d]"
    using Suc.prems by (simp add: fips_step_def rotl_num_word del: rotl_num.simps)
  from Suc.IH [OF this] 
  have "window_rounds (map (\<lambda>i. fips_W M (Suc t + i)) [0..<16])
      (rotl_num 5 a + fips_f t b c d + e + fips_K t + fips_W M t) a (rotl_num 30 b) c d n (Suc t) = fips_vars M h (Suc t + n)" .
  ultimately show ?case
    by (simp only: window_rounds.simps w fips_W_window low32 add_Suc_shift Suc_eq_plus1 [symmetric])
qed simp

lemma fips_block_window:
  "fips_block [a, b, c, d, e] M = map2 (+) [a, b, c, d, e]
     (window_rounds (map (\<lambda>t. word_of_nat (be_value (take 4 (drop (4 * t) M)))) [0..<16]) a b c d e 80 0)"
proof -
  have "fips_W M t = word_of_nat (be_value (take 4 (drop (4 * t) M)))" if "t < 16" for t
    using that by (simp add: fips_W.simps)
  then have "map (\<lambda>t. word_of_nat (be_value (take 4 (drop (4 * t) M)))) [0..<16] = map (\<lambda>i. fips_W M (0 + i)) [0..<16]"
    by (simp del: upt_rec_numeral)
  with window_rounds_fips [of M "[a, b, c, d, e]" 0 a b c d e 80] show ?thesis
    by (simp only: fips_block_def fips_vars.simps add_0)
qed

lemmas window_eval = window_rounds_numeral window_rounds.simps(2) [where n = 0] fips_f_def fips_K_def

lemma fips_block_eval:
  assumes "map (\<lambda>t. word_of_nat (be_value (take 4 (drop (4 * t) M)))) [0..<16] = ws"
    and "window_rounds ws a b c d e 80 0 = vs"
  shows "fips_block [a, b, c, d, e] M = map2 (+) [a, b, c, d, e] vs"
  by (simp only: fips_block_window assms)

lemma replicate_num: "replicate (numeral m) x = x # replicate (pred_numeral m) x"
  by (simp add: numeral_eq_Suc)

lemmas pad_eval = sha1_pad_def pad_zeros_def replicate_num big_endian_numeral

text \<open>The example of the standard's test vectors: the message \<open>abc\<close>.\<close>

abbreviation (input) abc_block :: octets where
  "abc_block \<equiv> [0x61, 0x62, 0x63, 0x80, 0, 0, 0, 0, 0, 0, 0, 0, 0, 0, 0, 0, 0, 0, 0, 0, 0, 0, 0, 0, 0, 0, 0, 0, 0, 0, 0, 0, 0, 0, 0, 0, 0, 0, 0, 0, 0, 0, 0, 0, 0, 0, 0, 0, 0, 0, 0, 0, 0, 0, 0, 0, 0, 0, 0, 0, 0, 0, 0, 0x18]"

lemma abc_words:
  "map (\<lambda>t. word_of_nat (be_value (take 4 (drop (4 * t) abc_block)))) [0..<16]
     = ([0x61626380, 0, 0, 0, 0, 0, 0, 0, 0, 0, 0, 0, 0, 0, 0, 0x18] :: u32 list)"
  by (simp add: upt_rec [of _ 16])

lemma abc_rounds:
  "window_rounds [0x61626380, 0, 0, 0, 0, 0, 0, 0, 0, 0, 0, 0, 0, 0, 0, 0x18]
      0x67452301 0xefcdab89 0x98badcfe 0x10325476 0xc3d2e1f0 80 0
    = [0x42541b35, 0x5738d5e1, 0x21834873, 0x681e6df6, 0xd8fdf6ad]"
  by (simp add: window_eval del: window_rounds.simps(2))

lemma abc_octets: "map octet_of_char ''abc'' = [0x61, 0x62, 0x63]"
  by code_simp

lemma sha1_abc:
  "sha1_compute (map octet_of_char ''abc'')
     = [0xA9, 0x99, 0x3E, 0x36, 0x47, 0x06, 0x81, 0x6A, 0xBA, 0x3E,
        0x25, 0x71, 0x78, 0x50, 0xC2, 0x6C, 0x9C, 0xD0, 0xD8, 0x9D]"
proof -
  have "blocks_of (sha1_pad [0x61, 0x62, 0x63]) = [abc_block]"
    by (simp add: pad_eval)
  then have "foldl fips_block fips_H0 (blocks_of (sha1_pad [0x61, 0x62, 0x63]))
      = map2 (+) fips_H0 [0x42541b35, 0x5738d5e1, 0x21834873, 0x681e6df6, 0xd8fdf6ad]"
    by (simp only: fips_H0_def foldl.simps fips_block_eval [OF abc_words abc_rounds])
  then show ?thesis
    unfolding sha1_compute_eq abc_octets sha1_reference_def
    by (simp add: fips_H0_def big_endian_numeral)
qed

lemma length_sha1_compute: "length (sha1_compute data) = 20"
  by (simp add: sha1_compute_def Let_def)

text \<open>Claim C17. Hashing the full blocks in place and then the one or two blocks of the padding
  buffer gives, for a message of every length, the SHA-1 digest of FIPS 180-4, which is defined from
  the standard alone: its own constants, functions, schedule recurrence, padding of the whole message,
  64-bit length and reading of words. In particular the choice between one and two padding blocks and the
  place of the length are right for each of the 64 tail sizes. The digest has 20 octets, and that of
  \<open>abc\<close> is the one the standard's example gives.\<close>
theorem sha1_compute_reference:
  "sha1_compute data = sha1_reference data \<and> length (sha1_compute data) = 20
   \<and> sha1_compute (map octet_of_char ''abc'')
     = [0xA9, 0x99, 0x3E, 0x36, 0x47, 0x06, 0x81, 0x6A, 0xBA, 0x3E,
        0x25, 0x71, 0x78, 0x50, 0xC2, 0x6C, 0x9C, 0xD0, 0xD8, 0x9D]"
  unfolding sha1_abc using length_sha1_compute by (simp add: sha1_compute_eq)

end
