(* ===== verification/Errors.thy ===== *)
theory Errors
  imports Prelude
begin

text \<open>
  The error vocabulary of the framework: \<^verbatim>\<open>ErrorCategory\<close> of
  \<^verbatim>\<open>include/aevox/error.hpp\<close> and the enumerations of the components with their
  \<^verbatim>\<open>category\<close> and \<^verbatim>\<open>to_string\<close> functions, in the cases of the source's switches. The
  statement after each switch is unreachable for a value of the enumeration and has no
  equation.
\<close>

datatype ErrorCategory = CatIo | CatProtocol | CatParse | CatValidation | CatNotFound
  | CatSerialization | CatState | CatUnknown

fun error_category_text :: "ErrorCategory \<Rightarrow> string" where
  "error_category_text CatIo = ''io''"
| "error_category_text CatProtocol = ''protocol''"
| "error_category_text CatParse = ''parse''"
| "error_category_text CatValidation = ''validation''"
| "error_category_text CatNotFound = ''not found''"
| "error_category_text CatSerialization = ''serialization''"
| "error_category_text CatState = ''state''"
| "error_category_text CatUnknown = ''unknown''"

subsection \<open>WebSocket\<close>

datatype WebSocketErrorCode = InvalidHandshake | ProtocolError | Closed | SendFailed | FrameTooLarge

record ws_error =
  ws_code :: WebSocketErrorCode
  ws_message :: string

fun ws_error_text :: "WebSocketErrorCode \<Rightarrow> string" where
  "ws_error_text InvalidHandshake = ''invalid WebSocket handshake''"
| "ws_error_text ProtocolError = ''WebSocket protocol error''"
| "ws_error_text Closed = ''WebSocket is closed''"
| "ws_error_text SendFailed = ''WebSocket send failed''"
| "ws_error_text FrameTooLarge = ''WebSocket frame too large''"

fun ws_error_category :: "WebSocketErrorCode \<Rightarrow> ErrorCategory" where
  "ws_error_category InvalidHandshake = CatProtocol"
| "ws_error_category ProtocolError = CatProtocol"
| "ws_error_category Closed = CatState"
| "ws_error_category SendFailed = CatIo"
| "ws_error_category FrameTooLarge = CatValidation"

subsection \<open>Transport\<close>

datatype IoError = IoEof | IoCancelled | IoReset | IoTimeout | IoUnknown

fun io_error_text :: "IoError \<Rightarrow> string" where
  "io_error_text IoEof = ''Eof: remote peer closed the connection''"
| "io_error_text IoCancelled = ''Cancelled: executor is shutting down''"
| "io_error_text IoReset = ''Reset: connection reset by peer''"
| "io_error_text IoTimeout = ''Timeout: I/O operation timed out''"
| "io_error_text IoUnknown = ''Unknown: OS-level I/O error''"

fun io_error_category :: "IoError \<Rightarrow> ErrorCategory" where
  "io_error_category IoEof = CatIo"
| "io_error_category IoReset = CatIo"
| "io_error_category IoTimeout = CatIo"
| "io_error_category IoCancelled = CatState"
| "io_error_category IoUnknown = CatUnknown"

datatype ExecutorError = BindFailed | ListenFailed | AcceptFailed | AlreadyRunning | NotRunning

fun executor_error_text :: "ExecutorError \<Rightarrow> string" where
  "executor_error_text BindFailed = ''bind_failed: OS refused to bind to the requested address/port''"
| "executor_error_text ListenFailed = ''listen_failed: listen() syscall failed''"
| "executor_error_text AcceptFailed = ''accept_failed: accept() call failed''"
| "executor_error_text AlreadyRunning = ''already_running: run() called on an already-running executor''"
| "executor_error_text NotRunning = ''not_running: operation attempted on a stopped executor''"

fun executor_error_category :: "ExecutorError \<Rightarrow> ErrorCategory" where
  "executor_error_category BindFailed = CatIo"
| "executor_error_category ListenFailed = CatIo"
| "executor_error_category AcceptFailed = CatIo"
| "executor_error_category AlreadyRunning = CatState"
| "executor_error_category NotRunning = CatState"

subsection \<open>Requests, configuration, plugins\<close>

datatype ParamError = ParamNotFound | BadConversion

fun param_error_text :: "ParamError \<Rightarrow> string" where
  "param_error_text ParamNotFound = ''path parameter not found''"
| "param_error_text BadConversion = ''path parameter conversion failed''"

fun param_error_category :: "ParamError \<Rightarrow> ErrorCategory" where
  "param_error_category ParamNotFound = CatNotFound"
| "param_error_category BadConversion = CatValidation"

datatype ConfigError = FileNotFound | ConfigParseError | InvalidValue

fun config_error_text :: "ConfigError \<Rightarrow> string" where
  "config_error_text FileNotFound = ''file not found''"
| "config_error_text ConfigParseError = ''TOML parse error''"
| "config_error_text InvalidValue = ''invalid field value''"

fun config_error_category :: "ConfigError \<Rightarrow> ErrorCategory" where
  "config_error_category FileNotFound = CatNotFound"
| "config_error_category ConfigParseError = CatParse"
| "config_error_category InvalidValue = CatValidation"

datatype PluginError = PlInvalidArgument | PlAlreadyInstalled | PlInstallFailed | PlStartFailed
  | PlAlreadyRunning | PlNotRunning | PlDependencyUnavailable | PlUnknown

fun plugin_error_text :: "PluginError \<Rightarrow> string" where
  "plugin_error_text PlInvalidArgument = ''invalid argument''"
| "plugin_error_text PlAlreadyInstalled = ''already installed''"
| "plugin_error_text PlInstallFailed = ''install failed''"
| "plugin_error_text PlStartFailed = ''start failed''"
| "plugin_error_text PlAlreadyRunning = ''already running''"
| "plugin_error_text PlNotRunning = ''not running''"
| "plugin_error_text PlDependencyUnavailable = ''dependency unavailable''"
| "plugin_error_text PlUnknown = ''unknown''"

fun plugin_error_category :: "PluginError \<Rightarrow> ErrorCategory" where
  "plugin_error_category PlInvalidArgument = CatValidation"
| "plugin_error_category PlAlreadyInstalled = CatState"
| "plugin_error_category PlAlreadyRunning = CatState"
| "plugin_error_category PlNotRunning = CatState"
| "plugin_error_category PlInstallFailed = CatIo"
| "plugin_error_category PlStartFailed = CatIo"
| "plugin_error_category PlDependencyUnavailable = CatNotFound"
| "plugin_error_category PlUnknown = CatUnknown"

datatype GrpcError = GInvalidConfig | GInvalidMethod | GDuplicateMethod | GAlreadyInstalled
  | GAlreadyRunning | GListenFailed | GStartFailed | GProtocolError | GMessageTooLarge
  | GCompressionUnsupported | GUnknown

fun grpc_error_text :: "GrpcError \<Rightarrow> string" where
  "grpc_error_text GInvalidConfig = ''invalid config''"
| "grpc_error_text GInvalidMethod = ''invalid method''"
| "grpc_error_text GDuplicateMethod = ''duplicate method''"
| "grpc_error_text GAlreadyInstalled = ''already installed''"
| "grpc_error_text GAlreadyRunning = ''already running''"
| "grpc_error_text GListenFailed = ''listen failed''"
| "grpc_error_text GStartFailed = ''start failed''"
| "grpc_error_text GProtocolError = ''protocol error''"
| "grpc_error_text GMessageTooLarge = ''message too large''"
| "grpc_error_text GCompressionUnsupported = ''compression unsupported''"
| "grpc_error_text GUnknown = ''unknown''"

fun grpc_error_category :: "GrpcError \<Rightarrow> ErrorCategory" where
  "grpc_error_category GInvalidConfig = CatValidation"
| "grpc_error_category GInvalidMethod = CatValidation"
| "grpc_error_category GDuplicateMethod = CatValidation"
| "grpc_error_category GAlreadyInstalled = CatState"
| "grpc_error_category GAlreadyRunning = CatState"
| "grpc_error_category GListenFailed = CatIo"
| "grpc_error_category GStartFailed = CatIo"
| "grpc_error_category GProtocolError = CatProtocol"
| "grpc_error_category GCompressionUnsupported = CatProtocol"
| "grpc_error_category GMessageTooLarge = CatValidation"
| "grpc_error_category GUnknown = CatUnknown"

datatype StaticFilesConfigError = RootEmpty | RootRelative | RootNotFound | RootNotDirectory
  | InvalidUrlPrefix | InvalidIndexFile | InvalidMimeOverride

fun static_files_error_text :: "StaticFilesConfigError \<Rightarrow> string" where
  "static_files_error_text RootEmpty = ''root is empty''"
| "static_files_error_text RootRelative = ''root is relative''"
| "static_files_error_text RootNotFound = ''root not found''"
| "static_files_error_text RootNotDirectory = ''root is not a directory''"
| "static_files_error_text InvalidUrlPrefix = ''invalid URL prefix''"
| "static_files_error_text InvalidIndexFile = ''invalid index file''"
| "static_files_error_text InvalidMimeOverride = ''invalid MIME override''"

fun static_files_error_category :: "StaticFilesConfigError \<Rightarrow> ErrorCategory" where
  "static_files_error_category RootNotFound = CatNotFound"
| "static_files_error_category RootEmpty = CatValidation"
| "static_files_error_category RootRelative = CatValidation"
| "static_files_error_category RootNotDirectory = CatValidation"
| "static_files_error_category InvalidUrlPrefix = CatValidation"
| "static_files_error_category InvalidIndexFile = CatValidation"
| "static_files_error_category InvalidMimeOverride = CatValidation"

lemma ws_error_text_inj: "ws_error_text a = ws_error_text b \<Longrightarrow> a = b"
  by (cases a; cases b) simp_all

lemma error_category_text_inj: "error_category_text a = error_category_text b \<Longrightarrow> a = b"
  by (cases a; cases b) simp_all

end
