(* ===== verification/Ws_Handshake.thy ===== *)
theory Ws_Handshake
  imports Base64 Sha1 Errors
begin

text \<open>
  The upgrade handshake of \<^verbatim>\<open>src/net/websocket_handshake.cpp\<close>: the three header checks in
  the order of the source, and the accept key as Base64 of SHA-1 of the client key and the
  GUID. \<^verbatim>\<open>iequal\<close> and \<^verbatim>\<open>icontains\<close> are those of the prelude.
\<close>

record HandshakeHeaders =
  hs_upgrade :: string
  hs_connection :: string
  hs_key :: string

definition handshake_error :: "string \<Rightarrow> ws_error" where
  "handshake_error m = \<lparr>ws_code = InvalidHandshake, ws_message = m\<rparr>"

definition validate :: "HandshakeHeaders \<Rightarrow> ws_error + unit" where
  "validate h =
     (if \<not> iequal (hs_upgrade h) ''websocket'' then
        Inl (handshake_error (''Upgrade header must be '' @ [CHR 0x27] @ ''websocket'' @ [CHR 0x27]))
      else if \<not> icontains (hs_connection h) ''upgrade'' then
        Inl (handshake_error (''Connection header must contain '' @ [CHR 0x27] @ ''Upgrade'' @ [CHR 0x27]))
      else if hs_key h = [] then
        Inl (handshake_error ''Missing Sec-WebSocket-Key header'')
      else Inr ())"

definition kWebSocketGUID :: string where
  "kWebSocketGUID = ''258EAFA5-E914-47DA-95CA-C5AB0DC85B11''"

definition compute_accept_key :: "string \<Rightarrow> string" where
  "compute_accept_key client_key =
     (let combined = client_key @ kWebSocketGUID;
          digest = sha1_compute (map octet_of_char combined)
      in base64_encode digest)"

text \<open>
  What the handshake relies on: a digest of 20 octets, and an encoding that can be read back and whose
  length is known.
\<close>

locale accept_codec =
  fixes digest :: "octets \<Rightarrow> octets"
    and encode :: "octets \<Rightarrow> string"
    and decode :: "string \<Rightarrow> octets option"
  assumes digest_size: "length (digest m) = 20"
    and decode_encode: "decode (encode bs) = Some bs"
    and encode_size: "length (encode bs) = (length bs + 2) div 3 * 4"
begin

lemma key_size: "length (encode (digest m)) = 28"
  by (simp add: encode_size digest_size)

lemma key_inj: "encode (digest m) = encode (digest m') \<Longrightarrow> digest m = digest m'"
  using decode_encode by (metis option.inject)

end

interpretation handshake: accept_codec sha1_compute base64_encode base64_decode
  by unfold_locales (use base64_shape in \<open>simp_all add: base64_roundtrip length_sha1_compute\<close>)

lemma accept_key_digest: "compute_accept_key k = base64_encode (sha1_compute (map octet_of_char (k @ kWebSocketGUID)))"
  by (simp add: compute_accept_key_def Let_def)

text \<open>Two client keys with the same accept key collide in SHA-1.\<close>

lemma accept_key_collision:
  "compute_accept_key k = compute_accept_key k' \<Longrightarrow>
     sha1_reference (map octet_of_char (k @ kWebSocketGUID)) = sha1_reference (map octet_of_char (k' @ kWebSocketGUID))"
  unfolding accept_key_digest by (drule handshake.key_inj) (simp add: sha1_compute_eq)

subsection \<open>The example of RFC 6455, section 1.3\<close>

text \<open>The key of the example and the GUID are 60 octets, so their padding takes a block of its own.\<close>

abbreviation (input) sample_octets :: octets where
  "sample_octets \<equiv> [0x64, 0x47, 0x68, 0x6c, 0x49, 0x48, 0x4e, 0x68, 0x62, 0x58, 0x42, 0x73, 0x5a, 0x53, 0x42, 0x75, 0x62, 0x32, 0x35, 0x6a, 0x5a, 0x51, 0x3d, 0x3d, 0x32, 0x35, 0x38, 0x45, 0x41, 0x46, 0x41, 0x35, 0x2d, 0x45, 0x39, 0x31, 0x34, 0x2d, 0x34, 0x37, 0x44, 0x41, 0x2d, 0x39, 0x35, 0x43, 0x41, 0x2d, 0x43, 0x35, 0x41, 0x42, 0x30, 0x44, 0x43, 0x38, 0x35, 0x42, 0x31, 0x31]"

abbreviation (input) sample_block1 :: octets where
  "sample_block1 \<equiv> [0x64, 0x47, 0x68, 0x6c, 0x49, 0x48, 0x4e, 0x68, 0x62, 0x58, 0x42, 0x73, 0x5a, 0x53, 0x42, 0x75, 0x62, 0x32, 0x35, 0x6a, 0x5a, 0x51, 0x3d, 0x3d, 0x32, 0x35, 0x38, 0x45, 0x41, 0x46, 0x41, 0x35, 0x2d, 0x45, 0x39, 0x31, 0x34, 0x2d, 0x34, 0x37, 0x44, 0x41, 0x2d, 0x39, 0x35, 0x43, 0x41, 0x2d, 0x43, 0x35, 0x41, 0x42, 0x30, 0x44, 0x43, 0x38, 0x35, 0x42, 0x31, 0x31, 0x80, 0, 0, 0]"

abbreviation (input) sample_block2 :: octets where
  "sample_block2 \<equiv> [0, 0, 0, 0, 0, 0, 0, 0, 0, 0, 0, 0, 0, 0, 0, 0, 0, 0, 0, 0, 0, 0, 0, 0, 0, 0, 0, 0, 0, 0, 0, 0, 0, 0, 0, 0, 0, 0, 0, 0, 0, 0, 0, 0, 0, 0, 0, 0, 0, 0, 0, 0, 0, 0, 0, 0, 0, 0, 0, 0, 0, 0, 0x1, 0xe0]"

lemma sample_words:
  "map (\<lambda>t. word_of_nat (be_value (take 4 (drop (4 * t) sample_block1)))) [0..<16]
     = ([0x6447686c, 0x49484e68, 0x62584273, 0x5a534275, 0x6232356a, 0x5a513d3d, 0x32353845, 0x41464135, 0x2d453931, 0x342d3437, 0x44412d39, 0x3543412d, 0x43354142, 0x30444338, 0x35423131, 0x80000000] :: u32 list)"
  "map (\<lambda>t. word_of_nat (be_value (take 4 (drop (4 * t) sample_block2)))) [0..<16]
     = ([0, 0, 0, 0, 0, 0, 0, 0, 0, 0, 0, 0, 0, 0, 0, 0x000001e0] :: u32 list)"
  by (simp_all add: upt_rec [of _ 16])

lemma sample_rounds1:
  "window_rounds [0x6447686c, 0x49484e68, 0x62584273, 0x5a534275, 0x6232356a, 0x5a513d3d, 0x32353845, 0x41464135, 0x2d453931, 0x342d3437, 0x44412d39, 0x3543412d, 0x43354142, 0x30444338, 0x35423131, 0x80000000]
      0x67452301 0xefcdab89 0x98badcfe 0x10325476 0xc3d2e1f0 80 0
    = [0xf48a5426, 0x835995e1, 0x25c11efb, 0x4a45c402, 0x9a73c2f2]"
  by (simp add: window_eval del: window_rounds.simps(2))

lemma sample_rounds2:
  "window_rounds [0, 0, 0, 0, 0, 0, 0, 0, 0, 0, 0, 0, 0, 0, 0, 0x000001e0]
      0x5bcf7727 0x7327416a 0xbe7bfbf9 0x5a781878 0x5e46a4e2 80 0
    = [0x57aad805, 0x4d3b0dac, 0xd27a4a0d, 0x74c040cd, 0x54782008]"
  by (simp add: window_eval del: window_rounds.simps(2))

lemma sample_hash1: "map2 (+) fips_H0 [0xf48a5426, 0x835995e1, 0x25c11efb, 0x4a45c402, 0x9a73c2f2]
    = [0x5bcf7727, 0x7327416a, 0xbe7bfbf9, 0x5a781878, 0x5e46a4e2]"
  by (simp add: fips_H0_def)

lemma sample_digest:
  "sha1_compute (map octet_of_char (''dGhlIHNhbXBsZSBub25jZQ=='' @ kWebSocketGUID))
     = [0xB3, 0x7A, 0x4F, 0x2C, 0xC0, 0x62, 0x4F, 0x16, 0x90, 0xF6, 0x46, 0x06, 0xCF, 0x38, 0x59, 0x45, 0xB2, 0xBE, 0xC4, 0xEA]"
proof -
  have o: "map octet_of_char (''dGhlIHNhbXBsZSBub25jZQ=='' @ kWebSocketGUID) = sample_octets"
    unfolding kWebSocketGUID_def by code_simp
  have "blocks_of (sha1_pad sample_octets) = [sample_block1, sample_block2]"
    by (simp add: pad_eval)
  moreover have "fips_block fips_H0 sample_block1 = [0x5bcf7727, 0x7327416a, 0xbe7bfbf9, 0x5a781878, 0x5e46a4e2]"
    using fips_block_eval [OF sample_words(1) sample_rounds1] by (simp only: fips_H0_def sample_hash1 [unfolded fips_H0_def])
  ultimately have "foldl fips_block fips_H0 (blocks_of (sha1_pad sample_octets))
      = map2 (+) [0x5bcf7727, 0x7327416a, 0xbe7bfbf9, 0x5a781878, 0x5e46a4e2] [0x57aad805, 0x4d3b0dac, 0xd27a4a0d, 0x74c040cd, 0x54782008]"
    by (simp only: foldl.simps fips_block_eval [OF sample_words(2) sample_rounds2])
  then show ?thesis
    unfolding o sha1_compute_eq sha1_reference_def
    by (simp add: big_endian_numeral)
qed

lemma sample_accept_key: "compute_accept_key ''dGhlIHNhbXBsZSBub25jZQ=='' = ''s3pPLMBiTxaQ9kYGzzhZRbK+xOo=''"
  unfolding accept_key_digest sample_digest by code_simp

text \<open>Claim C18. The accept key of every client key decodes, with an RFC 4648 decoder that has its own
  alphabet, to the 20-octet FIPS 180-4 digest of the key followed by the GUID of RFC 6455, and is
  always 28 characters long; the key of the example in RFC 6455 section 1.3 gets the accept key printed
  there.\<close>
theorem accept_key_is_rfc6455:
  "base64_decode (compute_accept_key k)
     = Some (sha1_reference (map octet_of_char (k @ ''258EAFA5-E914-47DA-95CA-C5AB0DC85B11'')))
   \<and> length (compute_accept_key k) = 28
   \<and> compute_accept_key ''dGhlIHNhbXBsZSBub25jZQ=='' = ''s3pPLMBiTxaQ9kYGzzhZRbK+xOo=''"
proof -
  have "base64_decode (compute_accept_key k) = Some (sha1_reference (map octet_of_char (k @ kWebSocketGUID)))"
    by (simp only: accept_key_digest sha1_compute_eq [symmetric] handshake.decode_encode)
  moreover have "length (compute_accept_key k) = 28"
    unfolding accept_key_digest by (rule handshake.key_size)
  ultimately show ?thesis by (simp only: sample_accept_key kWebSocketGUID_def simp_thms)
qed

end
