(* ===== verification/Http_Types.thy ===== *)
theory Http_Types
  imports Prelude
begin

text \<open>
  The request methods of \<^verbatim>\<open>include/aevox/request.hpp\<close>. \<open>method_index\<close> is the
  \<^verbatim>\<open>static_cast<std::uint8_t>\<close> the router indexes its handler arrays with.
\<close>

datatype HttpMethod = GET | POST | PUT | PATCH | DELETE | HEAD | OPTIONS | Unknown

fun method_index :: "HttpMethod \<Rightarrow> nat" where
  "method_index GET = 0"
| "method_index POST = 1"
| "method_index PUT = 2"
| "method_index PATCH = 3"
| "method_index DELETE = 4"
| "method_index HEAD = 5"
| "method_index OPTIONS = 6"
| "method_index Unknown = 7"

fun method_text :: "HttpMethod \<Rightarrow> string" where
  "method_text GET = ''GET''"
| "method_text POST = ''POST''"
| "method_text PUT = ''PUT''"
| "method_text PATCH = ''PATCH''"
| "method_text DELETE = ''DELETE''"
| "method_text HEAD = ''HEAD''"
| "method_text OPTIONS = ''OPTIONS''"
| "method_text Unknown = ''UNKNOWN''"

lemma method_index_inj [simp]: "method_index m = method_index m' \<longleftrightarrow> m = m'"
  by (cases m; cases m') simp_all

instantiation HttpMethod :: linorder
begin

definition less_eq_HttpMethod :: "HttpMethod \<Rightarrow> HttpMethod \<Rightarrow> bool" where
  "less_eq_HttpMethod m m' = (method_index m \<le> method_index m')"

definition less_HttpMethod :: "HttpMethod \<Rightarrow> HttpMethod \<Rightarrow> bool" where
  "less_HttpMethod m m' = (method_index m < method_index m')"

instance
  by standard (auto simp: less_eq_HttpMethod_def less_HttpMethod_def)

end

end
