(* ===== verification/Route_Pattern.thy ===== *)
theory Route_Pattern
  imports Prelude
begin

text \<open>
  Route patterns: \<^verbatim>\<open>detail::parse_pattern\<close> and the parameter extraction helpers of
  \<^verbatim>\<open>src/router/router_impl.cpp\<close>, with the \<^verbatim>\<open>Segment\<close> and \<^verbatim>\<open>ParamType\<close> types of
  \<^verbatim>\<open>src/router/handler_wrap.hpp\<close>. A call of \<^verbatim>\<open>std::terminate\<close> is the value \<open>None\<close>.
\<close>

datatype param_type = PtNone | PtInt | PtUInt | PtFloat | PtDouble | PtString

datatype segment_kind = Static | Param | Wildcard

record segment =
  seg_kind :: segment_kind
  seg_name :: string
  seg_literal :: string
  seg_type :: param_type

definition static_seg :: "string \<Rightarrow> segment" where
  "static_seg l = \<lparr>seg_kind = Static, seg_name = [], seg_literal = l, seg_type = PtNone\<rparr>"

definition param_seg :: "string \<Rightarrow> param_type \<Rightarrow> segment" where
  "param_seg n ty = \<lparr>seg_kind = Param, seg_name = n, seg_literal = [], seg_type = ty\<rparr>"

definition wildcard_seg :: "string \<Rightarrow> segment" where
  "wildcard_seg n = \<lparr>seg_kind = Wildcard, seg_name = n, seg_literal = [], seg_type = PtNone\<rparr>"

lemmas seg_defs = static_seg_def param_seg_def wildcard_seg_def

definition param_type_of :: "string \<Rightarrow> param_type option" where
  "param_type_of type_sv =
     (if type_sv = ''int'' then Some PtInt
      else if type_sv = ''uint'' then Some PtUInt
      else if type_sv = ''float'' then Some PtFloat
      else if type_sv = ''double'' then Some PtDouble
      else if type_sv = ''string'' then Some PtString
      else None)"

definition ends_with :: "string \<Rightarrow> string \<Rightarrow> bool" where
  "ends_with s suf \<longleftrightarrow> length suf \<le> length s \<and> drop (length s - length suf) s = suf"

text \<open>The content of a braced token, then one non-empty token between slashes.\<close>

definition parse_inner :: "string \<Rightarrow> segment option" where
  "parse_inner inner =
     (if ends_with inner ''...'' then
        (let name = take (length inner - 3) inner in
         if name = [] then None else Some (wildcard_seg name))
      else if CHR '':'' \<notin> set inner then
        (if inner = [] then None else Some (param_seg inner PtNone))
      else
        (let name = before (CHR '':'') inner;
             type_sv = drop 1 (from_first (CHR '':'') inner) in
         case param_type_of type_sv of
           None \<Rightarrow> None
         | Some ty \<Rightarrow> (if name = [] then None else Some (param_seg name ty))))"

definition parse_segment :: "string \<Rightarrow> segment option" where
  "parse_segment tok =
     (if 2 \<le> length tok \<and> hd tok = CHR ''{'' \<and> last tok = CHR ''}'' then
        parse_inner (take (length tok - 2) (drop 1 tok))
      else if CHR ''{'' \<in> set tok \<or> CHR ''}'' \<in> set tok then None
      else Some (static_seg tok))"

text \<open>
  The scanning loop: \<open>rest\<close> is the pattern from \<^verbatim>\<open>pos\<close> on, \<open>segs\<close> the segments pushed so far.
\<close>

function parse_loop :: "bool \<Rightarrow> segment list \<Rightarrow> string \<Rightarrow> segment list option" where
  "parse_loop had_wildcard segs rest =
     (let tok = before (CHR ''/'') rest;
          tail = from_first (CHR ''/'') rest;
          next = (if tok = [] then Some (had_wildcard, segs)
                  else if had_wildcard then None
                  else case parse_segment tok of
                         None \<Rightarrow> None
                       | Some seg \<Rightarrow> Some (seg_kind seg = Wildcard, segs @ [seg])) in
      case next of
        None \<Rightarrow> None
      | Some (hw, segs') \<Rightarrow> (if tail = [] then Some segs' else parse_loop hw segs' (drop 1 tail)))"
  by pat_completeness auto
termination
  by (relation "measure (\<lambda>(_, _, rest). length rest)")
     (auto intro!: length_drop_from_first)

declare parse_loop.simps [simp del]

definition parse_pattern :: "string \<Rightarrow> segment list option" where
  "parse_pattern pattern =
     (if pattern = [] \<or> hd pattern \<noteq> CHR ''/'' then None
      else parse_loop False [] (drop 1 pattern))"

definition extract_param_names :: "segment list \<Rightarrow> string list" where
  "extract_param_names segs = map seg_name (filter (\<lambda>s. seg_kind s \<noteq> Static) segs)"

definition extract_param_types :: "segment list \<Rightarrow> param_type list" where
  "extract_param_types segs = map seg_type (filter (\<lambda>s. seg_kind s \<noteq> Static) segs)"

subsection \<open>Well-formed segment lists and their rendering\<close>

fun type_suffix :: "param_type \<Rightarrow> string" where
  "type_suffix PtNone = []"
| "type_suffix PtInt = '':int''"
| "type_suffix PtUInt = '':uint''"
| "type_suffix PtFloat = '':float''"
| "type_suffix PtDouble = '':double''"
| "type_suffix PtString = '':string''"

definition render_segment :: "segment \<Rightarrow> string" where
  "render_segment s = (case seg_kind s of
      Static \<Rightarrow> seg_literal s
    | Param \<Rightarrow> ''{'' @ seg_name s @ type_suffix (seg_type s) @ ''}''
    | Wildcard \<Rightarrow> ''{'' @ seg_name s @ ''...}'')"

definition render_pattern :: "segment list \<Rightarrow> string" where
  "render_pattern segs = (if segs = [] then ''/'' else concat (map (\<lambda>s. CHR ''/'' # render_segment s) segs))"

definition wf_segment :: "segment \<Rightarrow> bool" where
  "wf_segment s \<longleftrightarrow> (case seg_kind s of
      Static \<Rightarrow> s = static_seg (seg_literal s) \<and> seg_literal s \<noteq> []
        \<and> set (seg_literal s) \<inter> {CHR ''/'', CHR ''{'', CHR ''}''} = {}
    | Param \<Rightarrow> s = param_seg (seg_name s) (seg_type s) \<and> seg_name s \<noteq> []
        \<and> set (seg_name s) \<inter> {CHR ''/'', CHR '':''} = {}
        \<and> (seg_type s = PtNone \<longrightarrow> \<not> ends_with (seg_name s) ''...'')
    | Wildcard \<Rightarrow> s = wildcard_seg (seg_name s) \<and> seg_name s \<noteq> [] \<and> CHR ''/'' \<notin> set (seg_name s))"

definition wf_segments :: "segment list \<Rightarrow> bool" where
  "wf_segments segs \<longleftrightarrow> list_all wf_segment segs
     \<and> list_all (\<lambda>s. seg_kind s \<noteq> Wildcard) (butlast segs)"

subsection \<open>Parsing produces well-formed segments\<close>

lemma parse_segment_braced: "parse_segment (CHR ''{'' # inner @ ''}'') = parse_inner inner"
  by (simp add: parse_segment_def)

lemma braced_token:
  assumes "2 \<le> length tok" "hd tok = CHR ''{''" "last tok = CHR ''}''"
  obtains inner where "tok = CHR ''{'' # inner @ ''}''"
proof -
  from assms have "tok = hd tok # butlast (tl tok) @ [last tok]"
    by (cases tok) (auto simp: Suc_le_eq dest: append_butlast_last_id)
  with assms that show ?thesis by metis
qed

lemma parse_inner_wf:
  assumes p: "parse_inner inner = Some s" and sl: "CHR ''/'' \<notin> set inner"
  shows "wf_segment s"
proof (cases "ends_with inner ''...''")
  case True
  have "CHR ''/'' \<notin> set (take (length inner - 3) inner)" using sl by (auto dest: in_set_takeD)
  with True p show ?thesis
    by (auto simp: parse_inner_def Let_def wf_segment_def wildcard_seg_def split: if_splits)
next
  case False
  have ty: "ty \<noteq> PtNone" if "param_type_of w = Some ty" for w ty
    using that by (auto simp: param_type_of_def split: if_splits)
  have "CHR ''/'' \<notin> set (before (CHR '':'') inner)"
    using sl by (auto simp: before_def dest: set_takeWhileD)
  with False p sl ty show ?thesis
    by (auto simp: parse_inner_def Let_def wf_segment_def param_seg_def split: if_splits option.splits)
qed

lemma parse_segment_wf:
  assumes p: "parse_segment tok = Some s" and sl: "CHR ''/'' \<notin> set tok" and ne: "tok \<noteq> []"
  shows "wf_segment s"
proof (cases "2 \<le> length tok \<and> hd tok = CHR ''{'' \<and> last tok = CHR ''}''")
  case True
  then obtain inner where t: "tok = CHR ''{'' # inner @ ''}''" using braced_token by blast
  from p have "parse_inner inner = Some s" by (simp only: t parse_segment_braced)
  then show ?thesis using sl t by (intro parse_inner_wf) simp_all
next
  case False
  with p have "s = static_seg tok" "CHR ''{'' \<notin> set tok" "CHR ''}'' \<notin> set tok"
    by (auto simp: parse_segment_def split: if_splits)
  with sl ne show ?thesis by (simp add: wf_segment_def static_seg_def)
qed

definition loop_inv :: "bool \<Rightarrow> segment list \<Rightarrow> bool" where
  "loop_inv hw segs \<longleftrightarrow> wf_segments segs \<and> (\<not> hw \<longrightarrow> list_all (\<lambda>s. seg_kind s \<noteq> Wildcard) segs)"

lemma parse_loop_wf:
  "parse_loop hw segs rest = Some r \<Longrightarrow> loop_inv hw segs \<Longrightarrow> wf_segments r"
proof (induction hw segs rest rule: parse_loop.induct)
  case (1 hw segs rest)
  let ?tok = "before (CHR ''/'') rest" and ?tail = "from_first (CHR ''/'') rest"
  from "1.prems"(1) obtain hw' segs' where
    next1: "(if ?tok = [] then Some (hw, segs) else if hw then None
       else case parse_segment ?tok of None \<Rightarrow> None
            | Some seg \<Rightarrow> Some (seg_kind seg = Wildcard, segs @ [seg])) = Some (hw', segs')"
    and res: "(if ?tail = [] then Some segs' else parse_loop hw' segs' (drop 1 ?tail)) = Some r"
    by (subst (asm) parse_loop.simps) (auto simp: Let_def split: option.splits)
  have inv: "loop_inv hw' segs'"
  proof (cases "?tok = []")
    case False
    with next1 obtain s where s: "\<not> hw" "parse_segment ?tok = Some s" "segs' = segs @ [s]"
      "hw' = (seg_kind s = Wildcard)"
      by (auto split: if_splits option.splits)
    have "wf_segment s" by (rule parse_segment_wf [OF s(2) before_no_delim False])
    with s "1.prems"(2) show ?thesis by (auto simp: loop_inv_def wf_segments_def)
  qed (use next1 "1.prems"(2) in simp)
  show ?case
  proof (cases "?tail = []")
    case True
    with res inv show ?thesis by (simp add: loop_inv_def)
  next
    case False
    with res have "parse_loop hw' segs' (drop 1 ?tail) = Some r" by simp
    with "1.IH" [OF refl refl refl next1 refl False] inv show ?thesis by simp
  qed
qed

subsection \<open>Rendering and parsing back\<close>

lemma parse_render_segment:
  assumes "wf_segment s"
  shows "parse_segment (render_segment s) = Some s"
proof (cases "seg_kind s")
  case Static
  with assms have "render_segment s = seg_literal s" "CHR ''{'' \<notin> set (seg_literal s)"
    "CHR ''}'' \<notin> set (seg_literal s)" "s = static_seg (seg_literal s)" "seg_literal s \<noteq> []"
    by (auto simp: wf_segment_def render_segment_def)
  then show ?thesis by (auto simp: parse_segment_def dest: hd_in_set)
next
  case Param
  define n where "n = seg_name s"
  with assms Param have s: "s = param_seg n (seg_type s)" and n: "n \<noteq> []" "CHR '':'' \<notin> set n"
    and e: "seg_type s = PtNone \<Longrightarrow> \<not> ends_with n ''...''"
    by (auto simp: wf_segment_def n_def)
  have r: "render_segment s = CHR ''{'' # (n @ type_suffix (seg_type s)) @ ''}''"
    using Param by (simp add: render_segment_def n_def)
  have "parse_inner (n @ type_suffix (seg_type s)) = Some (param_seg n (seg_type s))"
  proof (cases "seg_type s = PtNone")
    case True
    with e n show ?thesis by (simp add: parse_inner_def)
  next
    case False
    have "CHR '':'' \<in> set (type_suffix (seg_type s))" "\<not> ends_with (n @ type_suffix (seg_type s)) ''...''"
      "before (CHR '':'') (n @ type_suffix (seg_type s)) = n"
      "param_type_of (drop 1 (from_first (CHR '':'') (n @ type_suffix (seg_type s)))) = Some (seg_type s)"
      using False n(2)
      by (cases "seg_type s"; simp add: before_append from_first_append param_type_of_def ends_with_def)+
    then show ?thesis using n by (simp only: parse_inner_def if_False Let_def option.case) simp
  qed
  moreover have "parse_segment (render_segment s) = parse_inner (n @ type_suffix (seg_type s))"
    unfolding r by (rule parse_segment_braced)
  ultimately show ?thesis using s by simp
next
  case Wildcard
  define n where "n = seg_name s"
  with assms Wildcard have s: "s = wildcard_seg n" and n: "n \<noteq> []"
    by (auto simp: wf_segment_def n_def)
  have r: "render_segment s = CHR ''{'' # (n @ ''...'') @ ''}''"
    using Wildcard by (simp add: render_segment_def n_def)
  have "parse_inner (n @ ''...'') = Some (wildcard_seg n)"
    using n by (simp add: parse_inner_def ends_with_def)
  moreover have "parse_segment (render_segment s) = parse_inner (n @ ''...'')"
    unfolding r by (rule parse_segment_braced)
  ultimately show ?thesis using s by simp
qed

lemma render_segment_token:
  assumes "wf_segment s"
  shows "CHR ''/'' \<notin> set (render_segment s) \<and> render_segment s \<noteq> []"
  using assms
  by (cases "seg_kind s"; cases "seg_type s") (auto simp: wf_segment_def render_segment_def)

lemma parse_loop_render:
  assumes "list_all wf_segment (s # ss)" "list_all (\<lambda>s. seg_kind s \<noteq> Wildcard) (butlast (s # ss))"
  shows "parse_loop False segs (render_segment s @ concat (map (\<lambda>s. CHR ''/'' # render_segment s) ss))
    = Some (segs @ s # ss)"
  using assms
proof (induction ss arbitrary: s segs)
  case Nil
  then have "wf_segment s" by simp
  with render_segment_token [of s] parse_render_segment [of s] show ?case
    by (subst parse_loop.simps) (simp add: before_nodelim_id from_first_nodelim)
next
  case (Cons s' ss)
  then have "wf_segment s" "seg_kind s \<noteq> Wildcard" by simp_all
  with render_segment_token [of s] parse_render_segment [of s] Cons show ?case
    by (subst parse_loop.simps) (simp add: before_append from_first_append)
qed

lemma parse_render_pattern:
  assumes "wf_segments segs"
  shows "parse_pattern (render_pattern segs) = Some segs"
proof (cases segs)
  case Nil
  then show ?thesis by (simp add: render_pattern_def parse_pattern_def parse_loop.simps before_def from_first_def)
next
  case (Cons s ss)
  with assms parse_loop_render [of s ss "[]"] show ?thesis
    by (simp add: render_pattern_def parse_pattern_def wf_segments_def)
qed

lemma parse_pattern_wf: "parse_pattern p = Some segs \<Longrightarrow> wf_segments segs"
  using parse_loop_wf [of False "[]" "drop 1 p" segs]
  by (auto simp: parse_pattern_def loop_inv_def wf_segments_def split: if_splits)



end
