(* ===== verification/Router.thy ===== *)
theory Router
  imports Http_Types Route_Pattern
begin

text \<open>
  The routing trie of \<^verbatim>\<open>src/router/router_impl.cpp\<close>: \<^verbatim>\<open>TrieNode\<close>, \<^verbatim>\<open>ensure_child\<close>,
  \<^verbatim>\<open>insert\<close>, \<^verbatim>\<open>group\<close> and the path walk of \<^verbatim>\<open>dispatch\<close>. A reference to a node is the
  path of child references that leads to it from the root; children are only ever appended,
  so such a path stays valid, as the source's pointers do. Handlers are an abstract type.
\<close>

definition kMethodCount :: nat where
  "kMethodCount = 7"

datatype 'h trie_node = Node
  (node_kind: segment_kind)
  (node_segment: string)
  (node_type: param_type)
  (handlers: "'h option list")
  (method_mask: octet)
  (static_children: "'h trie_node list")
  (param_child: "'h trie_node option")
  (wildcard_child: "'h trie_node option")

definition new_node :: "segment_kind \<Rightarrow> string \<Rightarrow> param_type \<Rightarrow> 'h trie_node" where
  "new_node k seg ty = Node k seg ty (replicate kMethodCount None) 0 [] None None"

definition empty_root :: "'h trie_node" where
  "empty_root = new_node Static [] PtNone"

datatype child_ref = StaticChild nat | ParamChild | WildcardChild

text \<open>The index of the first static child with a given literal: the search loops.\<close>

fun find_child :: "'h trie_node list \<Rightarrow> string \<Rightarrow> nat option" where
  "find_child [] l = None"
| "find_child (c # cs) l = (if node_segment c = l then Some 0 else map_option Suc (find_child cs l))"

definition ensure_child :: "'h trie_node \<Rightarrow> segment \<Rightarrow> child_ref \<times> 'h trie_node" where
  "ensure_child n seg = (case n of Node k s ty hs mk sc pc wc \<Rightarrow>
     (case seg_kind seg of
        Static \<Rightarrow>
          (case find_child sc (seg_literal seg) of
             Some i \<Rightarrow> (StaticChild i, n)
           | None \<Rightarrow> (StaticChild (length sc),
               Node k s ty hs mk (sc @ [new_node Static (seg_literal seg) PtNone]) pc wc))
      | Param \<Rightarrow>
          (case pc of
             Some _ \<Rightarrow> (ParamChild, n)
           | None \<Rightarrow> (ParamChild,
               Node k s ty hs mk sc (Some (new_node Param (seg_name seg) (seg_type seg))) wc))
      | Wildcard \<Rightarrow>
          (case wc of
             Some _ \<Rightarrow> (WildcardChild, n)
           | None \<Rightarrow> (WildcardChild,
               Node k s ty hs mk sc pc (Some (new_node Wildcard (seg_name seg) PtNone))))))"

text \<open>Reading and updating through a reference.\<close>

fun child_at :: "'h trie_node \<Rightarrow> child_ref \<Rightarrow> 'h trie_node option" where
  "child_at (Node k s ty hs mk sc pc wc) (StaticChild i) = (if i < length sc then Some (sc ! i) else None)"
| "child_at (Node k s ty hs mk sc pc wc) ParamChild = pc"
| "child_at (Node k s ty hs mk sc pc wc) WildcardChild = wc"

fun set_child :: "'h trie_node \<Rightarrow> child_ref \<Rightarrow> 'h trie_node \<Rightarrow> 'h trie_node" where
  "set_child (Node k s ty hs mk sc pc wc) (StaticChild i) c = Node k s ty hs mk (sc[i := c]) pc wc"
| "set_child (Node k s ty hs mk sc pc wc) ParamChild c = Node k s ty hs mk sc (Some c) wc"
| "set_child (Node k s ty hs mk sc pc wc) WildcardChild c = Node k s ty hs mk sc pc (Some c)"

fun modify_at :: "child_ref list \<Rightarrow> ('h trie_node \<Rightarrow> 'h trie_node) \<Rightarrow> 'h trie_node \<Rightarrow> 'h trie_node" where
  "modify_at [] f n = f n"
| "modify_at (r # rs) f n =
     (case child_at n r of Some c \<Rightarrow> set_child n r (modify_at rs f c) | None \<Rightarrow> n)"

text \<open>
  \<^verbatim>\<open>insert\<close>: the loop over the segments, then the handler slot and the method bit. The
  index is that of a routable method; \<^verbatim>\<open>.at\<close> throws for \<^verbatim>\<open>Unknown\<close>, see \<open>register_route\<close>.
\<close>

definition put_handler :: "nat \<Rightarrow> 'h \<Rightarrow> 'h trie_node \<Rightarrow> 'h trie_node" where
  "put_handler idx h n = (case n of Node k s ty hs mk sc pc wc \<Rightarrow>
     Node k s ty (hs[idx := Some h]) (mk OR push_bit idx 1) sc pc wc)"

fun insert_route :: "'h trie_node \<Rightarrow> segment list \<Rightarrow> HttpMethod \<Rightarrow> 'h \<Rightarrow> 'h trie_node" where
  "insert_route n [] m h = put_handler (method_index m) h n"
| "insert_route n (seg # segs) m h =
     (let (r, n') = ensure_child n seg in
      case child_at n' r of Some c \<Rightarrow> set_child n' r (insert_route c segs m h) | None \<Rightarrow> n')"

text \<open>The walk of \<^verbatim>\<open>group\<close>: every segment is ensured and the reference followed.\<close>

fun ensure_path :: "'h trie_node \<Rightarrow> segment list \<Rightarrow> child_ref list \<times> 'h trie_node" where
  "ensure_path n [] = ([], n)"
| "ensure_path n (seg # segs) =
     (let (r, n') = ensure_child n seg in
      case child_at n' r of
        Some c \<Rightarrow> (let (rs, c') = ensure_path c segs in (r # rs, set_child n' r c'))
      | None \<Rightarrow> ([r], n'))"

subsection \<open>Routers and groups\<close>

text \<open>
  A \<^verbatim>\<open>Router\<close> handle: whether it owns the root, and its insertion point, a reference into
  the shared trie. A group sub-router does not own the root, so its \<^verbatim>\<open>dispatch\<close> finds none.
\<close>

record router =
  owns_root :: bool
  insert_root :: "child_ref list"

definition main_router :: router where
  "main_router = \<lparr>owns_root = True, insert_root = []\<rparr>"

definition register_route :: "'h trie_node \<Rightarrow> router \<Rightarrow> HttpMethod \<Rightarrow> segment list \<Rightarrow> 'h \<Rightarrow> 'h trie_node option" where
  "register_route t r m segs h =
     (if method_index m < kMethodCount
      then Some (modify_at (insert_root r) (\<lambda>n. insert_route n segs m h) t) else None)"

definition resolve :: "child_ref list \<Rightarrow> 'h trie_node \<Rightarrow> 'h trie_node option" where
  "resolve rs t = foldl (\<lambda>n r. Option.bind n (\<lambda>n. child_at n r)) (Some t) rs"

definition group :: "'h trie_node \<Rightarrow> router \<Rightarrow> string \<Rightarrow> ('h trie_node \<times> router) option" where
  "group t r prefix =
     (case parse_pattern prefix of
        None \<Rightarrow> None
      | Some segs \<Rightarrow>
          (case resolve (insert_root r) t of
             None \<Rightarrow> None
           | Some n \<Rightarrow> Some (modify_at (insert_root r) (\<lambda>n. snd (ensure_path n segs)) t,
                \<lparr>owns_root = False, insert_root = insert_root r @ fst (ensure_path n segs)\<rparr>)))"

subsection \<open>Dispatch\<close>

definition method_name :: "nat \<Rightarrow> string" where
  "method_name i = [''GET'', ''POST'', ''PUT'', ''PATCH'', ''DELETE'', ''HEAD'', ''OPTIONS''] ! i"

definition build_allow_header :: "octet \<Rightarrow> string" where
  "build_allow_header mk =
     foldl (\<lambda>result i. if mk AND push_bit i 1 \<noteq> 0
              then (if result \<noteq> [] then result @ '', '' else result) @ method_name i else result)
       [] [0..<kMethodCount]"

text \<open>
  The request path split on slashes; each segment comes with the rest of the path from its
  first character on, which is what the offset arithmetic of the wildcard capture reads.
\<close>

function split_rest :: "string \<Rightarrow> (string \<times> string) list" where
  "split_rest rest =
     (if rest = [] then []
      else let tok = before (CHR ''/'') rest; tail = from_first (CHR ''/'') rest in
        (if tok = [] then [] else [(tok, rest)]) @ (if tail = [] then [] else split_rest (drop 1 tail)))"
  by pat_completeness auto
termination
  by (relation "measure length") (auto intro!: length_drop_from_first)

declare split_rest.simps [simp del]

definition split_path :: "string \<Rightarrow> (string \<times> string) list" where
  "split_path path = split_rest (if path \<noteq> [] \<and> hd path = CHR ''/'' then drop 1 path else path)"

type_synonym captures = "(string \<times> string) list"

text \<open>
  The walk: \<open>None\<close> is the early "no match at this level", otherwise the node reached, the
  captures and \<^verbatim>\<open>wildcard_matched\<close>.
\<close>

fun walk :: "'h trie_node \<Rightarrow> captures \<Rightarrow> (string \<times> string) list \<Rightarrow> ('h trie_node \<times> captures \<times> bool) option" where
  "walk n captured [] = Some (n, captured, False)"
| "walk n captured ((seg, rest) # segs) =
     (case find_child (static_children n) seg of
        Some i \<Rightarrow> walk (static_children n ! i) captured segs
      | None \<Rightarrow>
          (case param_child n of
             Some c \<Rightarrow> walk c (captured @ [(node_segment c, seg)]) segs
           | None \<Rightarrow>
               (case wildcard_child n of
                  Some c \<Rightarrow> Some (c, captured @ [(node_segment c, rest)], True)
                | None \<Rightarrow> None)))"

text \<open>\<^verbatim>\<open>unordered_map::emplace\<close> keeps the value already there.\<close>

definition emplace_all :: "captures \<Rightarrow> (string \<rightharpoonup> string)" where
  "emplace_all captured = foldl (\<lambda>m (k, v). if m k = None then m(k \<mapsto> v) else m) Map.empty captured"

datatype 'h dispatch_result =
    Invoke 'h "string \<rightharpoonup> string"
  | MethodNotAllowed string
  | NotFound
  | UnknownMethod

definition finish_walk :: "nat \<Rightarrow> 'h trie_node \<times> captures \<times> bool \<Rightarrow> 'h dispatch_result" where
  "finish_walk method_idx w =
     (case w of (n, captured, wildcard_matched) \<Rightarrow>
        (let (node, captured) =
               (case wildcard_child n of
                  Some c \<Rightarrow> if \<not> wildcard_matched then (c, captured @ [(node_segment c, [])]) else (n, captured)
                | None \<Rightarrow> (n, captured)) in
         case handlers node ! method_idx of
           Some h \<Rightarrow> Invoke h (emplace_all captured)
         | None \<Rightarrow> (if method_mask node \<noteq> 0 then MethodNotAllowed (build_allow_header (method_mask node))
                    else NotFound)))"

definition dispatch :: "'h trie_node \<Rightarrow> router \<Rightarrow> HttpMethod \<Rightarrow> string \<Rightarrow> 'h dispatch_result" where
  "dispatch t r m path =
     (if \<not> owns_root r then NotFound
      else if \<not> method_index m < kMethodCount then UnknownMethod
      else case walk t [] (split_path path) of
        None \<Rightarrow> NotFound
      | Some w \<Rightarrow> finish_walk (method_index m) w)"

subsection \<open>The trie as a table of routes\<close>

text \<open>
  A route key forgets parameter names: it is what tells two trie nodes apart. The label of a
  node is what dispatch reads of it besides its children.
\<close>

datatype route_key = KStatic string | KParam | KWild

fun seg_key :: "segment \<Rightarrow> route_key" where
  "seg_key s = (case seg_kind s of Static \<Rightarrow> KStatic (seg_literal s) | Param \<Rightarrow> KParam | Wildcard \<Rightarrow> KWild)"

declare seg_key.simps [simp del]

definition seg_label :: "segment \<Rightarrow> string" where
  "seg_label s = (if seg_kind s = Static then seg_literal s else seg_name s)"

type_synonym 'h label = "string \<times> 'h option list \<times> octet"

definition label :: "'h trie_node \<Rightarrow> 'h label" where
  "label n = (node_segment n, handlers n, method_mask n)"

fun step :: "'h trie_node \<Rightarrow> route_key \<Rightarrow> 'h trie_node option" where
  "step n (KStatic l) = map_option (\<lambda>i. static_children n ! i) (find_child (static_children n) l)"
| "step n KParam = param_child n"
| "step n KWild = wildcard_child n"

fun node_at :: "'h trie_node \<Rightarrow> route_key list \<Rightarrow> 'h trie_node option" where
  "node_at n [] = Some n"
| "node_at n (k # ks) = (case step n k of None \<Rightarrow> None | Some c \<Rightarrow> node_at c ks)"

definition info :: "'h trie_node \<Rightarrow> route_key list \<Rightarrow> 'h label option" where
  "info n ks = map_option label (node_at n ks)"

definition fresh :: "segment \<Rightarrow> 'h trie_node" where
  "fresh seg = new_node (seg_kind seg) (seg_label seg) (if seg_kind seg = Param then seg_type seg else PtNone)"

lemma node_at_append:
  "node_at n (ks @ ks') = (case node_at n ks of None \<Rightarrow> None | Some c \<Rightarrow> node_at c ks')"
  by (induction ks arbitrary: n) (auto split: option.splits)

lemma find_child_Some:
  "find_child cs l = Some i \<Longrightarrow> i < length cs \<and> node_segment (cs ! i) = l"
  by (induction cs l arbitrary: i rule: find_child.induct) (auto split: if_splits)

lemma find_child_append:
  "find_child (cs @ ds) l = (case find_child cs l of Some i \<Rightarrow> Some i
     | None \<Rightarrow> map_option (\<lambda>i. length cs + i) (find_child ds l))"
proof (induction cs l rule: find_child.induct)
  case (1 l)
  show ?case by (cases "find_child ds l") simp_all
next
  case (2 c cs l)
  then show ?case by (cases "find_child ds l") (auto split: option.splits)
qed

lemma find_child_update:
  "i < length cs \<Longrightarrow> node_segment c = node_segment (cs ! i) \<Longrightarrow> find_child (cs[i := c]) l = find_child cs l"
  by (induction cs l arbitrary: i rule: find_child.induct) (auto split: nat.splits)

lemma find_child_other:
  assumes "find_child cs l = Some i" "l' \<noteq> l"
  shows "map_option ((!) (cs[i := c])) (find_child cs l') = map_option ((!) cs) (find_child cs l')"
proof (cases "find_child cs l'")
  case (Some j)
  with assms have "i \<noteq> j" by (metis find_child_Some)
  with Some show ?thesis by simp
qed simp

lemma node_segment_put [simp]: "node_segment (put_handler i h n) = node_segment n"
  by (cases n) (simp add: put_handler_def)

lemma step_put [simp]: "step (put_handler i h n) k = step n k"
  by (cases n; cases k) (simp_all add: put_handler_def)

lemma label_put: "label (put_handler i h n)
    = (case label n of (s, hs, mk) \<Rightarrow> (s, hs[i := Some h], mk OR push_bit i 1))"
  by (cases n) (simp add: put_handler_def label_def)

lemma label_set_child [simp]: "label (set_child n r c) = label n"
  by (cases n; cases r) (simp_all add: label_def)

lemma node_segment_set_child [simp]: "node_segment (set_child n r c) = node_segment n"
  by (cases n; cases r) simp_all

text \<open>What \<open>ensure_child\<close> and writing back through its reference do to a node.\<close>

lemma ensure_child_props:
  assumes "ensure_child n seg = (r, n')"
  shows "label n' = label n"
    and "child_at n' r = Some (case step n (seg_key seg) of Some c \<Rightarrow> c | None \<Rightarrow> fresh seg)"
    and "node_segment c = node_segment (the (child_at n' r)) \<Longrightarrow>
           step (set_child n' r c) k = (if k = seg_key seg then Some c else step n k)"
proof -
  obtain nk s ty hs mk sc pc wc where n: "n = Node nk s ty hs mk sc pc wc" by (cases n)
  note d = ensure_child_def seg_key.simps fresh_def seg_label_def new_node_def
  show "label n' = label n"
    using assms by (auto simp: n d label_def split: segment_kind.splits option.splits)
  show "child_at n' r = Some (case step n (seg_key seg) of Some c \<Rightarrow> c | None \<Rightarrow> fresh seg)"
    using assms by (auto simp: n d nth_append dest: find_child_Some split: segment_kind.splits option.splits)
  show "step (set_child n' r c) k = (if k = seg_key seg then Some c else step n k)"
    if "node_segment c = node_segment (the (child_at n' r))"
  proof (cases "k = seg_key seg")
    case True
    with assms that find_child_Some [of sc "seg_literal seg"] show ?thesis
      by (cases "find_child sc (seg_literal seg)")
         (auto simp: n d nth_append find_child_update find_child_append
          split: segment_kind.splits option.splits)
  next
    case False
    with assms that find_child_Some [of sc "seg_literal seg"] show ?thesis
      by (cases "find_child sc (seg_literal seg)"; cases k)
         (auto simp: n d nth_append find_child_update find_child_append find_child_other
          dest: find_child_Some split: segment_kind.splits option.splits)
  qed
qed

lemma node_segment_insert [simp]: "node_segment (insert_route n segs m h) = node_segment n"
proof (induction segs arbitrary: n)
  case (Cons seg segs)
  obtain r n' where e: "ensure_child n seg = (r, n')" by fastforce
  have "node_segment n' = node_segment n" using ensure_child_props(1) [OF e] by (simp add: label_def)
  then show ?case using ensure_child_props(2) [OF e] by (simp add: e)
qed simp

lemma insert_route_Cons:
  assumes "c = (case step n (seg_key seg) of Some c \<Rightarrow> c | None \<Rightarrow> fresh seg)"
  shows "label (insert_route n (seg # segs) m h) = label n"
    and "step (insert_route n (seg # segs) m h) k
      = (if k = seg_key seg then Some (insert_route c segs m h) else step n k)"
proof -
  obtain r n' where e: "ensure_child n seg = (r, n')" by fastforce
  have i: "insert_route n (seg # segs) m h = set_child n' r (insert_route c segs m h)"
    using ensure_child_props(2) [OF e] assms by (simp add: e)
  show "label (insert_route n (seg # segs) m h) = label n"
    unfolding i using ensure_child_props(1) [OF e] by simp
  show "step (insert_route n (seg # segs) m h) k
      = (if k = seg_key seg then Some (insert_route c segs m h) else step n k)"
    unfolding i using ensure_child_props(2) [OF e] assms
    by (intro ensure_child_props(3) [OF e]) simp
qed

definition fresh_label :: "segment \<Rightarrow> 'h label" where
  "fresh_label seg = (seg_label seg, replicate kMethodCount None, 0)"

fun put_label :: "nat \<Rightarrow> 'h \<Rightarrow> 'h label \<Rightarrow> 'h label" where
  "put_label i h (s, hs, mk) = (s, hs[i := Some h], mk OR push_bit i 1)"

definition ins_table :: "(route_key list \<Rightarrow> 'h label option) \<Rightarrow> segment list \<Rightarrow> HttpMethod \<Rightarrow> 'h
    \<Rightarrow> route_key list \<Rightarrow> 'h label option" where
  "ins_table T segs m h ks =
     (if take (length ks) (map seg_key segs) = ks then
        (let base = (case T ks of Some x \<Rightarrow> x | None \<Rightarrow> fresh_label (segs ! (length ks - 1))) in
         Some (if length ks = length segs then put_label (method_index m) h base else base))
      else T ks)"

lemma label_fresh: "label (fresh seg) = fresh_label seg"
  by (simp add: fresh_def new_node_def label_def fresh_label_def)

lemma node_at_fresh: "node_at (fresh seg) ks = (if ks = [] then Some (fresh seg) else None)"
  by (cases ks; cases "hd ks") (auto simp: fresh_def new_node_def)

lemma info_insert_route: "info (insert_route n segs m h) ks = ins_table (info n) segs m h ks"
proof (induction segs arbitrary: n ks)
  case Nil
  show ?case
  proof (cases ks)
    case Nil
    then show ?thesis by (cases n) (simp add: info_def ins_table_def put_handler_def label_def)
  next
    case (Cons k ks')
    then show ?thesis by (simp add: info_def ins_table_def)
  qed
next
  case (Cons seg segs)
  define c where "c = (case step n (seg_key seg) of Some c \<Rightarrow> c | None \<Rightarrow> fresh seg)"
  note s = insert_route_Cons [OF c_def, of segs m h]
  show ?case
  proof (cases ks)
    case Nil
    then show ?thesis using s(1) by (simp add: info_def ins_table_def)
  next
    case ks: (Cons k ks')
    show ?thesis
    proof (cases "k = seg_key seg")
      case False
      then show ?thesis by (simp add: ks info_def s(2) ins_table_def del: insert_route.simps)
    next
      case True
      have "info (insert_route n (seg # segs) m h) ks = info (insert_route c segs m h) ks'"
        using True by (simp add: ks info_def s(2) del: insert_route.simps)
      also have "\<dots> = ins_table (info c) segs m h ks'" by (rule Cons.IH)
      also have "\<dots> = ins_table (info n) (seg # segs) m h ks"
      proof (cases "step n (seg_key seg)")
        case None
        then have "info n ks = None" using True by (simp add: info_def ks)
        moreover have "info c ks' = (if ks' = [] then Some (fresh_label seg) else None)"
          using None by (simp add: c_def info_def node_at_fresh label_fresh)
        ultimately show ?thesis using True
          by (cases ks') (auto simp: ins_table_def ks Let_def split: option.splits)
      next
        case (Some d)
        then have "info n ks = info c ks'" using True by (simp add: info_def ks c_def)
        moreover have "ks' = [] \<Longrightarrow> info c ks' \<noteq> None" by (simp add: info_def)
        ultimately show ?thesis using True
          by (cases ks') (auto simp: ins_table_def ks Let_def split: option.splits)
      qed
      finally show ?thesis .
    qed
  qed
qed

subsection \<open>Dispatch reads the trie only as a table\<close>

fun walk_table :: "(route_key list \<Rightarrow> 'h label option) \<Rightarrow> route_key list \<Rightarrow> captures
    \<Rightarrow> (string \<times> string) list \<Rightarrow> (route_key list \<times> captures \<times> bool) option" where
  "walk_table T ks captured [] = Some (ks, captured, False)"
| "walk_table T ks captured ((seg, rest) # segs) =
     (if T (ks @ [KStatic seg]) \<noteq> None then walk_table T (ks @ [KStatic seg]) captured segs
      else case T (ks @ [KParam]) of
        Some (name, _) \<Rightarrow> walk_table T (ks @ [KParam]) (captured @ [(name, seg)]) segs
      | None \<Rightarrow>
          (case T (ks @ [KWild]) of
             Some (name, _) \<Rightarrow> Some (ks @ [KWild], captured @ [(name, rest)], True)
           | None \<Rightarrow> None))"

definition finish_table :: "(route_key list \<Rightarrow> 'h label option) \<Rightarrow> nat
    \<Rightarrow> route_key list \<times> captures \<times> bool \<Rightarrow> 'h dispatch_result" where
  "finish_table T i w =
     (case w of (ks, captured, wildcard_matched) \<Rightarrow>
        (let (ks', captured') =
               (case T (ks @ [KWild]) of
                  Some (name, _) \<Rightarrow> if \<not> wildcard_matched then (ks @ [KWild], captured @ [(name, [])]) else (ks, captured)
                | None \<Rightarrow> (ks, captured)) in
         case T ks' of
           None \<Rightarrow> NotFound
         | Some (_, hs, mk) \<Rightarrow>
             (case hs ! i of
                Some h \<Rightarrow> Invoke h (emplace_all captured')
              | None \<Rightarrow> if mk \<noteq> 0 then MethodNotAllowed (build_allow_header mk) else NotFound)))"

definition dispatch_table :: "(route_key list \<Rightarrow> 'h label option) \<Rightarrow> HttpMethod \<Rightarrow> string \<Rightarrow> 'h dispatch_result" where
  "dispatch_table T m path =
     (if \<not> method_index m < kMethodCount then UnknownMethod
      else case walk_table T [] [] (split_path path) of
        None \<Rightarrow> NotFound
      | Some w \<Rightarrow> finish_table T (method_index m) w)"

lemma info_snoc: "node_at t ks = Some n \<Longrightarrow> info t (ks @ [k]) = map_option label (step n k)"
  by (simp add: info_def node_at_append split: option.splits)

lemma node_at_snoc: "node_at t ks = Some n \<Longrightarrow> node_at t (ks @ [k]) = step n k"
  by (simp add: node_at_append split: option.splits)

lemma walk_table_info:
  assumes "node_at t ks = Some n"
  shows "case walk_table (info t) ks captured segs of
      None \<Rightarrow> walk n captured segs = None
    | Some (ks', cap, wm) \<Rightarrow> (\<exists>n'. node_at t ks' = Some n' \<and> walk n captured segs = Some (n', cap, wm))"
  using assms
proof (induction segs arbitrary: ks n captured)
  case (Cons sr segs)
  obtain seg rest where sr: "sr = (seg, rest)" by fastforce
  note i = info_snoc [OF Cons.prems] and na = node_at_snoc [OF Cons.prems]
  show ?case
  proof (cases "find_child (static_children n) seg")
    case (Some j)
    then have "node_at t (ks @ [KStatic seg]) = Some (static_children n ! j)" using na by simp
    note ih = Cons.IH [OF this, of captured]
    have "walk_table (info t) ks captured (sr # segs) = walk_table (info t) (ks @ [KStatic seg]) captured segs"
      "walk n captured (sr # segs) = walk (static_children n ! j) captured segs"
      using Some by (simp_all add: sr i)
    then show ?thesis using ih by (simp only:)
  next
    case None
    note st = this
    show ?thesis
    proof (cases "param_child n")
      case (Some c)
      then have "node_at t (ks @ [KParam]) = Some c" using na by simp
      note ih = Cons.IH [OF this, of "captured @ [(node_segment c, seg)]"]
      have "walk_table (info t) ks captured (sr # segs)
          = walk_table (info t) (ks @ [KParam]) (captured @ [(node_segment c, seg)]) segs"
        "walk n captured (sr # segs) = walk c (captured @ [(node_segment c, seg)]) segs"
        using st Some by (simp_all add: sr i label_def)
      then show ?thesis using ih by (simp only:)
    next
      case None
      with st na show ?thesis
        by (cases "wildcard_child n") (simp_all add: sr i label_def)
    qed
  qed
qed simp

lemma dispatch_table_info: "dispatch t main_router m path = dispatch_table (info t) m path"
proof -
  have f: "finish_walk j (n, cap, wm) = finish_table (info t) j (ks, cap, wm)"
    if "node_at t ks = Some n" for n cap wm ks j
    using that info_snoc [OF that, of KWild] node_at_snoc [OF that, of KWild]
    by (cases "wildcard_child n")
       (auto simp: finish_walk_def finish_table_def info_def label_def Let_def split: option.splits)
  show ?thesis
    using walk_table_info [of t "[]" t "[]" "split_path path"]
    by (auto simp: dispatch_def main_router_def dispatch_table_def f split: option.splits)
qed

subsection \<open>The table a list of registrations promises\<close>

text \<open>
  The specification: a prefix of keys is a node iff some registered pattern has it, its name is
  the one of the first such pattern, and slot \<open>i\<close> holds the handler registered last for exactly
  these keys and method.
\<close>

type_synonym 'h route = "segment list \<times> HttpMethod \<times> 'h"

fun touches :: "route_key list \<Rightarrow> 'h route \<Rightarrow> bool" where
  "touches ks (segs, _, _) \<longleftrightarrow> take (length ks) (map seg_key segs) = ks"

definition spec_name :: "'h route list \<Rightarrow> route_key list \<Rightarrow> string" where
  "spec_name rs ks = (if ks = [] then [] else case List.find (touches ks) rs of
      Some (segs, _, _) \<Rightarrow> seg_label (segs ! (length ks - 1)) | None \<Rightarrow> [])"

definition spec_handler :: "'h route list \<Rightarrow> route_key list \<Rightarrow> nat \<Rightarrow> 'h option" where
  "spec_handler rs ks i =
     map_option (\<lambda>(_, _, h). h) (List.find (\<lambda>(segs, m, _). map seg_key segs = ks \<and> method_index m = i) (rev rs))"

definition mask_of :: "'h option list \<Rightarrow> octet" where
  "mask_of hs = foldl (\<lambda>mk i. if hs ! i \<noteq> None then mk OR push_bit i 1 else mk) 0 [0..<kMethodCount]"

definition spec_table :: "'h route list \<Rightarrow> route_key list \<Rightarrow> 'h label option" where
  "spec_table rs ks =
     (if ks = [] \<or> list_ex (touches ks) rs
      then (let hs = map (spec_handler rs ks) [0..<kMethodCount] in Some (spec_name rs ks, hs, mask_of hs))
      else None)"

definition routable :: "'h route list \<Rightarrow> bool" where
  "routable rs \<longleftrightarrow> list_all (\<lambda>(_, m, _). m \<noteq> Unknown) rs"

lemma method_index_less [simp]: "method_index m < kMethodCount \<longleftrightarrow> m \<noteq> Unknown"
  by (cases m) (simp_all add: kMethodCount_def)

lemma bit_mask_foldl:
  "bit (foldl (\<lambda>mk i. if hs ! i \<noteq> None then mk OR push_bit i 1 else mk) (mk :: octet) xs) j
     \<longleftrightarrow> bit mk j \<or> j < 8 \<and> j \<in> set xs \<and> hs ! j \<noteq> None"
proof (induction xs arbitrary: mk)
  case (Cons i xs)
  have b: "bit (mk OR push_bit i 1) j \<longleftrightarrow> bit mk j \<or> j < 8 \<and> j = i"
    unfolding push_bit_of_1 bit_or_iff bit_exp_iff by auto
  show ?case
  proof (cases "hs ! i = None")
    case True
    then have "foldl (\<lambda>mk i. if hs ! i \<noteq> None then mk OR push_bit i 1 else mk) mk (i # xs)
        = foldl (\<lambda>mk i. if hs ! i \<noteq> None then mk OR push_bit i 1 else mk) mk xs" by simp
    with Cons.IH [of mk] True show ?thesis by auto
  next
    case False
    then have "foldl (\<lambda>mk i. if hs ! i \<noteq> None then mk OR push_bit i 1 else mk) mk (i # xs)
        = foldl (\<lambda>mk i. if hs ! i \<noteq> None then mk OR push_bit i 1 else mk) (mk OR push_bit i 1) xs" by simp
    with Cons.IH [of "mk OR push_bit i 1"] b False show ?thesis by (simp only: set_simps insert_iff) blast
  qed
qed simp

lemma bit_mask_of: "bit (mask_of hs) j \<longleftrightarrow> j < kMethodCount \<and> hs ! j \<noteq> None"
  unfolding mask_of_def bit_mask_foldl by (auto simp: kMethodCount_def)

lemma mask_of_update:
  assumes "length hs = kMethodCount" "i < kMethodCount"
  shows "mask_of (hs[i := Some h]) = mask_of hs OR push_bit i 1"
  using assms
  by (intro bit_eqI) (auto simp: bit_or_iff bit_exp_iff bit_mask_of nth_list_update kMethodCount_def)

lemma mask_of_none: "mask_of (replicate kMethodCount None) = 0"
  by (rule bit_eqI) (simp add: bit_mask_of)

lemma spec_handler_Nil [simp]: "spec_handler [] ks i = None"
  by (simp add: spec_handler_def)

lemma spec_handler_snoc:
  "spec_handler (rs @ [(segs, m, h)]) ks i =
     (if map seg_key segs = ks \<and> method_index m = i then Some h else spec_handler rs ks i)"
  by (simp add: spec_handler_def)

lemma find_snoc: "List.find P (xs @ [y]) = (case List.find P xs of Some x \<Rightarrow> Some x | None \<Rightarrow> if P y then Some y else None)"
  by (induction xs) simp_all

lemma list_ex_find: "list_ex P xs \<longleftrightarrow> List.find P xs \<noteq> None"
  by (auto simp: find_None_iff list_ex_iff)

lemma spec_name_snoc:
  "spec_name (rs @ [(segs, m, h)]) ks = (if ks \<noteq> [] \<and> \<not> list_ex (touches ks) rs \<and> touches ks (segs, m, h)
     then seg_label (segs ! (length ks - 1)) else spec_name rs ks)"
  by (cases "List.find (touches ks) rs") (simp_all add: spec_name_def find_snoc list_ex_find)

lemma spec_handler_untouched: "\<not> list_ex (touches ks) rs \<Longrightarrow> spec_handler rs ks i = None"
  by (auto simp: spec_handler_def find_None_iff list_ex_iff)

lemma spec_handlers_untouched:
  "\<not> list_ex (touches ks) rs \<Longrightarrow>
     map (spec_handler rs ks) [0..<kMethodCount] = replicate kMethodCount None"
  by (rule nth_equalityI) (simp_all add: spec_handler_untouched)

lemma spec_table_Nil: "spec_table [] ks = (if ks = [] then Some ([], replicate kMethodCount None, 0) else None)"
  by (simp add: spec_table_def spec_name_def spec_handlers_untouched mask_of_none Let_def)

lemma spec_table_snoc:
  assumes "m \<noteq> Unknown"
  shows "spec_table (rs @ [(segs, m, h)]) ks = ins_table (spec_table rs) segs m h ks"
proof -
  let ?hs = "map (spec_handler rs ks) [0..<kMethodCount]"
  have i: "method_index m < kMethodCount" using assms by simp
  have u: "map (spec_handler (rs @ [(segs, m, h)]) ks) [0..<kMethodCount]
      = (if map seg_key segs = ks then ?hs[method_index m := Some h] else ?hs)"
    by (rule nth_equalityI) (auto simp: spec_handler_snoc nth_list_update)
  have mu: "mask_of (?hs[method_index m := Some h]) = mask_of ?hs OR push_bit (method_index m) 1"
    by (rule mask_of_update) (simp_all add: i del: method_index_less)
  show ?thesis
  proof (cases "touches ks (segs, m, h)")
    case False
    then have "map seg_key segs \<noteq> ks" by auto
    with False show ?thesis by (simp add: spec_table_def u spec_name_snoc ins_table_def)
  next
    case True
    then have t: "take (length ks) (map seg_key segs) = ks" by simp
    then have k: "map seg_key segs = ks \<longleftrightarrow> length ks = length segs" by auto
    let ?hs' = "if map seg_key segs = ks then ?hs[method_index m := Some h] else ?hs"
    have l: "spec_table (rs @ [(segs, m, h)]) ks = Some (spec_name (rs @ [(segs, m, h)]) ks, ?hs', mask_of ?hs')"
      using True by (simp add: spec_table_def u Let_def)
    define base where "base = (case spec_table rs ks of Some x \<Rightarrow> x
      | None \<Rightarrow> fresh_label (segs ! (length ks - 1)))"
    have b: "base = (spec_name (rs @ [(segs, m, h)]) ks, ?hs, mask_of ?hs)"
    proof (cases "ks = [] \<or> list_ex (touches ks) rs")
      case in_rs: True
      then show ?thesis by (auto simp: base_def spec_table_def spec_name_snoc Let_def)
    next
      case False
      with True show ?thesis
        by (simp add: base_def spec_table_def spec_name_snoc spec_handlers_untouched fresh_label_def mask_of_none)
    qed
    have "ins_table (spec_table rs) segs m h ks
        = Some (if length ks = length segs then put_label (method_index m) h base else base)"
      by (simp add: ins_table_def t base_def)
    then show ?thesis unfolding l b k by (simp add: mu)
  qed
qed

text \<open>The contract between dispatch and whatever stores the routes.\<close>

locale route_table =
  fixes tbl :: "'t \<Rightarrow> route_key list \<Rightarrow> 'h label option"
    and ins :: "'t \<Rightarrow> segment list \<Rightarrow> HttpMethod \<Rightarrow> 'h \<Rightarrow> 't"
    and emp :: 't
  assumes tbl_emp: "tbl emp ks = (if ks = [] then Some ([], replicate kMethodCount None, 0) else None)"
    and tbl_ins: "tbl (ins t segs m h) ks = ins_table (tbl t) segs m h ks"
begin

definition add_routes :: "'h route list \<Rightarrow> 't" where
  "add_routes rs = foldl (\<lambda>t (segs, m, h). ins t segs m h) emp rs"

lemma tbl_add_routes: "routable rs \<Longrightarrow> tbl (add_routes rs) = spec_table rs"
proof (induction rs rule: rev_induct)
  case Nil
  show ?case by (rule ext) (simp add: add_routes_def tbl_emp spec_table_Nil)
next
  case (snoc r rs)
  obtain segs m h where r: "r = (segs, m, h)" by (cases r)
  from snoc have m: "m \<noteq> Unknown" and ih: "tbl (add_routes rs) = spec_table rs"
    by (auto simp: routable_def r)
  have "add_routes (rs @ [r]) = ins (add_routes rs) segs m h" by (simp add: add_routes_def r)
  then show ?case
    by (intro ext) (simp only: tbl_ins ih r spec_table_snoc [OF m])
qed

lemma dispatch_add_routes:
  "routable rs \<Longrightarrow> dispatch_table (tbl (add_routes rs)) m path = dispatch_table (spec_table rs) m path"
  by (simp only: tbl_add_routes)

end

lemma info_empty_root: "info (empty_root :: 'h trie_node) ks = (if ks = [] then Some ([], replicate kMethodCount None, 0) else None)"
proof -
  have e: "(empty_root :: 'h trie_node) = fresh (static_seg [])"
    by (simp add: empty_root_def fresh_def static_seg_def seg_label_def)
  then have "info (empty_root :: 'h trie_node) ks = (if ks = [] then Some (fresh_label (static_seg [])) else None)"
    unfolding e info_def node_at_fresh by (simp add: label_fresh)
  then show ?thesis by (simp add: fresh_label_def static_seg_def seg_label_def)
qed

interpretation trie: route_table info insert_route empty_root
  by unfold_locales (simp_all only: info_empty_root info_insert_route)

definition build_routes :: "'h route list \<Rightarrow> 'h trie_node" where
  "build_routes rs = foldl (\<lambda>t (segs, m, h). insert_route t segs m h) empty_root rs"

lemma build_routes_trie: "build_routes rs = trie.add_routes rs"
  by (simp add: build_routes_def trie.add_routes_def)

lemma dispatch_build_routes:
  "routable rs \<Longrightarrow> dispatch (build_routes rs) main_router m path = dispatch_table (spec_table rs) m path"
  by (simp only: dispatch_table_info build_routes_trie trie.dispatch_add_routes)

subsection \<open>Which route a dispatched path reaches\<close>

text \<open>When a list of keys matches the segments of a path, and what its captures are.\<close>

fun match_keys :: "route_key list \<Rightarrow> (string \<times> string) list \<Rightarrow> string list option" where
  "match_keys [] [] = Some []"
| "match_keys (KStatic l # ks) ((seg, rest) # segs) = (if seg = l then match_keys ks segs else None)"
| "match_keys (KParam # ks) ((seg, rest) # segs) = map_option (Cons seg) (match_keys ks segs)"
| "match_keys [KWild] segs = Some [case segs of [] \<Rightarrow> [] | (seg, rest) # _ \<Rightarrow> rest]"
| "match_keys _ _ = None"

definition captures_key :: "route_key \<Rightarrow> bool" where
  "captures_key k = (case k of KStatic _ \<Rightarrow> False | _ \<Rightarrow> True)"

fun names_along :: "(route_key list \<Rightarrow> 'h label option) \<Rightarrow> route_key list \<Rightarrow> route_key list \<Rightarrow> string list" where
  "names_along T pre [] = []"
| "names_along T pre (k # ks) =
     (if captures_key k then [fst (the (T (pre @ [k])))] else []) @ names_along T (pre @ [k]) ks"

lemma names_along_snoc:
  "names_along T pre (ks @ [k]) = names_along T pre ks
     @ (if captures_key k then [fst (the (T (pre @ ks @ [k])))] else [])"
  by (induction ks arbitrary: pre) simp_all

definition walk_reaches :: "(route_key list \<Rightarrow> 'h label option) \<Rightarrow> route_key list \<Rightarrow> (string \<times> string) list
    \<Rightarrow> route_key list \<Rightarrow> string list \<Rightarrow> bool \<Rightarrow> bool" where
  "walk_reaches T pre segs ks vals wm \<longleftrightarrow>
     length vals = length (names_along T pre ks) \<and> match_keys ks segs = Some vals
     \<and> (\<not> wm \<longrightarrow> match_keys (ks @ [KWild]) segs = Some (vals @ [[]]))"

lemma walk_table_sound:
  assumes "walk_table T pre cap segs = Some (ks', cap', wm)"
  shows "\<exists>ks vals. ks' = pre @ ks \<and> cap' = cap @ zip (names_along T pre ks) vals
    \<and> walk_reaches T pre segs ks vals wm"
  using assms
proof (induction segs arbitrary: pre cap)
  case Nil
  then show ?case by (auto simp: walk_reaches_def intro!: exI [of _ "[]"])
next
  case (Cons sr segs)
  obtain seg rest where sr: "sr = (seg, rest)" by fastforce
  consider "T (pre @ [KStatic seg]) \<noteq> None"
    | n x where "T (pre @ [KStatic seg]) = None" "T (pre @ [KParam]) = Some (n, x)"
    | n x where "T (pre @ [KStatic seg]) = None" "T (pre @ [KParam]) = None" "T (pre @ [KWild]) = Some (n, x)"
    using Cons.prems
    by (cases "T (pre @ [KStatic seg])"; cases "T (pre @ [KParam])"; cases "T (pre @ [KWild])") (auto simp: sr)
  then show ?case
  proof cases
    case 1
    with Cons.prems have "walk_table T (pre @ [KStatic seg]) cap segs = Some (ks', cap', wm)"
      by (simp add: sr)
    from Cons.IH [OF this] obtain ks vals where
      "ks' = pre @ KStatic seg # ks" "cap' = cap @ zip (names_along T (pre @ [KStatic seg]) ks) vals"
      "walk_reaches T (pre @ [KStatic seg]) segs ks vals wm" by auto
    then show ?thesis
      by (intro exI [of _ "KStatic seg # ks"] exI [of _ vals])
         (simp add: walk_reaches_def sr captures_key_def)
  next
    case (2 n x)
    with Cons.prems have "walk_table T (pre @ [KParam]) (cap @ [(n, seg)]) segs = Some (ks', cap', wm)"
      by (simp add: sr)
    from Cons.IH [OF this] obtain ks vals where
      "ks' = pre @ KParam # ks" "cap' = (cap @ [(n, seg)]) @ zip (names_along T (pre @ [KParam]) ks) vals"
      "walk_reaches T (pre @ [KParam]) segs ks vals wm" by auto
    with 2 show ?thesis
      by (intro exI [of _ "KParam # ks"] exI [of _ "seg # vals"])
         (simp add: walk_reaches_def sr captures_key_def)
  next
    case (3 n x)
    with Cons.prems have "ks' = pre @ [KWild]" "cap' = cap @ [(n, rest)]" "wm" by (simp_all add: sr)
    with 3 show ?thesis
      by (intro exI [of _ "[KWild]"] exI [of _ "[rest]"]) (simp add: walk_reaches_def sr captures_key_def)
  qed
qed

text \<open>The table entry a dispatch ends at, whatever it answers there.\<close>

definition ends_at :: "(route_key list \<Rightarrow> 'h label option) \<Rightarrow> string \<Rightarrow> route_key list \<Rightarrow> captures \<Rightarrow> bool" where
  "ends_at T path ks cap \<longleftrightarrow> (\<exists>vals. match_keys ks (split_path path) = Some vals
     \<and> length vals = length (names_along T [] ks) \<and> cap = zip (names_along T [] ks) vals)"

fun answer_at :: "nat \<Rightarrow> captures \<Rightarrow> 'h label option \<Rightarrow> 'h dispatch_result" where
  "answer_at i cap None = NotFound"
| "answer_at i cap (Some (_, hs, mk)) =
     (case hs ! i of
        Some h \<Rightarrow> Invoke h (emplace_all cap)
      | None \<Rightarrow> if mk \<noteq> 0 then MethodNotAllowed (build_allow_header mk) else NotFound)"

lemma dispatch_table_ends:
  assumes m: "method_index m < kMethodCount"
  shows "dispatch_table T m path = NotFound
    \<or> (\<exists>ks cap. ends_at T path ks cap \<and> dispatch_table T m path = answer_at (method_index m) cap (T ks))"
proof (cases "walk_table T [] [] (split_path path)")
  case None
  with m show ?thesis by (simp add: dispatch_table_def)
next
  case (Some w)
  obtain ks cap wm where w: "w = (ks, cap, wm)" by (cases w)
  from walk_table_sound [OF Some [unfolded w]] obtain vals where
    c: "cap = zip (names_along T [] ks) vals" and r: "walk_reaches T [] (split_path path) ks vals wm" by auto
  have d: "dispatch_table T m path = finish_table T (method_index m) (ks, cap, wm)"
    using m Some w by (simp add: dispatch_table_def)
  show ?thesis
  proof (cases "\<not> wm \<and> T (ks @ [KWild]) \<noteq> None")
    case True
    then obtain n x where n: "T (ks @ [KWild]) = Some (n, x)" by auto
    from r True have "ends_at T path (ks @ [KWild]) (cap @ [(n, [])])"
      by (auto simp: ends_at_def c n walk_reaches_def names_along_snoc captures_key_def)
    moreover have "dispatch_table T m path = answer_at (method_index m) (cap @ [(n, [])]) (T (ks @ [KWild]))"
      using True n by (cases x) (simp add: d finish_table_def Let_def)
    ultimately show ?thesis by blast
  next
    case False
    from r have "ends_at T path ks cap" by (auto simp: ends_at_def c walk_reaches_def)
    moreover have "dispatch_table T m path = answer_at (method_index m) cap (T ks)"
      using False by (auto simp: d finish_table_def Let_def split: option.splits)
    ultimately show ?thesis by blast
  qed
qed

subsection \<open>Names and handlers of the table\<close>

definition consistent_names :: "'h route list \<Rightarrow> bool" where
  "consistent_names rs \<longleftrightarrow> (\<forall>(s1, _) \<in> set rs. \<forall>(s2, _) \<in> set rs. \<forall>k < min (length s1) (length s2).
      take (Suc k) (map seg_key s1) = take (Suc k) (map seg_key s2) \<longrightarrow> seg_label (s1 ! k) = seg_label (s2 ! k))"

lemma spec_handler_Some:
  "spec_handler rs ks i = Some h \<Longrightarrow> \<exists>segs m. (segs, m, h) \<in> set rs \<and> map seg_key segs = ks \<and> method_index m = i"
  by (auto simp: spec_handler_def find_Some_iff) (metis nth_mem set_rev length_rev)

lemma spec_handler_None:
  "spec_handler rs ks i = None \<longleftrightarrow> (\<forall>(segs, m, h) \<in> set rs. \<not> (map seg_key segs = ks \<and> method_index m = i))"
  by (auto simp: spec_handler_def find_None_iff)

lemma spec_name_consistent:
  assumes c: "consistent_names rs" and r: "(segs, m, h) \<in> set rs"
    and k: "k < length segs"
  shows "spec_name rs (take (Suc k) (map seg_key segs)) = seg_label (segs ! k)"
proof -
  let ?ks = "take (Suc k) (map seg_key segs)"
  have t: "touches ?ks (segs, m, h)" using k by (simp add: min_absorb2)
  then have "List.find (touches ?ks) rs \<noteq> None" using r by (auto simp: find_None_iff)
  then obtain s2 m2 h2 where f: "List.find (touches ?ks) rs = Some (s2, m2, h2)" by auto
  then have "(s2, m2, h2) \<in> set rs \<and> touches ?ks (s2, m2, h2)"
    unfolding find_Some_iff by (metis nth_mem)
  then have r2: "(s2, m2, h2) \<in> set rs" and t2: "take (length ?ks) (map seg_key s2) = ?ks"
    by (simp_all only: touches.simps)
  have l: "length ?ks = Suc k" using k by simp
  then have "k < length s2" using t2 by (metis length_take length_map min_less_iff_conj lessI)
  then have "seg_label (s2 ! k) = seg_label (segs ! k)"
    using c r r2 t2 l k unfolding consistent_names_def by fastforce
  moreover have "?ks \<noteq> []" using k by auto
  ultimately show ?thesis using f l by (simp add: spec_name_def)
qed

lemma names_along_spec:
  assumes c: "consistent_names rs" and r: "(segs, m, h) \<in> set rs"
  shows "n \<le> length segs \<Longrightarrow> names_along (spec_table rs) [] (take n (map seg_key segs))
    = extract_param_names (take n segs)"
proof (induction n)
  case 0
  show ?case by (simp add: extract_param_names_def)
next
  case (Suc n)
  then have n: "n < length segs" by simp
  let ?ks = "take (Suc n) (map seg_key segs)"
  have k: "?ks = take n (map seg_key segs) @ [seg_key (segs ! n)]"
    using n by (simp add: take_Suc_conv_app_nth)
  have "touches ?ks (segs, m, h)" using n by (simp add: min_absorb2)
  then have "list_ex (touches ?ks) rs" using r unfolding list_ex_iff by blast
  then have "fst (the (spec_table rs ?ks)) = seg_label (segs ! n)"
    using spec_name_consistent [OF c r n] by (simp add: spec_table_def Let_def)
  moreover have "captures_key (seg_key s) \<longleftrightarrow> seg_kind s \<noteq> Static" for s
    by (simp add: captures_key_def seg_key.simps split: segment_kind.splits)
  moreover have "take (Suc n) segs = take n segs @ [segs ! n]"
    using n by (simp add: take_Suc_conv_app_nth)
  ultimately show ?case
    using Suc.IH n unfolding k
    by (simp add: names_along_snoc extract_param_names_def seg_label_def)
qed

text \<open>The \<open>Allow\<close> header lists the methods whose bit is set, in the order of the enumeration.\<close>

fun join :: "string \<Rightarrow> string list \<Rightarrow> string" where
  "join sep [] = []"
| "join sep [x] = x"
| "join sep (x # y # ys) = x @ sep @ join sep (y # ys)"

lemma join_snoc: "join sep (xs @ [x]) = (if xs = [] then x else join sep xs @ sep @ x)"
  by (induction sep xs rule: join.induct) auto

lemma join_ne: "xs \<noteq> [] \<Longrightarrow> [] \<notin> set xs \<Longrightarrow> join sep xs \<noteq> []"
  by (induction sep xs rule: join.induct) auto

lemma build_allow_header_join:
  "build_allow_header mk = join '', '' (map method_name (filter (bit mk) [0..<kMethodCount]))"
proof -
  let ?f = "\<lambda>result i. if mk AND push_bit i 1 \<noteq> 0
              then (if result \<noteq> [] then result @ '', '' else result) @ method_name i else result"
  have "foldl ?f [] [0..<k] = join '', '' (map method_name (filter (bit mk) [0..<k]))"
    if "k \<le> kMethodCount" for k
    using that
  proof (induction k)
    case (Suc k)
    let ?l = "map method_name (filter (bit mk) [0..<k])"
    have "[] \<notin> set ?l"
    proof
      assume "[] \<in> set ?l"
      then obtain i where "i < k" "method_name i = []" by auto
      then show False using Suc.prems
        by (auto simp: method_name_def kMethodCount_def nth_Cons less_Suc_eq numeral_eq_Suc split: nat.splits)
    qed
    then have "?l \<noteq> [] \<Longrightarrow> join '', '' ?l \<noteq> []" by (rule join_ne [rotated])
    moreover have "mk AND push_bit k 1 \<noteq> 0 \<longleftrightarrow> bit mk k"
      by (simp add: and_exp_eq_0_iff_not_bit)
    ultimately show ?case using Suc by (auto simp: join_snoc)
  qed simp
  then show ?thesis unfolding build_allow_header_def by simp
qed

definition allowed_methods :: "'h route list \<Rightarrow> route_key list \<Rightarrow> nat list" where
  "allowed_methods rs ks = filter (\<lambda>i. spec_handler rs ks i \<noteq> None) [0..<kMethodCount]"

lemma spec_allow: "build_allow_header (mask_of (map (spec_handler rs ks) [0..<kMethodCount]))
    = join '', '' (map method_name (allowed_methods rs ks))"
  unfolding build_allow_header_join allowed_methods_def
  by (rule arg_cong [of _ _ "\<lambda>l. join '', '' (map method_name l)"])
     (auto simp: bit_mask_of intro!: filter_cong)

lemma mask_of_0: "mask_of hs = 0 \<longleftrightarrow> (\<forall>i < kMethodCount. hs ! i = None)"
  by (metis bit_mask_of bit_0_eq bot_apply bit_eqI bot2E bit_word_eqI)

text \<open>What dispatch answers at a table entry of the specification.\<close>

definition spec_answer :: "'h route list \<Rightarrow> HttpMethod \<Rightarrow> route_key list \<Rightarrow> captures \<Rightarrow> 'h dispatch_result" where
  "spec_answer rs m ks cap = (case spec_handler rs ks (method_index m) of
      Some h \<Rightarrow> Invoke h (emplace_all cap)
    | None \<Rightarrow> (if allowed_methods rs ks = [] then NotFound
        else MethodNotAllowed (join '', '' (map method_name (allowed_methods rs ks)))))"

lemma answer_at_spec:
  assumes "m \<noteq> Unknown"
  shows "answer_at (method_index m) cap (spec_table rs ks) = spec_answer rs m ks cap"
proof -
  have a: "mask_of (map (spec_handler rs ks) [0..<kMethodCount]) \<noteq> 0 \<longleftrightarrow> allowed_methods rs ks \<noteq> []"
    by (auto simp: mask_of_0 allowed_methods_def filter_empty_conv)
  show ?thesis
  proof (cases "ks = [] \<or> list_ex (touches ks) rs")
    case True
    moreover have "method_index m < kMethodCount" using assms by simp
    ultimately show ?thesis using a
      by (simp add: spec_table_def Let_def spec_allow spec_answer_def del: method_index_less split: option.split)
  next
    case False
    then have "spec_handler rs ks j = None" for j by (simp add: spec_handler_untouched)
    with False show ?thesis by (simp add: spec_table_def allowed_methods_def spec_answer_def)
  qed
qed

text \<open>
  The soundness of dispatch against the routes: an invoked handler is the last one registered for
  the keys of a route whose pattern matches the path, and a 405 lists the methods of such a route.
\<close>

lemma dispatch_spec_cases:
  assumes m: "m \<noteq> Unknown"
  shows "dispatch_table (spec_table rs) m path = NotFound
    \<or> (\<exists>ks cap. ends_at (spec_table rs) path ks cap
        \<and> dispatch_table (spec_table rs) m path = spec_answer rs m ks cap)"
  using dispatch_table_ends [of m "spec_table rs" path] m by (simp add: answer_at_spec)

subsection \<open>Static paths\<close>

lemma split_rest_token:
  assumes "CHR ''/'' \<notin> set l" "l \<noteq> []"
  shows "split_rest l = [(l, l)]" and "split_rest (l @ CHR ''/'' # r) = (l, l @ CHR ''/'' # r) # split_rest r"
  using assms by (subst split_rest.simps; simp add: before_nodelim_id from_first_nodelim before_append from_first_append)+

lemma split_path_static:
  assumes "list_all wf_segment segs" "list_all (\<lambda>s. seg_kind s = Static) segs"
  shows "map fst (split_path (render_pattern segs)) = map seg_literal segs"
proof (cases segs)
  case Nil
  then show ?thesis by (simp add: render_pattern_def split_path_def split_rest.simps)
next
  case (Cons s ss)
  have "map fst (split_rest (render_segment s @ concat (map (\<lambda>s. CHR ''/'' # render_segment s) ss)))
      = map seg_literal (s # ss)"
    if "list_all wf_segment (s # ss)" "list_all (\<lambda>s. seg_kind s = Static) (s # ss)" for s ss
    using that
  proof (induction ss arbitrary: s)
    case Nil
    then have "render_segment s = seg_literal s" by (simp add: render_segment_def)
    with Nil render_segment_token [of s] show ?case by (simp add: split_rest_token)
  next
    case (Cons s' ss)
    then have "render_segment s = seg_literal s" by (simp add: render_segment_def)
    with Cons render_segment_token [of s] show ?case by (simp add: split_rest_token)
  qed
  with assms Cons show ?thesis by (simp add: render_pattern_def split_path_def)
qed

lemma walk_table_static:
  assumes "\<forall>k \<le> length segs. T (pre @ take k (map (\<lambda>s. KStatic (fst s)) segs)) \<noteq> None"
  shows "walk_table T pre cap segs = Some (pre @ map (\<lambda>s. KStatic (fst s)) segs, cap, False)"
  using assms
proof (induction segs arbitrary: pre)
  case (Cons sr segs)
  obtain seg rest where sr: "sr = (seg, rest)" by fastforce
  have "T (pre @ [KStatic seg]) \<noteq> None" using Cons.prems [rule_format, of 1] by (simp add: sr)
  moreover have "\<forall>k \<le> length segs. T ((pre @ [KStatic seg]) @ take k (map (\<lambda>s. KStatic (fst s)) segs)) \<noteq> None"
  proof (intro allI impI)
    fix k assume "k \<le> length segs"
    with Cons.prems [rule_format, of "Suc k"]
    show "T ((pre @ [KStatic seg]) @ take k (map (\<lambda>s. KStatic (fst s)) segs)) \<noteq> None"
      by (simp add: sr)
  qed
  ultimately show ?case using Cons.IH [of "pre @ [KStatic seg]"] by (simp add: sr)
qed simp

lemma touches_prefix: "touches ks r \<Longrightarrow> touches (take k ks) r"
proof (cases r)
  case (fields segs m h)
  moreover assume "touches ks r"
  ultimately have "take k (take (length ks) (map seg_key segs)) = take k ks" by simp
  then show ?thesis using fields by (simp add: min.commute)
qed

lemma dispatch_static_spec:
  assumes m: "m \<noteq> Unknown" and s: "list_all wf_segment segs" "list_all (\<lambda>s. seg_kind s = Static) segs"
    and t: "list_ex (touches (map seg_key segs)) rs"
  shows "dispatch_table (spec_table rs) m (render_pattern segs) =
    (if list_ex (touches (map seg_key segs @ [KWild])) rs
     then spec_answer rs m (map seg_key segs @ [KWild]) [(spec_name rs (map seg_key segs @ [KWild]), [])]
     else spec_answer rs m (map seg_key segs) [])"
proof -
  let ?ks = "map seg_key segs" and ?ps = "split_path (render_pattern segs)"
  have k: "map (\<lambda>s. KStatic (fst s)) ?ps = ?ks"
  proof -
    have "map (\<lambda>s. KStatic (fst s)) ?ps = map KStatic (map fst ?ps)" by simp
    also have "\<dots> = map KStatic (map seg_literal segs)" by (simp only: split_path_static [OF s])
    also have "\<dots> = ?ks" using s(2) by (simp add: list_all_iff seg_key.simps)
    finally show ?thesis .
  qed
  have "spec_table rs (take k ?ks) \<noteq> None" for k
  proof -
    have "list_ex (touches (take k ?ks)) rs"
      using t touches_prefix unfolding list_ex_iff by blast
    then show ?thesis by (simp add: spec_table_def Let_def)
  qed
  then have w: "walk_table (spec_table rs) [] [] ?ps = Some (?ks, [], False)"
    using walk_table_static [of ?ps "spec_table rs" "[]" "[]"] by (simp only: k append_Nil) blast
  have i: "method_index m < kMethodCount" using m by simp
  have d: "dispatch_table (spec_table rs) m (render_pattern segs)
      = finish_table (spec_table rs) (method_index m) (?ks, [], False)"
    using i by (simp add: dispatch_table_def w del: method_index_less)
  show ?thesis
  proof (cases "list_ex (touches (?ks @ [KWild])) rs")
    case True
    then obtain hs mk where n: "spec_table rs (?ks @ [KWild]) = Some (spec_name rs (?ks @ [KWild]), hs, mk)"
      by (simp add: spec_table_def Let_def)
    then have "finish_table (spec_table rs) (method_index m) (?ks, [], False)
        = answer_at (method_index m) [(spec_name rs (?ks @ [KWild]), [])] (spec_table rs (?ks @ [KWild]))"
      by (simp add: finish_table_def)
    with True d show ?thesis by (simp only: answer_at_spec [OF m] if_True)
  next
    case False
    then have n: "spec_table rs (?ks @ [KWild]) = None" by (simp add: spec_table_def)
    then have "finish_table (spec_table rs) (method_index m) (?ks, [], False)
        = answer_at (method_index m) [] (spec_table rs ?ks)"
      by (simp add: finish_table_def split: option.splits)
    with False d show ?thesis by (simp only: answer_at_spec [OF m] if_False)
  qed
qed

subsection \<open>Registration order\<close>

definition distinct_slots :: "'h route list \<Rightarrow> bool" where
  "distinct_slots rs \<longleftrightarrow> (\<forall>(s1, m1, h1) \<in> set rs. \<forall>(s2, m2, h2) \<in> set rs.
     map seg_key s1 = map seg_key s2 \<and> m1 = m2 \<longrightarrow> h1 = h2)"

lemma distinct_slotsD:
  assumes "distinct_slots rs" "(s1, m, h1) \<in> set rs" "(s2, m, h2) \<in> set rs" "map seg_key s1 = map seg_key s2"
  shows "h1 = h2"
proof -
  have "\<forall>(s2, m2, h2) \<in> set rs. map seg_key s1 = map seg_key s2 \<and> m = m2 \<longrightarrow> h1 = h2"
    using bspec [OF assms(1) [unfolded distinct_slots_def] assms(2)] by simp
  from bspec [OF this assms(3)] assms(4) show ?thesis by simp
qed

lemma spec_handler_distinct:
  assumes "distinct_slots rs"
  shows "spec_handler rs ks i = Some h \<longleftrightarrow> (\<exists>segs m. (segs, m, h) \<in> set rs \<and> map seg_key segs = ks \<and> method_index m = i)"
proof
  assume "\<exists>segs m. (segs, m, h) \<in> set rs \<and> map seg_key segs = ks \<and> method_index m = i"
  then obtain segs m where r: "(segs, m, h) \<in> set rs" "map seg_key segs = ks" "method_index m = i" by blast
  have "spec_handler rs ks i \<noteq> None"
  proof
    assume "spec_handler rs ks i = None"
    from bspec [OF iffD1 [OF spec_handler_None this] r(1)] r(2,3) show False by simp
  qed
  then obtain h' where h': "spec_handler rs ks i = Some h'" by blast
  then obtain segs' m' where r': "(segs', m', h') \<in> set rs" "map seg_key segs' = ks" "method_index m' = i"
    using spec_handler_Some [of rs ks i h'] by blast
  from r(3) r'(3) have "method_index m' = method_index m" by simp
  then have "m' = m" by simp
  with r'(1) have "(segs', m, h') \<in> set rs" by simp
  from distinct_slotsD [OF assms this r(1)] r(2) r'(2) have "h' = h" by simp
  with h' show "spec_handler rs ks i = Some h" by simp
qed (rule spec_handler_Some)

lemma spec_name_set:
  assumes c: "consistent_names rs" and t: "touches ks (segs, m, h)" and r: "(segs, m, h) \<in> set rs" and ne: "ks \<noteq> []"
  shows "spec_name rs ks = seg_label (segs ! (length ks - 1))"
proof -
  have k: "ks = take (length ks) (map seg_key segs)" using t by simp
  then have l: "length ks \<le> length segs" by (metis length_map length_take min.cobounded1)
  then have "length ks - 1 < length segs" using ne by (cases ks) auto
  from spec_name_consistent [OF c r this] show ?thesis using ne k by simp
qed

lemma spec_table_set_cong:
  assumes "set rs = set rs'" "consistent_names rs" "distinct_slots rs"
  shows "spec_table rs = spec_table rs'"
proof
  fix ks
  have c': "consistent_names rs'" and d': "distinct_slots rs'"
    using assms by (simp_all add: consistent_names_def distinct_slots_def)
  have h: "spec_handler rs ks i = spec_handler rs' ks i" for ks i
  proof -
    have "spec_handler rs ks i = Some h \<longleftrightarrow> spec_handler rs' ks i = Some h" for h
      by (simp only: spec_handler_distinct [OF assms(3)] spec_handler_distinct [OF d'] assms(1))
    then show ?thesis by (metis option.exhaust)
  qed
  have e: "list_ex (touches ks) rs = list_ex (touches ks) rs'" using assms(1) by (simp add: list_ex_iff)
  have n: "spec_name rs ks = spec_name rs' ks" if "list_ex (touches ks) rs"
  proof (cases "ks = []")
    case False
    from that obtain segs m h where r: "(segs, m, h) \<in> set rs" "touches ks (segs, m, h)"
      by (auto simp: list_ex_iff simp del: touches.simps)
    with spec_name_set [OF assms(2) r(2,1) False] spec_name_set [OF c' r(2) _ False] assms(1)
    show ?thesis by simp
  qed (simp add: spec_name_def)
  have hs: "spec_handler rs ks = spec_handler rs' ks" for ks by (rule ext) (rule h)
  have "spec_name rs [] = spec_name rs' []" by (simp add: spec_name_def)
  with n e show "spec_table rs ks = spec_table rs' ks"
    by (cases "ks = []"; cases "list_ex (touches ks) rs") (simp_all add: spec_table_def hs)
qed

subsection \<open>Groups\<close>

lemma child_set_child [simp]: "child_at n r = Some c0 \<Longrightarrow> child_at (set_child n r c) r = Some c"
  by (cases n; cases r) (auto split: if_splits)

lemma set_set_child [simp]: "set_child (set_child n r c) r d = set_child n r d"
  by (cases n; cases r) simp_all

lemma modify_ensure_path:
  "modify_at (fst (ensure_path n ps)) (\<lambda>c. insert_route c segs m h) (snd (ensure_path n ps))
     = insert_route n (ps @ segs) m h"
proof (induction ps arbitrary: n)
  case (Cons p ps)
  obtain r n' where e: "ensure_child n p = (r, n')" by fastforce
  obtain c where c: "child_at n' r = Some c" using ensure_child_props(2) [OF e] by blast
  show ?case using Cons.IH [of c] by (simp add: e c Let_def split_beta)
qed simp

lemma modify_at_append: "resolve rs t \<noteq> None \<Longrightarrow> modify_at (rs @ rs') f t = modify_at rs (modify_at rs' f) t"
proof (induction rs arbitrary: t)
  case (Cons r rs)
  have "foldl (\<lambda>n r. Option.bind n (\<lambda>n. child_at n r)) None rs = None" by (induction rs) simp_all
  with Cons show ?case by (cases "child_at t r") (simp_all add: resolve_def)
qed simp

lemma modify_modify_at: "modify_at rs f (modify_at rs g t) = modify_at rs (\<lambda>n. f (g n)) t"
  by (induction rs arbitrary: t) (auto split: option.splits)

lemma resolve_modify_at: "resolve rs t \<noteq> None \<Longrightarrow> resolve rs (modify_at rs f t) \<noteq> None"
proof (induction rs arbitrary: t)
  case (Cons r rs)
  have "foldl (\<lambda>n r. Option.bind n (\<lambda>n. child_at n r)) None rs = None" by (induction rs) simp_all
  with Cons show ?case by (cases "child_at t r") (simp_all add: resolve_def)
qed (simp add: resolve_def)

lemma group_register:
  assumes g: "group t r prefix = Some (t', g)" and p: "parse_pattern prefix = Some ps"
  shows "register_route t' g m segs h = register_route t r m (ps @ segs) h"
proof -
  from g p obtain n where n: "resolve (insert_root r) t = Some n"
    and t': "t' = modify_at (insert_root r) (\<lambda>n. snd (ensure_path n ps)) t"
    and g': "insert_root g = insert_root r @ fst (ensure_path n ps)"
    by (auto simp: group_def split: option.splits)
  have ne: "resolve (insert_root r) t' \<noteq> None" unfolding t' by (rule resolve_modify_at) (simp add: n)
  have m: "modify_at rs f t = modify_at rs f' t" if "resolve rs t = Some n" "f n = f' n" for rs f f' and t :: "'a trie_node"
    using that
  proof (induction rs arbitrary: t)
    case (Cons r rs)
    have "foldl (\<lambda>n r. Option.bind n (\<lambda>n. child_at n r)) None rs = None" by (induction rs) simp_all
    with Cons show ?case by (cases "child_at t r") (simp_all add: resolve_def)
  qed (simp add: resolve_def)
  let ?f = "\<lambda>n. insert_route n segs m h" and ?refs = "fst (ensure_path n ps)"
  have "modify_at (insert_root g) ?f t' = modify_at (insert_root r) (modify_at ?refs ?f) t'"
    unfolding g' by (rule modify_at_append [OF ne])
  also have "\<dots> = modify_at (insert_root r) (\<lambda>x. modify_at ?refs ?f (snd (ensure_path x ps))) t"
    unfolding t' by (rule modify_modify_at)
  also have "\<dots> = modify_at (insert_root r) (\<lambda>n. insert_route n (ps @ segs) m h) t"
    by (rule m [OF n]) (rule modify_ensure_path)
  finally show ?thesis by (simp add: register_route_def)
qed

subsection \<open>Properties\<close>

text \<open>
  Claim C1. The trie implements the route table: for every list of registrations, dispatch on the
  trie they build answers what the table of the registrations answers, where a prefix of keys is
  present iff a registered pattern has it, parameter names are those of the first such pattern, and
  a slot holds the handler registered last for its pattern keys and method.
\<close>

theorem dispatch_refines_routes:
  assumes "list_all (\<lambda>(_, m, _). m \<noteq> Unknown) rs"
  shows "dispatch (build_routes rs) main_router m path = dispatch_table (spec_table rs) m path"
  by (rule dispatch_build_routes) (use assms in \<open>simp add: routable_def\<close>)

definition sample_routes :: "nat route list" where
  "sample_routes =
     [([static_seg ''users'', param_seg ''id'' PtInt], GET, 1),
      ([static_seg ''users''], POST, 2),
      ([static_seg ''files'', wildcard_seg ''path''], GET, 3)]"

lemma sample_routes_routable: "list_all (\<lambda>(_, m, _). m \<noteq> Unknown) sample_routes"
  by (simp add: sample_routes_def)

theorem dispatch_refines_routes_witness:
  "(case dispatch_table (spec_table sample_routes) GET ''/users/7'' of
      Invoke h ps \<Rightarrow> h = 1 \<and> ps ''id'' = Some ''7'' | _ \<Rightarrow> False)"
proof -
  have "(case dispatch (build_routes sample_routes) main_router GET ''/users/7'' of
      Invoke h ps \<Rightarrow> h = 1 \<and> ps ''id'' = Some ''7'' | _ \<Rightarrow> False)"
    by code_simp
  then show ?thesis
    by (simp only: dispatch_refines_routes [OF sample_routes_routable])
qed

lemma dispatch_answer:
  assumes "list_all (\<lambda>(_, m, _). m \<noteq> Unknown) rs" "consistent_names rs"
  shows "case dispatch (build_routes rs) main_router m path of
      Invoke h ps \<Rightarrow> (\<exists>segs vals. (segs, m, h) \<in> set rs
          \<and> spec_handler rs (map seg_key segs) (method_index m) = Some h
          \<and> match_keys (map seg_key segs) (split_path path) = Some vals
          \<and> length vals = length (extract_param_names segs)
          \<and> ps = emplace_all (zip (extract_param_names segs) vals))
    | MethodNotAllowed allow \<Rightarrow> (\<exists>segs m' h' vals. (segs, m', h') \<in> set rs \<and> m' \<noteq> m
          \<and> match_keys (map seg_key segs) (split_path path) = Some vals
          \<and> spec_handler rs (map seg_key segs) (method_index m) = None
          \<and> allow = join '', '' (map method_name (allowed_methods rs (map seg_key segs))))
    | NotFound \<Rightarrow> True
    | UnknownMethod \<Rightarrow> m = Unknown"
proof (cases "m = Unknown")
  case True
  then show ?thesis by (simp add: dispatch_def main_router_def kMethodCount_def)
next
  case False
  let ?T = "spec_table rs" and ?d = "dispatch (build_routes rs) main_router m path"
  have d: "?d = dispatch_table ?T m path"
    by (rule dispatch_build_routes) (use assms(1) in \<open>simp add: routable_def\<close>)
  from dispatch_spec_cases [OF False, of rs path] show ?thesis
  proof (elim disjE exE conjE)
    assume "dispatch_table ?T m path = NotFound"
    then show ?thesis by (simp add: d)
  next
    fix ks cap
    assume e: "ends_at ?T path ks cap" and a: "dispatch_table ?T m path = spec_answer rs m ks cap"
    from e obtain vals where v: "match_keys ks (split_path path) = Some vals"
      "length vals = length (names_along ?T [] ks)" "cap = zip (names_along ?T [] ks) vals"
      by (auto simp: ends_at_def)
    show ?thesis
    proof (cases "spec_handler rs ks (method_index m)")
      case (Some h)
      then obtain segs m' where r: "(segs, m', h) \<in> set rs" "map seg_key segs = ks" "method_index m' = method_index m"
        using spec_handler_Some [of rs ks "method_index m" h] by blast
      have "names_along ?T [] ks = extract_param_names segs"
        using names_along_spec [OF assms(2) r(1), of "length segs"] r(2) by auto
      then show ?thesis using Some a v r d
        by (auto simp: spec_answer_def intro!: exI [of _ segs])
    next
      case None
      show ?thesis
      proof (cases "allowed_methods rs ks")
        case Nil
        then show ?thesis using None a by (simp add: spec_answer_def d)
      next
        case (Cons i js)
        then have "i \<in> set (allowed_methods rs ks)" by simp
        then obtain h' where "spec_handler rs ks i = Some h'" by (auto simp: allowed_methods_def)
        then obtain segs m' where r: "(segs, m', h') \<in> set rs" "map seg_key segs = ks" "method_index m' = i"
          using spec_handler_Some [of rs ks i h'] by blast
        have "m' \<noteq> m" using \<open>spec_handler rs ks i = Some h'\<close> None r(3) by auto
        then show ?thesis using None a v r Cons
          by (auto simp: spec_answer_def d intro!: exI [of _ segs] exI [of _ m'] exI [of _ h'])
      qed
    qed
  qed
qed

text \<open>
  Claim C2. Dispatch is sound: an invoked handler is the last one registered for the requested method
  under the keys of a route whose pattern matches the path, and, when patterns that share a prefix
  agree on parameter names, the request sees exactly that route's parameter names bound to the
  captured parts of the path. A 405 answer lists, in enumeration order, the methods registered for a
  route that matches the path, of which the requested one is not one.
\<close>

theorem dispatch_sound:
  assumes "list_all (\<lambda>(_, m, _). m \<noteq> Unknown) rs" "consistent_names rs"
  shows "case dispatch (build_routes rs) main_router m path of
      Invoke h ps \<Rightarrow> (\<exists>segs vals. (segs, m, h) \<in> set rs
          \<and> spec_handler rs (map seg_key segs) (method_index m) = Some h
          \<and> match_keys (map seg_key segs) (split_path path) = Some vals
          \<and> length vals = length (extract_param_names segs)
          \<and> ps = emplace_all (zip (extract_param_names segs) vals))
    | MethodNotAllowed allow \<Rightarrow> (\<exists>segs m' h' vals. (segs, m', h') \<in> set rs \<and> m' \<noteq> m
          \<and> match_keys (map seg_key segs) (split_path path) = Some vals
          \<and> spec_handler rs (map seg_key segs) (method_index m) = None
          \<and> allow = join '', '' (map method_name (allowed_methods rs (map seg_key segs))))
    | NotFound \<Rightarrow> True
    | UnknownMethod \<Rightarrow> m = Unknown"
  by (rule dispatch_answer [OF assms])

theorem dispatch_sound_witness:
  "\<exists>segs vals. (segs, GET, 1) \<in> set sample_routes
     \<and> match_keys (map seg_key segs) (split_path ''/users/7'') = Some vals"
proof -
  have "consistent_names sample_routes"
    by (simp add: consistent_names_def sample_routes_def seg_defs seg_key.simps less_Suc_eq all_conj_distrib
        del: take_map)
  note s = dispatch_sound [OF sample_routes_routable this, of GET "''/users/7''"]
  have "(case dispatch (build_routes sample_routes) main_router GET ''/users/7'' of
      Invoke h ps \<Rightarrow> h = 1 | _ \<Rightarrow> False)"
    by code_simp
  with s show ?thesis by (auto split: dispatch_result.splits)
qed

text \<open>
  Static paths: requesting the printed form of an all-literal pattern that some route extends
  reaches exactly that pattern's slot, unless a wildcard route hangs below it, in which case
  the wildcard's slot answers, with the wildcard bound to the empty string. (So an exact route is
  never reached once a wildcard is registered beneath it.)
\<close>

lemma dispatch_static_path:
  assumes "list_all (\<lambda>(_, m, _). m \<noteq> Unknown) rs" "m \<noteq> Unknown"
    and "list_all wf_segment segs" "list_all (\<lambda>s. seg_kind s = Static) segs"
    and "list_ex (touches (map seg_key segs)) rs"
  shows "dispatch (build_routes rs) main_router m (render_pattern segs) =
    (if list_ex (touches (map seg_key segs @ [KWild])) rs
     then spec_answer rs m (map seg_key segs @ [KWild]) [(spec_name rs (map seg_key segs @ [KWild]), [])]
     else spec_answer rs m (map seg_key segs) [])"
proof -
  have "routable rs" using assms(1) by (simp add: routable_def)
  from dispatch_build_routes [OF this] show ?thesis
    by (simp only: dispatch_static_spec [OF assms(2-5)])
qed

text \<open>The consequence for a concrete program: the exact route is dead.\<close>

theorem exact_route_shadowed:
  "case dispatch (build_routes
        [([static_seg ''files''], GET, 1 :: nat), ([static_seg ''files'', wildcard_seg ''path''], GET, 2)])
      main_router GET ''/files'' of Invoke h ps \<Rightarrow> h = 2 | _ \<Rightarrow> False"
  by code_simp

text \<open>No backtracking: a static branch once taken is never left, although a pattern matches.\<close>

theorem no_backtracking:
  "(case dispatch (build_routes
        [([static_seg ''users'', static_seg ''me''], GET, 1 :: nat),
         ([static_seg ''users'', param_seg ''id'' PtNone, static_seg ''posts''], GET, 2)])
      main_router GET ''/users/me/posts'' of NotFound \<Rightarrow> True | _ \<Rightarrow> False)
   \<and> match_keys [KStatic ''users'', KParam, KStatic ''posts''] (split_path ''/users/me/posts'') = Some [''me'']"
  by code_simp

text \<open>
  Claim C20. Registration order does not matter: if no two routes compete for the same pattern keys and
  method, and patterns that share a prefix name its parameter the same, any two registration orders
  of the same routes dispatch every request alike.
\<close>

theorem dispatch_order_irrelevant:
  assumes "list_all (\<lambda>(_, m, _). m \<noteq> Unknown) rs" "set rs' = set rs"
    and "consistent_names rs" "distinct_slots rs"
  shows "dispatch (build_routes rs') main_router m path = dispatch (build_routes rs) main_router m path"
proof -
  have "routable rs" "routable rs'" using assms(1,2) by (auto simp: routable_def list_all_iff)
  then show ?thesis
    by (simp only: dispatch_build_routes spec_table_set_cong [OF assms(2) [symmetric] assms(3,4)])
qed

theorem dispatch_order_irrelevant_witness:
  "dispatch (build_routes (rev sample_routes)) main_router PUT ''/users'' = MethodNotAllowed ''POST''"
proof -
  have "consistent_names sample_routes"
    by (simp add: consistent_names_def sample_routes_def seg_defs seg_key.simps less_Suc_eq all_conj_distrib
        del: take_map)
  moreover have "distinct_slots sample_routes"
    by (simp add: distinct_slots_def sample_routes_def seg_defs seg_key.simps)
  moreover have "dispatch (build_routes sample_routes) main_router PUT ''/users'' = MethodNotAllowed ''POST''"
  proof -
    have "(case dispatch (build_routes sample_routes) main_router PUT ''/users'' of
        MethodNotAllowed a \<Rightarrow> a = ''POST'' | _ \<Rightarrow> False)" by code_simp
    then show ?thesis by (simp split: dispatch_result.splits)
  qed
  ultimately show ?thesis
    using dispatch_order_irrelevant [OF sample_routes_routable set_rev] by simp
qed

text \<open>
  With different names for one position the order shows: the handler for \<^verbatim>\<open>/a/{y}/c\<close> finds its
  parameter under the name \<open>x\<close> of the route registered first.
\<close>

theorem parameter_name_depends_on_order:
  "(case dispatch (build_routes
        [([static_seg ''a'', param_seg ''x'' PtNone], GET, 1 :: nat),
         ([static_seg ''a'', param_seg ''y'' PtNone, static_seg ''c''], GET, 2)])
      main_router GET ''/a/7/c'' of Invoke h ps \<Rightarrow> h = 2 \<and> ps ''y'' = None \<and> ps ''x'' = Some ''7'' | _ \<Rightarrow> False)
   \<and> (case dispatch (build_routes
        [([static_seg ''a'', param_seg ''y'' PtNone, static_seg ''c''], GET, 2 :: nat),
         ([static_seg ''a'', param_seg ''x'' PtNone], GET, 1)])
      main_router GET ''/a/7/c'' of Invoke h ps \<Rightarrow> h = 2 \<and> ps ''y'' = Some ''7'' | _ \<Rightarrow> False)"
  by code_simp

text \<open>
  Groups are prefixes: registering a pattern on the sub-router of a group, at any nesting
  depth, changes the shared trie exactly as registering the prefixed pattern on the parent router
  would; the sub-router itself dispatches nothing.
\<close>

lemma group_is_prefix:
  assumes "group t r prefix = Some (t', g)" "parse_pattern prefix = Some ps"
  shows "register_route t' g m segs h = register_route t r m (ps @ segs) h
    \<and> dispatch t' g m' path = NotFound"
proof
  show "register_route t' g m segs h = register_route t r m (ps @ segs) h"
    using assms by (rule group_register)
  have "\<not> owns_root g" using assms by (auto simp: group_def split: option.splits)
  then show "dispatch t' g m' path = NotFound" by (simp add: dispatch_def)
qed

end
