(* ===== verification/Http_Parser.thy ===== *)
theory Http_Parser
  imports Prelude
begin

text \<open>
  The incremental HTTP/1.1 request parser of \<^verbatim>\<open>src/http/http_parser.cpp\<close>: the accumulation
  state of \<^verbatim>\<open>HttpParser::Impl\<close>, the seven callbacks, \<^verbatim>\<open>feed\<close> and \<^verbatim>\<open>reset\<close>. The grammar
  itself is the third-party library llhttp, which is a parameter: executing it on a buffer is an
  interaction tree that calls back with events and continues according to the code the callback
  returned. The views of \<^verbatim>\<open>ParsedRequest\<close> into parser-owned storage are modelled by the strings
  they show at the time they are taken; returning the request moves the header vector out.
\<close>

datatype ParseError = Incomplete | BadRequest | TooLarge | TooManyHeaders | Unsupported

record ParsedRequest =
  pr_method :: string
  pr_target :: string
  pr_version_major :: int
  pr_version_minor :: int
  pr_headers :: "(string \<times> string) list"
  pr_body :: octets
  pr_upgrade :: bool
  pr_keep_alive :: bool

definition default_request :: ParsedRequest where
  "default_request = \<lparr>pr_method = [], pr_target = [], pr_version_major = 1, pr_version_minor = 1,
     pr_headers = [], pr_body = [], pr_upgrade = False, pr_keep_alive = True\<rparr>"

record ParserConfig =
  max_header_count :: nat
  max_body_bytes :: nat

definition kParserDefaultMaxHeaderCount :: nat where
  "kParserDefaultMaxHeaderCount = 100"

definition kParserDefaultMaxBodyBytes :: nat where
  "kParserDefaultMaxBodyBytes = 1 * 1024 * 1024"

definition default_parser_config :: ParserConfig where
  "default_parser_config = \<lparr>max_header_count = kParserDefaultMaxHeaderCount,
     max_body_bytes = kParserDefaultMaxBodyBytes\<rparr>"

record parser_impl =
  ip_config :: ParserConfig
  method_buf :: string
  target_buf :: string
  field_buf :: string
  value_buf :: string
  in_value :: bool
  pending :: ParsedRequest
  chunk_buf :: octets
  header_storage :: "(string \<times> string) list"
  header_count :: nat
  body_byte_count :: nat
  complete :: bool
  last_error :: ParseError
  has_error :: bool

subsection \<open>The llhttp interface\<close>

text \<open>
  The return codes the code compares with; any other error of the library is \<open>HPE_OTHER\<close>. The
  getters read in \<^verbatim>\<open>on_headers_complete\<close> are part of its event.
\<close>

datatype ll_errno = HPE_OK | HPE_USER | HPE_PAUSED | HPE_OTHER nat

datatype ll_event =
    OnMethod string
  | OnUrl string
  | OnHeaderField string
  | OnHeaderValue string
  | OnHeadersComplete int int bool bool
  | OnBody string
  | OnMessageComplete

datatype 'p ll_trace = Done ll_errno 'p | Call ll_event "ll_errno \<Rightarrow> 'p ll_trace"

record 'p llhttp =
  ll_init :: 'p
  ll_execute :: "'p \<Rightarrow> string \<Rightarrow> 'p ll_trace"
  ll_resume :: "'p \<Rightarrow> 'p"
  ll_reset :: "'p \<Rightarrow> 'p"

subsection \<open>Callbacks\<close>

definition commit_header :: "parser_impl \<Rightarrow> bool \<times> parser_impl" where
  "commit_header s =
     (if field_buf s = [] then (True, s)
      else
        let s1 = s\<lparr>header_storage := header_storage s @ [(field_buf s, value_buf s)],
                   field_buf := [], value_buf := [], header_count := header_count s + 1\<rparr> in
        if header_count s1 > max_header_count (ip_config s1)
        then (False, s1\<lparr>has_error := True, last_error := TooManyHeaders\<rparr>)
        else (True, s1))"

definition refresh_header_views :: "parser_impl \<Rightarrow> parser_impl" where
  "refresh_header_views s = s\<lparr>pending := (pending s)\<lparr>pr_headers := header_storage s\<rparr>\<rparr>"

definition on_url :: "string \<Rightarrow> parser_impl \<Rightarrow> ll_errno \<times> parser_impl" where
  "on_url at s =
     (let s = s\<lparr>target_buf := target_buf s @ at\<rparr> in
      (HPE_OK, s\<lparr>pending := (pending s)\<lparr>pr_target := target_buf s\<rparr>\<rparr>))"

definition on_method :: "string \<Rightarrow> parser_impl \<Rightarrow> ll_errno \<times> parser_impl" where
  "on_method at s =
     (let s = s\<lparr>method_buf := method_buf s @ at\<rparr> in
      (HPE_OK, s\<lparr>pending := (pending s)\<lparr>pr_method := method_buf s\<rparr>\<rparr>))"

definition on_header_field :: "string \<Rightarrow> parser_impl \<Rightarrow> ll_errno \<times> parser_impl" where
  "on_header_field at s =
     (let (ok, s) = (if in_value s
                     then (let (ok, s) = commit_header s in (ok, if ok then s\<lparr>in_value := False\<rparr> else s))
                     else (True, s)) in
      if ok then (HPE_OK, s\<lparr>field_buf := field_buf s @ at\<rparr>) else (HPE_USER, s))"

definition on_header_value :: "string \<Rightarrow> parser_impl \<Rightarrow> ll_errno \<times> parser_impl" where
  "on_header_value at s = (HPE_OK, s\<lparr>value_buf := value_buf s @ at, in_value := True\<rparr>)"

definition on_headers_complete :: "int \<Rightarrow> int \<Rightarrow> bool \<Rightarrow> bool \<Rightarrow> parser_impl \<Rightarrow> ll_errno \<times> parser_impl" where
  "on_headers_complete major minor should_keep_alive upg s =
     (let (ok, s) = (if field_buf s \<noteq> [] then commit_header s else (True, s)) in
      if \<not> ok then (HPE_USER, s)
      else
        let s = refresh_header_views s in
        (HPE_OK, s\<lparr>pending := (pending s)\<lparr>pr_version_major := major, pr_version_minor := minor,
           pr_keep_alive := should_keep_alive, pr_upgrade := upg\<rparr>\<rparr>))"

definition on_body :: "string \<Rightarrow> parser_impl \<Rightarrow> ll_errno \<times> parser_impl" where
  "on_body at s =
     (let s = s\<lparr>body_byte_count := body_byte_count s + length at\<rparr> in
      if body_byte_count s > max_body_bytes (ip_config s)
      then (HPE_USER, s\<lparr>has_error := True, last_error := TooLarge\<rparr>)
      else (HPE_OK, s\<lparr>chunk_buf := chunk_buf s @ map octet_of_char at\<rparr>))"

definition on_message_complete :: "parser_impl \<Rightarrow> ll_errno \<times> parser_impl" where
  "on_message_complete s = (HPE_PAUSED, s\<lparr>complete := True\<rparr>)"

fun callback :: "ll_event \<Rightarrow> parser_impl \<Rightarrow> ll_errno \<times> parser_impl" where
  "callback (OnMethod at) s = on_method at s"
| "callback (OnUrl at) s = on_url at s"
| "callback (OnHeaderField at) s = on_header_field at s"
| "callback (OnHeaderValue at) s = on_header_value at s"
| "callback (OnHeadersComplete major minor ka upg) s = on_headers_complete major minor ka upg s"
| "callback (OnBody at) s = on_body at s"
| "callback OnMessageComplete s = on_message_complete s"

primrec run_trace :: "'p ll_trace \<Rightarrow> parser_impl \<Rightarrow> ll_errno \<times> 'p \<times> parser_impl" where
  "run_trace (Done rc p) = (\<lambda>s. (rc, p, s))"
| "run_trace (Call e k) = (\<lambda>s. let (rc, s') = callback e s in run_trace (k rc) s')"

subsection \<open>The parser\<close>

record 'p http_parser =
  hp_ll :: 'p
  hp_impl :: parser_impl

definition new_impl :: "ParserConfig \<Rightarrow> parser_impl" where
  "new_impl config = \<lparr>ip_config = config, method_buf = [], target_buf = [], field_buf = [],
     value_buf = [], in_value = False, pending = default_request, chunk_buf = [],
     header_storage = [], header_count = 0, body_byte_count = 0, complete = False,
     last_error = BadRequest, has_error = False\<rparr>"

definition new_parser :: "'p llhttp \<Rightarrow> ParserConfig \<Rightarrow> 'p http_parser" where
  "new_parser L config = \<lparr>hp_ll = ll_init L, hp_impl = new_impl config\<rparr>"

definition feed :: "'p llhttp \<Rightarrow> octets \<Rightarrow> 'p http_parser \<Rightarrow> (ParseError + ParsedRequest) \<times> 'p http_parser" where
  "feed L data hp =
     (let feed_text = map char_of_octet data;
          (rc, p, s) = run_trace (ll_execute L (hp_ll hp) feed_text) (hp_impl hp) in
      if has_error s then (Inl (last_error s), \<lparr>hp_ll = p, hp_impl = s\<rparr>)
      else if rc = HPE_PAUSED \<and> complete s then
        (let s = s\<lparr>pending := (pending s)\<lparr>pr_body := chunk_buf s\<rparr>\<rparr> in
         (Inr (pending s), \<lparr>hp_ll = ll_resume L p,
            hp_impl = s\<lparr>pending := (pending s)\<lparr>pr_headers := []\<rparr>\<rparr>\<rparr>))
      else if rc = HPE_OK then (Inl Incomplete, \<lparr>hp_ll = p, hp_impl = s\<rparr>)
      else (Inl BadRequest, \<lparr>hp_ll = p, hp_impl = s\<rparr>))"

definition reset_impl :: "parser_impl \<Rightarrow> parser_impl" where
  "reset_impl s = s\<lparr>pending := default_request, chunk_buf := [], method_buf := [], target_buf := [],
     field_buf := [], value_buf := [], header_storage := [], in_value := False, header_count := 0,
     body_byte_count := 0, complete := False, has_error := False\<rparr>"

definition reset :: "'p llhttp \<Rightarrow> 'p http_parser \<Rightarrow> 'p http_parser" where
  "reset L hp = \<lparr>hp_ll = ll_reset L (hp_ll hp), hp_impl = reset_impl (hp_impl hp)\<rparr>"

lemmas callback_defs = on_method_def on_url_def on_header_field_def on_header_value_def
  on_headers_complete_def on_body_def on_message_complete_def commit_header_def refresh_header_views_def

subsection \<open>Limits\<close>

definition parser_inv :: "parser_impl \<Rightarrow> bool" where
  "parser_inv s \<longleftrightarrow> length (chunk_buf s) \<le> body_byte_count s
     \<and> length (chunk_buf s) \<le> max_body_bytes (ip_config s)
     \<and> length (header_storage s) = header_count s
     \<and> (\<not> has_error s \<longrightarrow> header_count s \<le> max_header_count (ip_config s)
          \<and> length (pr_headers (pending s)) \<le> max_header_count (ip_config s)
          \<and> body_byte_count s \<le> max_body_bytes (ip_config s))
     \<and> (has_error s \<longrightarrow> last_error s \<in> {TooManyHeaders, TooLarge})"

definition keeps_inv :: "parser_impl \<Rightarrow> parser_impl \<Rightarrow> bool" where
  "keeps_inv s s' \<longleftrightarrow> parser_inv s' \<and> (has_error s \<longrightarrow> has_error s') \<and> ip_config s' = ip_config s"

lemma commit_header_inv: "parser_inv s \<Longrightarrow> keeps_inv s (snd (commit_header s))"
  by (simp add: commit_header_def keeps_inv_def parser_inv_def Let_def)

lemma callback_inv:
  assumes "parser_inv s"
  shows "keeps_inv s (snd (callback e s))"
proof (cases e)
  case (OnHeaderField at)
  obtain ok s1 where c: "commit_header s = (ok, s1)" by fastforce
  with commit_header_inv [OF assms] have "keeps_inv s s1" by simp
  with assms c OnHeaderField show ?thesis
    by (cases "in_value s"; cases ok) (simp_all add: on_header_field_def keeps_inv_def parser_inv_def)
next
  case (OnHeadersComplete major minor ka upg)
  obtain ok s1 where c: "commit_header s = (ok, s1)" by fastforce
  with commit_header_inv [OF assms] have "keeps_inv s s1" by simp
  with assms c OnHeadersComplete show ?thesis
    by (cases "field_buf s = []"; cases ok)
       (simp_all add: on_headers_complete_def refresh_header_views_def keeps_inv_def parser_inv_def Let_def)
qed (use assms in \<open>simp_all add: callback_defs keeps_inv_def parser_inv_def Let_def\<close>)

lemma run_trace_inv:
  "run_trace t s = (rc, p, s') \<Longrightarrow> parser_inv s \<Longrightarrow>
     parser_inv s' \<and> (has_error s \<longrightarrow> has_error s') \<and> ip_config s' = ip_config s"
proof (induction t arbitrary: s)
  case (Call e k)
  obtain rc1 s1 where c: "callback e s = (rc1, s1)" by fastforce
  with Call.prems have "run_trace (k rc1) s1 = (rc, p, s')" by simp
  with Call.IH [of "k rc1" s1] callback_inv [OF Call.prems(2), of e] c show ?case
    by (auto simp: keeps_inv_def)
qed simp

lemma feed_inv:
  assumes "feed L data hp = (r, hp')" "parser_inv (hp_impl hp)"
  shows "parser_inv (hp_impl hp') \<and> ip_config (hp_impl hp') = ip_config (hp_impl hp)
    \<and> (has_error (hp_impl hp) \<longrightarrow> has_error (hp_impl hp'))
    \<and> (has_error (hp_impl hp') \<longrightarrow> r = Inl (last_error (hp_impl hp')))
    \<and> (\<forall>req. r = Inr req \<longrightarrow> length (pr_headers req) \<le> max_header_count (ip_config (hp_impl hp))
         \<and> length (pr_body req) \<le> max_body_bytes (ip_config (hp_impl hp)))"
proof -
  obtain rc p s where t: "run_trace (ll_execute L (hp_ll hp) (map char_of_octet data)) (hp_impl hp) = (rc, p, s)"
    by (metis prod_cases3)
  from run_trace_inv [OF t assms(2)] assms(1) t show ?thesis
    by (auto simp: feed_def Let_def parser_inv_def split: if_splits)
qed

lemma new_impl_inv: "parser_inv (new_impl config)"
  by (simp add: parser_inv_def new_impl_def default_request_def)

lemma reset_inv: "parser_inv s \<Longrightarrow> parser_inv (reset_impl s)"
  by (simp add: parser_inv_def reset_impl_def default_request_def)

text \<open>A parser as its owner can bring it about: constructed, fed and reset in any order.\<close>

inductive parser_reachable :: "'p llhttp \<Rightarrow> ParserConfig \<Rightarrow> 'p http_parser \<Rightarrow> bool"
  for L :: "'p llhttp" and config :: ParserConfig where
  reach_new: "parser_reachable L config (new_parser L config)"
| reach_feed: "parser_reachable L config hp \<Longrightarrow> parser_reachable L config (snd (feed L data hp))"
| reach_reset: "parser_reachable L config hp \<Longrightarrow> parser_reachable L config (reset L hp)"

lemma reachable_inv:
  "parser_reachable L config hp \<Longrightarrow> parser_inv (hp_impl hp) \<and> ip_config (hp_impl hp) = config"
proof (induction rule: parser_reachable.induct)
  case (reach_feed hp data)
  then show ?case using feed_inv [of L data hp "fst (feed L data hp)" "snd (feed L data hp)"] by simp
next
  case (reach_reset hp)
  then show ?case by (simp add: reset_def reset_inv) (simp add: reset_impl_def)
qed (simp_all add: new_parser_def new_impl_inv, simp add: new_impl_def)

subsection \<open>Reset\<close>

text \<open>Two states no later feed can tell apart: the last error matters only while there is one.\<close>

definition same_parser :: "parser_impl \<Rightarrow> parser_impl \<Rightarrow> bool" where
  "same_parser s t \<longleftrightarrow> (if has_error s then s = t else s = t\<lparr>last_error := last_error s\<rparr>)"

lemma same_parserD:
  "same_parser s t \<Longrightarrow> has_error t = has_error s \<and> complete t = complete s \<and> pending t = pending s
     \<and> chunk_buf t = chunk_buf s"
  by (cases s; cases t) (auto simp: same_parser_def split: if_splits)

lemma callback_same:
  "same_parser s t \<Longrightarrow> fst (callback e s) = fst (callback e t) \<and> same_parser (snd (callback e s)) (snd (callback e t))"
  by (cases e; cases s; cases t)
     (auto simp: same_parser_def callback_defs Let_def split: if_splits)

lemma run_trace_same:
  "same_parser s t \<Longrightarrow> fst (run_trace T s) = fst (run_trace T t)
     \<and> fst (snd (run_trace T s)) = fst (snd (run_trace T t))
     \<and> same_parser (snd (snd (run_trace T s))) (snd (snd (run_trace T t)))"
proof (induction T arbitrary: s t)
  case (Call e k)
  have "same_parser (snd (callback e s)) (snd (callback e t))" "fst (callback e s) = fst (callback e t)"
    using callback_same [OF Call.prems] by simp_all
  with Call.IH [of "k (fst (callback e s))"] show ?case by (simp add: split_beta)
qed simp

fun feed_all :: "'p llhttp \<Rightarrow> octets list \<Rightarrow> 'p http_parser \<Rightarrow> (ParseError + ParsedRequest) list" where
  "feed_all L [] hp = []"
| "feed_all L (d # ds) hp = (let (r, hp') = feed L d hp in r # feed_all L ds hp')"

lemma feed_same:
  assumes "hp_ll hp = hp_ll hq" "same_parser (hp_impl hp) (hp_impl hq)"
  shows "fst (feed L d hp) = fst (feed L d hq)
    \<and> hp_ll (snd (feed L d hp)) = hp_ll (snd (feed L d hq))
    \<and> same_parser (hp_impl (snd (feed L d hp))) (hp_impl (snd (feed L d hq)))"
proof -
  let ?T = "ll_execute L (hp_ll hp) (map char_of_octet d)"
  obtain rc p s where s: "run_trace ?T (hp_impl hp) = (rc, p, s)" by (metis prod_cases3)
  obtain rc' p' t where t: "run_trace ?T (hp_impl hq) = (rc', p', t)" by (metis prod_cases3)
  from run_trace_same [OF assms(2), of ?T] s t
  have e: "rc' = rc" "p' = p" and q: "same_parser s t" by simp_all
  have "has_error t = has_error s" "complete t = complete s" "pending t = pending s" "chunk_buf t = chunk_buf s"
    using same_parserD [OF q] by simp_all
  with s t e assms(1) q show ?thesis
    by (cases s; cases t) (auto simp: feed_def Let_def same_parser_def split: if_splits)
qed

lemma feed_all_same:
  "hp_ll hp = hp_ll hq \<Longrightarrow> same_parser (hp_impl hp) (hp_impl hq) \<Longrightarrow> feed_all L ds hp = feed_all L ds hq"
proof (induction ds arbitrary: hp hq)
  case (Cons d ds)
  from feed_same [OF Cons.prems, of L d] Cons.IH show ?case by (simp add: split_beta)
qed simp

subsection \<open>Requests from events\<close>

text \<open>
  What llhttp's documentation promises for one well-formed request: its events in order, where
  every text may arrive in any number of fragments, over any number of buffers.
\<close>

primrec run_events :: "ll_event list \<Rightarrow> parser_impl \<Rightarrow> ll_errno \<times> parser_impl" where
  "run_events [] s = (HPE_OK, s)"
| "run_events (e # es) s = (let (rc, s') = callback e s in if rc = HPE_OK then run_events es s' else (rc, s'))"

primrec straight :: "ll_event list \<Rightarrow> 'p \<Rightarrow> 'p ll_trace" where
  "straight [] p = Done HPE_OK p"
| "straight (e # es) p = Call e (\<lambda>rc. if rc = HPE_OK then straight es p else Done rc p)"

lemma run_straight: "run_trace (straight es p) s = (let (rc, s') = run_events es s in (rc, p, s'))"
  by (induction es arbitrary: s) (auto simp: Let_def split_beta)

lemma run_events_append:
  "run_events (es @ fs) s = (let (rc, s') = run_events es s in if rc = HPE_OK then run_events fs s' else (rc, s'))"
  by (induction es arbitrary: s) (auto simp: Let_def split_beta)

lemma run_events_okD: "run_events es s = (HPE_OK, s') \<Longrightarrow> run_events (es @ fs) s = run_events fs s'"
  by (simp add: run_events_append)

definition frags :: "(string \<Rightarrow> ll_event) \<Rightarrow> string \<Rightarrow> ll_event list \<Rightarrow> bool" where
  "frags c text es \<longleftrightarrow> (\<exists>ps. es = map c ps \<and> concat ps = text)"

inductive header_events :: "(string \<times> string) list \<Rightarrow> ll_event list \<Rightarrow> bool" where
  no_headers: "header_events [] []"
| one_header: "n \<noteq> [] \<Longrightarrow> frags OnHeaderField n fes \<Longrightarrow> frags OnHeaderValue v ves \<Longrightarrow> ves \<noteq> []
    \<Longrightarrow> header_events hs es \<Longrightarrow> header_events ((n, v) # hs) (fes @ ves @ es)"

definition request_events :: "ParsedRequest \<Rightarrow> ll_event list \<Rightarrow> bool" where
  "request_events req es \<longleftrightarrow> (\<exists>mes ues hes body bes.
      frags OnMethod (pr_method req) mes \<and> frags OnUrl (pr_target req) ues
      \<and> header_events (pr_headers req) hes
      \<and> pr_body req = map octet_of_char body \<and> frags OnBody body bes
      \<and> es = mes @ ues @ hes @ [OnHeadersComplete (pr_version_major req) (pr_version_minor req)
               (pr_keep_alive req) (pr_upgrade req)] @ bes @ [OnMessageComplete])"

lemma method_frags:
  "pr_method (pending s) = method_buf s \<Longrightarrow> run_events (map OnMethod ps) s
    = (HPE_OK, s\<lparr>method_buf := method_buf s @ concat ps,
         pending := (pending s)\<lparr>pr_method := method_buf s @ concat ps\<rparr>\<rparr>)"
  by (induction ps arbitrary: s) (simp_all add: on_method_def Let_def)

lemma url_frags:
  "pr_target (pending s) = target_buf s \<Longrightarrow> run_events (map OnUrl ps) s
    = (HPE_OK, s\<lparr>target_buf := target_buf s @ concat ps,
         pending := (pending s)\<lparr>pr_target := target_buf s @ concat ps\<rparr>\<rparr>)"
  by (induction ps arbitrary: s) (simp_all add: on_url_def Let_def)

lemma body_frags:
  "body_byte_count s + length (concat ps) \<le> max_body_bytes (ip_config s) \<Longrightarrow> run_events (map OnBody ps) s
    = (HPE_OK, s\<lparr>body_byte_count := body_byte_count s + length (concat ps),
         chunk_buf := chunk_buf s @ map octet_of_char (concat ps)\<rparr>)"
  by (induction ps arbitrary: s) (simp_all add: on_body_def Let_def)

lemma field_frags:
  "\<not> in_value s \<Longrightarrow> run_events (map OnHeaderField ps) s = (HPE_OK, s\<lparr>field_buf := field_buf s @ concat ps\<rparr>)"
  by (induction ps arbitrary: s) (simp_all add: on_header_field_def)

lemma value_frags:
  "ps \<noteq> [] \<Longrightarrow> run_events (map OnHeaderValue ps) s
    = (HPE_OK, s\<lparr>value_buf := value_buf s @ concat ps, in_value := True\<rparr>)"
  by (induction ps arbitrary: s rule: list_nonempty_induct) (simp_all add: on_header_value_def)

text \<open>Between two headers the last one is still in the buffers.\<close>

definition settled :: "parser_impl \<Rightarrow> bool" where
  "settled s \<longleftrightarrow> header_count s = length (header_storage s)
     \<and> (if in_value s then field_buf s \<noteq> [] else field_buf s = [] \<and> value_buf s = [])"

definition seen_headers :: "parser_impl \<Rightarrow> (string \<times> string) list" where
  "seen_headers s = header_storage s @ (if in_value s then [(field_buf s, value_buf s)] else [])"

definition same_rest :: "parser_impl \<Rightarrow> parser_impl \<Rightarrow> bool" where
  "same_rest s s' \<longleftrightarrow> s' = s\<lparr>field_buf := field_buf s', value_buf := value_buf s', in_value := in_value s',
     header_storage := header_storage s', header_count := header_count s'\<rparr>"

lemma one_header_run:
  assumes "settled s" "n \<noteq> []" "concat fs = n" "vs \<noteq> []"
    and "length (seen_headers s) \<le> max_header_count (ip_config s)"
  shows "\<exists>s'. run_events (map OnHeaderField fs @ map OnHeaderValue vs) s = (HPE_OK, s')
    \<and> settled s' \<and> seen_headers s' = seen_headers s @ [(n, concat vs)] \<and> same_rest s s'"
proof -
  define s0 where "s0 = (if in_value s then snd (commit_header s) else s)\<lparr>in_value := False\<rparr>"
  from assms(2,3) obtain f fs' where fs: "fs = f # fs'" by (cases fs) auto
  have s0: "\<not> in_value s0" "field_buf s0 = []" "value_buf s0 = []" "header_storage s0 = seen_headers s"
    "header_count s0 = length (seen_headers s)"
    using assms(1) by (auto simp: s0_def settled_def seen_headers_def commit_header_def Let_def)
  have sr: "same_rest s s0"
    using assms(1,5) by (cases "in_value s")
      (simp_all add: s0_def settled_def seen_headers_def commit_header_def Let_def same_rest_def)
  have "on_header_field f s = (HPE_OK, s0\<lparr>field_buf := f\<rparr>)"
    using assms(1,5)
    by (cases "in_value s") (simp_all add: s0_def on_header_field_def settled_def seen_headers_def commit_header_def Let_def)
  moreover have "\<not> in_value (s0\<lparr>field_buf := f\<rparr>)" using s0(1) by simp
  ultimately have "run_events (map OnHeaderField fs) s = (HPE_OK, s0\<lparr>field_buf := n\<rparr>)"
    using field_frags [of "s0\<lparr>field_buf := f\<rparr>" fs'] assms(3) by (simp add: fs)
  then have "run_events (map OnHeaderField fs @ map OnHeaderValue vs) s
      = (HPE_OK, s0\<lparr>field_buf := n, value_buf := concat vs, in_value := True\<rparr>)"
    using value_frags [OF assms(4), of "s0\<lparr>field_buf := n\<rparr>"] s0(3) by (simp add: run_events_append)
  moreover have "same_rest s (s0\<lparr>field_buf := n, value_buf := concat vs, in_value := True\<rparr>)"
    using sr by (cases s; cases s0) (simp add: same_rest_def)
  ultimately show ?thesis using s0 assms(2)
    by (intro exI [of _ "s0\<lparr>field_buf := n, value_buf := concat vs, in_value := True\<rparr>"])
       (simp add: settled_def seen_headers_def)
qed

lemma same_rest_trans: "same_rest a b \<Longrightarrow> same_rest b c \<Longrightarrow> same_rest a c"
  by (cases a; cases b; cases c) (simp add: same_rest_def)

lemma same_rest_config: "same_rest s s' \<Longrightarrow> ip_config s' = ip_config s"
  by (cases s; cases s') (simp add: same_rest_def)

lemma header_events_run:
  assumes "header_events hs es" "settled s"
    and "length (seen_headers s) + length hs \<le> max_header_count (ip_config s)"
  shows "\<exists>s'. run_events es s = (HPE_OK, s') \<and> settled s' \<and> seen_headers s' = seen_headers s @ hs \<and> same_rest s s'"
  using assms
proof (induction arbitrary: s rule: header_events.induct)
  case no_headers
  then show ?case by (simp add: same_rest_def)
next
  case (one_header n fes v ves hs es)
  from one_header.hyps(2,3) obtain fs vs where f: "fes = map OnHeaderField fs" "concat fs = n"
    and v: "ves = map OnHeaderValue vs" "concat vs = v" by (auto simp: frags_def)
  have "vs \<noteq> []" using one_header.hyps(4) v by simp
  moreover have "length (seen_headers s) \<le> max_header_count (ip_config s)" using one_header.prems(2) by simp
  ultimately obtain s1 where s1: "run_events (fes @ ves) s = (HPE_OK, s1)" "settled s1"
    "seen_headers s1 = seen_headers s @ [(n, v)]" "same_rest s s1"
    using one_header_run [OF one_header.prems(1) one_header.hyps(1) f(2), of vs] f v by auto
  have "length (seen_headers s1) + length hs \<le> max_header_count (ip_config s1)"
    using one_header.prems(2) s1(3) same_rest_config [OF s1(4)] by simp
  from one_header.IH [OF s1(2) this] obtain s' where s': "run_events es s1 = (HPE_OK, s')" "settled s'"
    "seen_headers s' = seen_headers s1 @ hs" "same_rest s1 s'" by blast
  have "run_events (fes @ ves @ es) s = (HPE_OK, s')"
    using run_events_okD [OF s1(1), of es] s'(1) by simp
  with s' s1 same_rest_trans [OF s1(4) s'(4)] show ?case by auto
qed

lemma request_run:
  assumes ev: "request_events req es"
    and h: "length (pr_headers req) \<le> max_header_count config" and b: "length (pr_body req) \<le> max_body_bytes config"
  shows "\<exists>front sf. es = front @ [OnMessageComplete] \<and> run_events front (new_impl config) = (HPE_OK, sf)
    \<and> \<not> has_error sf \<and> (pending sf)\<lparr>pr_body := chunk_buf sf\<rparr> = req"
proof -
  from ev obtain ms us hes body bs where
    m: "concat ms = pr_method req" and u: "concat us = pr_target req" and he: "header_events (pr_headers req) hes"
    and bd: "pr_body req = map octet_of_char body" "concat bs = body"
    and es: "es = map OnMethod ms @ map OnUrl us @ hes @ [OnHeadersComplete (pr_version_major req) (pr_version_minor req)
               (pr_keep_alive req) (pr_upgrade req)] @ map OnBody bs @ [OnMessageComplete]"
    by (auto simp: request_events_def frags_def)
  let ?s0 = "new_impl config" and ?hc = "OnHeadersComplete (pr_version_major req) (pr_version_minor req)
               (pr_keep_alive req) (pr_upgrade req)"
  define s1 where "s1 = ?s0\<lparr>method_buf := pr_method req, pending := default_request\<lparr>pr_method := pr_method req\<rparr>\<rparr>"
  define s2 where "s2 = s1\<lparr>target_buf := pr_target req, pending := (pending s1)\<lparr>pr_target := pr_target req\<rparr>\<rparr>"
  have r1: "run_events (map OnMethod ms) ?s0 = (HPE_OK, s1)"
    using method_frags [of ?s0 ms] by (simp add: new_impl_def default_request_def s1_def m)
  have r2: "run_events (map OnUrl us) s1 = (HPE_OK, s2)"
    using url_frags [of s1 us] by (simp add: new_impl_def default_request_def s1_def s2_def u)
  have "settled s2" "seen_headers s2 = []" "ip_config s2 = config"
    by (simp_all add: s2_def s1_def new_impl_def settled_def seen_headers_def)
  then obtain s3 where r3: "run_events hes s2 = (HPE_OK, s3)" and s3: "settled s3"
    "seen_headers s3 = pr_headers req" "same_rest s2 s3"
    using header_events_run [OF he, of s2] h by auto
  have c3: "ip_config s3 = config" "pending s3 = pending s2" "\<not> has_error s3" "body_byte_count s3 = 0" "chunk_buf s3 = []"
    using s3(3) by (cases s3; simp add: same_rest_def s2_def s1_def new_impl_def)+
  define s4 where "s4 = (snd (commit_header s3))\<lparr>pending := req\<lparr>pr_body := []\<rparr>\<rparr>"
  have len: "in_value s3 \<Longrightarrow> Suc (length (header_storage s3)) = length (pr_headers req)"
    using s3(2) by (auto simp: seen_headers_def dest!: arg_cong [of _ _ length])
  have cm: "field_buf s3 \<noteq> [] \<Longrightarrow> fst (commit_header s3)"
    "header_storage (snd (commit_header s3)) = pr_headers req"
    "body_byte_count (snd (commit_header s3)) = 0" "chunk_buf (snd (commit_header s3)) = []"
    "pending (snd (commit_header s3)) = pending s2"
    "ip_config (snd (commit_header s3)) = config" "\<not> has_error (snd (commit_header s3))"
    "field_buf s3 = [] \<Longrightarrow> snd (commit_header s3) = s3"
    using s3(1,2) h c3 len by (auto simp: commit_header_def settled_def seen_headers_def Let_def split: if_splits)
  have r4: "run_events [?hc] s3 = (HPE_OK, s4)"
    using cm
    by (cases "field_buf s3 = []"; cases "commit_header s3")
       (simp_all add: on_headers_complete_def refresh_header_views_def s4_def s2_def s1_def new_impl_def default_request_def Let_def)
  have "body_byte_count s4 + length (concat bs) \<le> max_body_bytes (ip_config s4)"
    using b bd cm by (simp add: s4_def)
  from body_frags [OF this] have r5: "run_events (map OnBody bs) s4
      = (HPE_OK, s4\<lparr>body_byte_count := length body, chunk_buf := pr_body req\<rparr>)"
    using cm bd by (simp add: s4_def)
  have "run_events (map OnMethod ms @ map OnUrl us @ hes @ [?hc] @ map OnBody bs) ?s0
      = (HPE_OK, s4\<lparr>body_byte_count := length body, chunk_buf := pr_body req\<rparr>)"
    by (simp only: run_events_okD [OF r1] run_events_okD [OF r2] run_events_okD [OF r3] run_events_okD [OF r4] r5)
  moreover have "\<not> has_error s4" using cm by (simp add: s4_def)
  moreover have "es = (map OnMethod ms @ map OnUrl us @ hes @ [?hc] @ map OnBody bs) @ [OnMessageComplete]"
    by (simp add: es)
  moreover have "(pending s4)\<lparr>pr_body := pr_body req\<rparr> = req" by (simp add: s4_def)
  ultimately show ?thesis
    by (intro exI [of _ "map OnMethod ms @ map OnUrl us @ hes @ [?hc] @ map OnBody bs"]
        exI [of _ "s4\<lparr>body_byte_count := length body, chunk_buf := pr_body req\<rparr>"]) simp
qed

text \<open>Feeding: llhttp reports each buffer's events in order and stops where a callback says so.\<close>

fun delivers :: "'p llhttp \<Rightarrow> 'p \<Rightarrow> octets list \<Rightarrow> ll_event list list \<Rightarrow> bool" where
  "delivers L p [] ess = (ess = [])"
| "delivers L p (d # ds) ess = (case ess of [] \<Rightarrow> False
     | es # ess' \<Rightarrow> (\<exists>p'. ll_execute L p (map char_of_octet d) = straight es p' \<and> delivers L p' ds ess'))"

lemma run_events_inv:
  "run_events es s = (rc, s') \<Longrightarrow> parser_inv s \<Longrightarrow> parser_inv s' \<and> (has_error s \<longrightarrow> has_error s')"
  using run_trace_inv [of "straight es ()" s rc "()" s'] by (auto simp: run_straight)

lemma feed_delivered:
  assumes "delivers L p ds ess" "ess \<noteq> []" "last ess \<noteq> []" "concat ess = front @ [OnMessageComplete]"
    and "run_events front s = (HPE_OK, sf)" "\<not> has_error sf" "parser_inv s"
  shows "feed_all L ds \<lparr>hp_ll = p, hp_impl = s\<rparr>
    = replicate (length ds - 1) (Inl Incomplete) @ [Inr ((pending sf)\<lparr>pr_body := chunk_buf sf\<rparr>)]"
  using assms
proof (induction ess arbitrary: ds p s front)
  case (Cons es ess)
  then obtain d ds' p' where ds: "ds = d # ds'" and ex: "ll_execute L p (map char_of_octet d) = straight es p'"
    and dl: "delivers L p' ds' ess" by (cases ds) auto
  show ?case
  proof (cases "ess = []")
    case True
    with dl have d': "ds' = []" by (cases ds') auto
    have "run_events es s = (HPE_PAUSED, sf\<lparr>complete := True\<rparr>)"
      using Cons.prems(4,5) True by (simp add: run_events_append on_message_complete_def)
    then show ?thesis
      using Cons.prems(6) by (simp add: ds d' feed_def ex run_straight)
  next
    case False
    with Cons.prems(3) have l: "last ess \<noteq> []" by simp
    with False have ne: "concat ess \<noteq> []"
      by (metis concat_eq_Nil_conv last_in_set)
    then obtain front2 where f2: "concat ess = front2 @ [OnMessageComplete]" and f: "front = es @ front2"
      using Cons.prems(4) by (metis append_assoc append_butlast_last_id append_same_eq concat.simps(2) last_appendR last_snoc)
    obtain rc s1 where r: "run_events es s = (rc, s1)" by fastforce
    with Cons.prems(5) f have rc: "rc = HPE_OK" and r2: "run_events front2 s1 = (HPE_OK, sf)"
      by (auto simp: run_events_append split: if_splits)
    have i1: "parser_inv s1" using run_events_inv [OF r Cons.prems(7)] by simp
    have e1: "\<not> has_error s1" using run_events_inv [OF r2 i1] Cons.prems(6) by blast
    have fd: "feed L d \<lparr>hp_ll = p, hp_impl = s\<rparr> = (Inl Incomplete, \<lparr>hp_ll = p', hp_impl = s1\<rparr>)"
      using e1 rc by (simp add: feed_def ex run_straight r)
    have "ds' \<noteq> []" using dl False by (cases ess) auto
    then have "length ds' = Suc (length ds' - 1)" by (cases ds') auto
    then have "replicate (length ds') x = x # replicate (length ds' - 1) x" for x :: "ParseError + ParsedRequest"
      by (metis replicate_Suc)
    then show ?thesis using Cons.IH [OF dl False l f2 r2 Cons.prems(6) i1] by (simp add: ds fd)
  qed
qed simp

text \<open>
  Claim C3. The parser assembles what it is fed: if llhttp reports the events of a request (method,
  target, headers, end of headers, body, end of message), each text in any number of fragments
  and the whole spread over any number of buffers, and the request is within the configured limits,
  then every buffer but the last is answered \<open>Incomplete\<close> and the last one with exactly that
  request.
\<close>

theorem feed_assembles_request:
  assumes "delivers L (ll_init L) ds ess" "ess \<noteq> []" "last ess \<noteq> []"
    and "request_events req (concat ess)"
    and "length (pr_headers req) \<le> max_header_count config" "length (pr_body req) \<le> max_body_bytes config"
  shows "feed_all L ds (new_parser L config) = replicate (length ds - 1) (Inl Incomplete) @ [Inr req]"
proof -
  from request_run [OF assms(4-6)] obtain front sf where f: "concat ess = front @ [OnMessageComplete]"
    "run_events front (new_impl config) = (HPE_OK, sf)" "\<not> has_error sf"
    "(pending sf)\<lparr>pr_body := chunk_buf sf\<rparr> = req" by blast
  from feed_delivered [OF assms(1-3) f(1-3) new_impl_inv] f(4) show ?thesis
    by (simp add: new_parser_def)
qed

text \<open>A concrete library state: the events it will report for its next buffers.\<close>

definition scripted :: "ll_event list list \<Rightarrow> (ll_event list list) llhttp" where
  "scripted script = \<lparr>ll_init = script,
     ll_execute = (\<lambda>p text. case p of [] \<Rightarrow> Done HPE_OK [] | es # p' \<Rightarrow> straight es p'),
     ll_resume = (\<lambda>p. p), ll_reset = (\<lambda>_. script)\<rparr>"

lemma scripted_delivers: "length ds = length ess \<Longrightarrow> delivers (scripted script) ess ds ess"
proof (induction ess arbitrary: ds)
  case (Cons es ess)
  then obtain d ds' where "ds = d # ds'" "length ds' = length ess" by (cases ds) auto
  with Cons.IH show ?case by (auto simp: scripted_def intro!: exI [of _ ess])
qed simp

theorem feed_assembles_request_witness:
  "feed_all (scripted [[OnMethod ''GET'', OnUrl ''/a''], [OnUrl ''/b'', OnHeaderField ''Ho'', OnHeaderField ''st'',
       OnHeaderValue ''x'', OnHeadersComplete 1 1 True False, OnMessageComplete]])
     [[1], [2]] (new_parser (scripted [[OnMethod ''GET'', OnUrl ''/a''], [OnUrl ''/b'', OnHeaderField ''Ho'', OnHeaderField ''st'',
       OnHeaderValue ''x'', OnHeadersComplete 1 1 True False, OnMessageComplete]]) default_parser_config)
   = [Inl Incomplete, Inr (default_request\<lparr>pr_method := ''GET'', pr_target := ''/a/b'', pr_headers := [(''Host'', ''x'')]\<rparr>)]"
proof -
  let ?ess = "[[OnMethod ''GET'', OnUrl ''/a''], [OnUrl ''/b'', OnHeaderField ''Ho'', OnHeaderField ''st'',
       OnHeaderValue ''x'', OnHeadersComplete 1 1 True False, OnMessageComplete]]"
  let ?req = "default_request\<lparr>pr_method := ''GET'', pr_target := ''/a/b'', pr_headers := [(''Host'', ''x'')]\<rparr>"
  have "header_events [(''Host'', ''x'')] ([OnHeaderField ''Ho'', OnHeaderField ''st''] @ [OnHeaderValue ''x''] @ [])"
    by (rule one_header) (auto simp: frags_def no_headers intro: exI [of _ "[''Ho'', ''st'']"] exI [of _ "[''x'']"])
  then have "request_events ?req (concat ?ess)"
    unfolding request_events_def frags_def
    by (intro exI [of _ "[OnMethod ''GET'']"] exI [of _ "[OnUrl ''/a'', OnUrl ''/b'']"]
        exI [of _ "[OnHeaderField ''Ho'', OnHeaderField ''st'', OnHeaderValue ''x'']"] exI [of _ "[]"])
       (auto simp: default_request_def intro: exI [of _ "[''GET'']"] exI [of _ "[''/a'', ''/b'']"])
  moreover have "delivers (scripted ?ess) (ll_init (scripted ?ess)) [[1], [2]] ?ess"
    using scripted_delivers [of "[[1], [2]]" ?ess ?ess] by (simp add: scripted_def)
  moreover have "length (pr_headers ?req) \<le> max_header_count default_parser_config"
    "length (pr_body ?req) \<le> max_body_bytes default_parser_config"
    by (simp_all add: default_request_def default_parser_config_def kParserDefaultMaxHeaderCount_def)
  ultimately show ?thesis
    using feed_assembles_request [of "scripted ?ess" "[[1], [2]]" ?ess ?req default_parser_config] by simp
qed

text \<open>
  Claim C4. Whatever llhttp does, and whatever the parser was fed before, a request it returns has at
  most the configured number of headers and body bytes, the body buffer never holds more than
  the limit, and once a limit is exceeded this buffer and every later one is answered with a limit
  error until the parser is reset.
\<close>

theorem parser_limits:
  assumes "parser_reachable L config hp"
  shows "length (chunk_buf (hp_impl hp)) \<le> max_body_bytes config
    \<and> (\<forall>req. fst (feed L data hp) = Inr req \<longrightarrow>
         length (pr_headers req) \<le> max_header_count config \<and> length (pr_body req) \<le> max_body_bytes config)
    \<and> (has_error (hp_impl hp) \<longrightarrow> has_error (hp_impl (snd (feed L data hp)))
         \<and> fst (feed L data hp) \<in> {Inl TooManyHeaders, Inl TooLarge})"
proof -
  have i: "parser_inv (hp_impl hp)" "ip_config (hp_impl hp) = config"
    using reachable_inv [OF assms] by simp_all
  obtain r hp' where f: "feed L data hp = (r, hp')" by fastforce
  from feed_inv [OF f i(1)] i f show ?thesis
    by (auto simp: parser_inv_def)
qed

theorem parser_limits_witness:
  "fst (feed (scripted [[OnBody ''abc'']]) []
     (new_parser (scripted [[OnBody ''abc'']]) \<lparr>max_header_count = 1, max_body_bytes = 2\<rparr>)) = Inl TooLarge
   \<and> fst (feed (scripted [[OnBody ''abc'']]) [] (snd (feed (scripted [[OnBody ''abc'']]) []
     (new_parser (scripted [[OnBody ''abc'']]) \<lparr>max_header_count = 1, max_body_bytes = 2\<rparr>)))) \<in> {Inl TooManyHeaders, Inl TooLarge}"
proof -
  let ?L = "scripted [[OnBody ''abc'']]" and ?c = "\<lparr>max_header_count = 1, max_body_bytes = 2\<rparr>"
  let ?hp = "snd (feed ?L [] (new_parser ?L ?c))"
  have "parser_reachable ?L ?c ?hp" by (intro reach_feed reach_new)
  note p = parser_limits [OF this, of "[]"]
  have "has_error (hp_impl ?hp) \<and> fst (feed ?L [] (new_parser ?L ?c)) = Inl TooLarge"
    by (simp add: feed_def scripted_def new_parser_def new_impl_def on_body_def Let_def)
  with p show ?thesis by simp
qed

text \<open>
  Resetting equals starting afresh: if llhttp's reset restores its initial state, the answers of
  a reset parser to any sequence of buffers are those of a newly constructed one with the same
  limits, whatever it was fed before, errors included.
\<close>

theorem reset_is_fresh:
  assumes "parser_reachable L config hp" "ll_reset L (hp_ll hp) = ll_init L"
  shows "feed_all L ds (reset L hp) = feed_all L ds (new_parser L config)"
proof (rule feed_all_same)
  show "hp_ll (reset L hp) = hp_ll (new_parser L config)"
    using assms(2) by (simp add: reset_def new_parser_def)
  have "ip_config (hp_impl hp) = config" using reachable_inv [OF assms(1)] by simp
  then show "same_parser (hp_impl (reset L hp)) (hp_impl (new_parser L config))"
    by (simp add: reset_def reset_impl_def new_parser_def new_impl_def same_parser_def)
qed

text \<open>
  Trailer fields of a chunked body are stored after the header views were taken: the storage the
  views point into has grown by the time the request is returned.
\<close>

theorem trailers_grow_storage:
  "let L = scripted [[OnHeaderField ''A'', OnHeaderValue ''1'', OnHeadersComplete 1 1 True False, OnBody ''x'',
        OnHeaderField ''T'', OnHeaderValue ''2'', OnHeaderField ''U'', OnHeaderValue ''3'', OnMessageComplete]];
       (r, hp) = feed L [] (new_parser L default_parser_config)
   in r = Inr (default_request\<lparr>pr_headers := [(''A'', ''1'')], pr_body := [0x78]\<rparr>)
      \<and> header_storage (hp_impl hp) = [(''A'', ''1''), (''T'', ''2'')]"
  by (simp add: feed_def scripted_def new_parser_def new_impl_def callback_defs default_parser_config_def
      default_request_def kParserDefaultMaxHeaderCount_def kParserDefaultMaxBodyBytes_def octet_of_char_def Let_def)
end
