(* ===== verification/Response.thy ===== *)
theory Response
  imports Prelude "HOL-Library.AList"
begin

text \<open>
  Responses and their wire form: \<^verbatim>\<open>src/http/response_impl.cpp\<close> and the serializer of
  \<^verbatim>\<open>src/router/app_impl.cpp\<close>. The header container is a \<^verbatim>\<open>std::unordered_map\<close>: it is
  modelled by its entries, updated by key, and the order in which iteration visits them is an
  argument of the serializer. A moved-from response is \<open>None\<close>.
\<close>

record response_impl =
  status_code :: int
  resp_body :: string
  resp_headers :: "(string \<times> string) list"

type_synonym response = "response_impl option"

definition kStatusOk :: int where "kStatusOk = 200"
definition kStatusSwitchingProtocols :: int where "kStatusSwitchingProtocols = 101"
definition kStatusCreated :: int where "kStatusCreated = 201"
definition kStatusNoContent :: int where "kStatusNoContent = 204"
definition kStatusBadRequest :: int where "kStatusBadRequest = 400"
definition kStatusUnauthorized :: int where "kStatusUnauthorized = 401"
definition kStatusForbidden :: int where "kStatusForbidden = 403"
definition kStatusNotFound :: int where "kStatusNotFound = 404"
definition kStatusMethodNotAllowed :: int where "kStatusMethodNotAllowed = 405"
definition kStatusPayloadTooLarge :: int where "kStatusPayloadTooLarge = 413"
definition kStatusInternalServerError :: int where "kStatusInternalServerError = 500"

lemmas status_consts = kStatusOk_def kStatusSwitchingProtocols_def kStatusCreated_def kStatusNoContent_def
  kStatusBadRequest_def kStatusUnauthorized_def kStatusForbidden_def kStatusNotFound_def
  kStatusMethodNotAllowed_def kStatusPayloadTooLarge_def kStatusInternalServerError_def

definition make_response :: "int \<Rightarrow> string \<Rightarrow> string \<Rightarrow> response" where
  "make_response status body_str ct_value = Some \<lparr>status_code = status, resp_body = body_str,
     resp_headers = (if ct_value \<noteq> [] then [(''Content-Type'', ct_value)] else [])\<rparr>"

definition response_status :: "response \<Rightarrow> int" where
  "response_status r = (case r of None \<Rightarrow> 0 | Some i \<Rightarrow> status_code i)"

definition body_view :: "response \<Rightarrow> string" where
  "body_view r = (case r of None \<Rightarrow> [] | Some i \<Rightarrow> resp_body i)"

definition get_header :: "string \<Rightarrow> response \<Rightarrow> string option" where
  "get_header name r = (case r of None \<Rightarrow> None | Some i \<Rightarrow> map_of (resp_headers i) name)"

text \<open>The fluent setters; calling one on a moved-from response is undefined in the source.\<close>

definition set_header :: "string \<Rightarrow> string \<Rightarrow> response \<Rightarrow> response" where
  "set_header name v r = map_option (\<lambda>i. i\<lparr>resp_headers := AList.update name v (resp_headers i)\<rparr>) r"

definition set_content_type :: "string \<Rightarrow> response \<Rightarrow> response" where
  "set_content_type ct r = map_option (\<lambda>i. i\<lparr>resp_headers := AList.update ''Content-Type'' ct (resp_headers i)\<rparr>) r"

definition ok :: "string \<Rightarrow> response" where
  "ok body = make_response kStatusOk body ''text/plain''"

definition created :: "string \<Rightarrow> response" where
  "created body = make_response kStatusCreated body ''text/plain''"

definition not_found :: "string \<Rightarrow> response" where
  "not_found body = make_response kStatusNotFound body ''text/plain''"

definition bad_request :: "string \<Rightarrow> response" where
  "bad_request body = make_response kStatusBadRequest body ''text/plain''"

definition unauthorized :: "string \<Rightarrow> response" where
  "unauthorized body = make_response kStatusUnauthorized body ''text/plain''"

definition forbidden :: "string \<Rightarrow> response" where
  "forbidden body = make_response kStatusForbidden body ''text/plain''"

definition json_text :: "string \<Rightarrow> response" where
  "json_text body = make_response kStatusOk body ''application/json''"

definition method_not_allowed :: "string \<Rightarrow> response" where
  "method_not_allowed body = make_response kStatusMethodNotAllowed body ''text/plain''"

definition stream_response :: "string \<Rightarrow> response" where
  "stream_response content_type = make_response kStatusOk [] content_type"

definition switching_protocols :: response where
  "switching_protocols = make_response kStatusSwitchingProtocols [] []"

subsection \<open>Serialization\<close>

definition status_text :: "int \<Rightarrow> string" where
  "status_text code =
     (if code = kStatusOk then ''OK''
      else if code = kStatusCreated then ''Created''
      else if code = kStatusNoContent then ''No Content''
      else if code = kStatusBadRequest then ''Bad Request''
      else if code = kStatusUnauthorized then ''Unauthorized''
      else if code = kStatusForbidden then ''Forbidden''
      else if code = kStatusNotFound then ''Not Found''
      else if code = kStatusMethodNotAllowed then ''Method Not Allowed''
      else if code = kStatusPayloadTooLarge then ''Payload Too Large''
      else if code = kStatusInternalServerError then ''Internal Server Error''
      else ''Unknown'')"

definition ascii_equal_ignore_case :: "string \<Rightarrow> string \<Rightarrow> bool" where
  "ascii_equal_ignore_case lhs rhs =
     (if length lhs \<noteq> length rhs then False
      else list_all2 (\<lambda>left right. ascii_lower left = ascii_lower right) lhs rhs)"

definition has_header_case_insensitive :: "(string \<times> string) list \<Rightarrow> string \<Rightarrow> bool" where
  "has_header_case_insensitive hs name = list_ex (\<lambda>h. ascii_equal_ignore_case (fst h) name) hs"

definition crlf :: string where
  "crlf = [char_of (13 :: nat), char_of (10 :: nat)]"

definition header_line :: "string \<times> string \<Rightarrow> string" where
  "header_line h = fst h @ '': '' @ snd h @ crlf"

definition content_length_line :: "string \<Rightarrow> string" where
  "content_length_line body = ''Content-Length: '' @ dec_string (length body) @ crlf"

definition serialize_head :: "((string \<times> string) list \<Rightarrow> (string \<times> string) list) \<Rightarrow> response \<Rightarrow> string" where
  "serialize_head iter resp =
     ''HTTP/1.1 '' @ int_text (response_status resp) @ '' '' @ status_text (response_status resp) @ crlf
     @ (case resp of
          Some impl \<Rightarrow>
            (if \<not> has_header_case_insensitive (iter (resp_headers impl)) ''Content-Length''
             then content_length_line (body_view resp) else [])
            @ concat (map header_line (iter (resp_headers impl)))
        | None \<Rightarrow> content_length_line (body_view resp))
     @ crlf"

definition serialize_response :: "((string \<times> string) list \<Rightarrow> (string \<times> string) list) \<Rightarrow> response \<Rightarrow> octets" where
  "serialize_response iter resp = map octet_of_char (serialize_head iter resp @ body_view resp)"

subsection \<open>A reader for serialized messages\<close>

text \<open>
  An independent reader: lines end at the first CR LF, the head at the first empty line, and
  everything after it is the body.
\<close>

function split_line :: "string \<Rightarrow> (string \<times> string) option" where
  "split_line [] = None"
| "split_line [c] = None"
| "split_line (c # d # s) =
     (if of_char c = (13 :: nat) \<and> of_char d = (10 :: nat) then Some ([], s)
      else map_option (\<lambda>(l, r). (c # l, r)) (split_line (d # s)))"
  by pat_completeness auto
termination by lexicographic_order

lemma split_line_shorter: "split_line s = Some (l, r) \<Longrightarrow> length r < length s"
  by (induction s arbitrary: l r rule: split_line.induct) (auto split: if_splits)

function read_message :: "string \<Rightarrow> (string list \<times> string) option" where
  "read_message s = (case split_line s of
      None \<Rightarrow> None
    | Some (l, r) \<Rightarrow> if l = [] then Some ([], r) else map_option (\<lambda>(ls, b). (l # ls, b)) (read_message r))"
  by pat_completeness auto
termination
  by (relation "measure length") (auto dest: split_line_shorter)

declare read_message.simps [simp del]

definition no_crlf :: "string \<Rightarrow> bool" where
  "no_crlf s \<longleftrightarrow> list_all (\<lambda>c. of_char c \<noteq> (13 :: nat) \<and> of_char c \<noteq> (10 :: nat)) s"

lemma split_line_crlf: "no_crlf l \<Longrightarrow> split_line (l @ crlf @ r) = Some (l, r)"
proof (induction l)
  case Nil
  then show ?case by (simp add: crlf_def of_char_of)
next
  case (Cons c l)
  then have "\<not> of_char c = (13 :: nat)" by (simp add: no_crlf_def)
  with Cons show ?case
    by (cases "l @ crlf @ r") (auto simp: no_crlf_def crlf_def)
qed

lemma read_message_lines:
  assumes "\<forall>l \<in> set ls. no_crlf l \<and> l \<noteq> []"
  shows "read_message (concat (map (\<lambda>l. l @ crlf) ls) @ crlf @ b) = Some (ls, b)"
  using assms
proof (induction ls)
  case Nil
  then show ?case
    using split_line_crlf [of "[]" b] by (simp add: read_message.simps [of "crlf @ b"] no_crlf_def)
next
  case (Cons l ls)
  then show ?case
    using split_line_crlf [of l "concat (map (\<lambda>l. l @ crlf) ls) @ crlf @ b"]
    by (simp add: read_message.simps [of "l @ _"])
qed

definition safe_headers :: "(string \<times> string) list \<Rightarrow> bool" where
  "safe_headers hs \<longleftrightarrow> list_all (\<lambda>(n, v). no_crlf n \<and> no_crlf v) hs"

definition head_lines :: "((string \<times> string) list \<Rightarrow> (string \<times> string) list) \<Rightarrow> response \<Rightarrow> (string \<times> string) list" where
  "head_lines iter resp = (case resp of
      Some impl \<Rightarrow>
        (if has_header_case_insensitive (iter (resp_headers impl)) ''Content-Length'' then []
         else [(''Content-Length'', dec_string (length (body_view resp)))]) @ iter (resp_headers impl)
    | None \<Rightarrow> [(''Content-Length'', dec_string (length (body_view resp)))])"

lemma no_crlf_append [simp]: "no_crlf (a @ b) \<longleftrightarrow> no_crlf a \<and> no_crlf b"
  by (simp add: no_crlf_def)

lemma no_crlf_Cons [simp]: "no_crlf (c # s) \<longleftrightarrow> of_char c \<noteq> (13 :: nat) \<and> of_char c \<noteq> (10 :: nat) \<and> no_crlf s"
  by (simp add: no_crlf_def)

lemma no_crlf_Nil [simp]: "no_crlf []" by (simp add: no_crlf_def)

lemma no_crlf_dec: "no_crlf (dec_string n)"
  using dec_string_props [of n] by (auto simp: no_crlf_def list_all_iff is_digit_def)

lemma no_crlf_status: "no_crlf (int_text n)" "no_crlf (status_text n)"
  by (simp_all add: int_text_def no_crlf_dec status_text_def)

definition status_line :: "response \<Rightarrow> string" where
  "status_line resp = ''HTTP/1.1 '' @ int_text (response_status resp) @ '' '' @ status_text (response_status resp)"

definition header_text :: "string \<times> string \<Rightarrow> string" where
  "header_text h = fst h @ '': '' @ snd h"

lemma serialize_head_lines:
  "serialize_head iter resp = concat (map (\<lambda>l. l @ crlf) (status_line resp # map header_text (head_lines iter resp))) @ crlf"
  by (auto simp: serialize_head_def status_line_def head_lines_def header_text_def content_length_line_def
      header_line_def [abs_def] comp_def split: option.splits)

text \<open>
  Claim C22. Serialized responses are well framed, whatever order the header map is iterated in: if no
  header name or value contains CR or LF, a reader that splits lines at CR LF and the head at
  the first empty line finds the status line, exactly the response's headers and, bit for bit, its
  body; and if the application set no Content-Length of its own (in any spelling), the head has exactly one,
  whose decimal value is the length of the body.
\<close>

theorem serialize_response_framed:
  assumes "case resp of Some impl \<Rightarrow> safe_headers (resp_headers impl) | None \<Rightarrow> True"
    and "\<forall>hs. set (iter hs) = set hs"
  shows "read_message (map char_of_octet (serialize_response iter resp))
      = Some (status_line resp # map header_text (head_lines iter resp), body_view resp)
    \<and> ((case resp of Some impl \<Rightarrow> \<not> has_header_case_insensitive (resp_headers impl) ''Content-Length'' | None \<Rightarrow> True) \<longrightarrow>
       (\<exists>v. filter (\<lambda>h. ascii_equal_ignore_case (fst h) ''Content-Length'') (head_lines iter resp) = [(''Content-Length'', v)]
          \<and> digits_value v = length (body_view resp)))"
proof
  have ex: "has_header_case_insensitive (iter hs) n = has_header_case_insensitive hs n" for hs n
    using assms(2) by (simp add: has_header_case_insensitive_def list_ex_iff)
  have "\<forall>l \<in> set (status_line resp # map header_text (head_lines iter resp)). no_crlf l \<and> l \<noteq> []"
    using assms
    by (auto simp: status_line_def no_crlf_status header_text_def head_lines_def no_crlf_dec safe_headers_def
        list_all_iff split: option.splits if_splits)
  from read_message_lines [OF this, of "body_view resp"]
  show "read_message (map char_of_octet (serialize_response iter resp))
      = Some (status_line resp # map header_text (head_lines iter resp), body_view resp)"
    by (simp only: serialize_response_def serialize_head_lines list.map_comp map_char_of_octet_of_char append_assoc)
  have cl: "ascii_equal_ignore_case ''Content-Length'' ''Content-Length''"
    by (simp add: ascii_equal_ignore_case_def)
  show "(case resp of Some impl \<Rightarrow> \<not> has_header_case_insensitive (resp_headers impl) ''Content-Length'' | None \<Rightarrow> True) \<longrightarrow>
       (\<exists>v. filter (\<lambda>h. ascii_equal_ignore_case (fst h) ''Content-Length'') (head_lines iter resp) = [(''Content-Length'', v)]
          \<and> digits_value v = length (body_view resp))"
  proof
    assume n: "case resp of Some impl \<Rightarrow> \<not> has_header_case_insensitive (resp_headers impl) ''Content-Length'' | None \<Rightarrow> True"
    have "filter (\<lambda>h. ascii_equal_ignore_case (fst h) ''Content-Length'') (iter (resp_headers impl)) = []"
      if "resp = Some impl" for impl
      using n that assms(2) by (auto simp: filter_empty_conv has_header_case_insensitive_def list_ex_iff)
    then have "filter (\<lambda>h. ascii_equal_ignore_case (fst h) ''Content-Length'') (head_lines iter resp)
        = [(''Content-Length'', dec_string (length (body_view resp)))]"
      using n cl by (auto simp: head_lines_def ex split: option.splits)
    then show "\<exists>v. filter (\<lambda>h. ascii_equal_ignore_case (fst h) ''Content-Length'') (head_lines iter resp) = [(''Content-Length'', v)]
          \<and> digits_value v = length (body_view resp)"
      using dec_string_props [of "length (body_view resp)"] by blast
  qed
qed

theorem serialize_response_framed_witness:
  "read_message (map char_of_octet (serialize_response rev (set_header ''X-Id'' ''7'' (ok ''hi''))))
     = Some (status_line (set_header ''X-Id'' ''7'' (ok ''hi''))
         # map header_text (head_lines rev (set_header ''X-Id'' ''7'' (ok ''hi''))), ''hi'')"
proof -
  have "case set_header ''X-Id'' ''7'' (ok ''hi'') of Some impl \<Rightarrow> safe_headers (resp_headers impl) | None \<Rightarrow> True"
    by (simp add: set_header_def ok_def make_response_def safe_headers_def)
  moreover have "body_view (set_header ''X-Id'' ''7'' (ok ''hi'')) = ''hi''"
    by (simp add: set_header_def ok_def make_response_def body_view_def)
  ultimately show ?thesis
    using serialize_response_framed [of "set_header ''X-Id'' ''7'' (ok ''hi'')" rev] by simp
qed
end
