(* ===== verification/Request.thy ===== *)
theory Request
  imports Http_Types Http_Parser Ws_Handshake Response
begin

text \<open>
  \<^verbatim>\<open>Request::Impl\<close> and the accessors of \<^verbatim>\<open>src/http/request_impl.hpp\<close> and
  \<^verbatim>\<open>src/http/request_impl.cpp\<close>. The parameter and context maps are partial functions; a
  context value carries the type it was stored with, as \<^verbatim>\<open>std::any\<close> does.
\<close>

record ('ty, 'v) request_impl =
  req_parsed :: ParsedRequest
  path_view :: string
  query_view :: string
  req_params :: "string \<rightharpoonup> string"
  req_context :: "string \<rightharpoonup> 'ty \<times> 'v"
  req_max_payload :: nat
  req_stream :: bool
  req_topic_bus :: bool
  request_id :: string
  req_trace_id :: string
  req_span_id :: string
  req_traceparent :: string

definition kDefaultMaxPayloadBytes :: nat where
  "kDefaultMaxPayloadBytes = 10 * 1024 * 1024"

definition make_request :: "ParsedRequest \<Rightarrow> (string \<rightharpoonup> string) \<Rightarrow> ('ty, 'v) request_impl" where
  "make_request pr initial_params =
     (let target = pr_target pr;
          tail = from_first (CHR ''?'') target in
      \<lparr>req_parsed = pr,
       path_view = (if tail = [] then target else before (CHR ''?'') target),
       query_view = (if tail = [] then [] else drop 1 tail),
       req_params = initial_params, req_context = Map.empty,
       req_max_payload = kDefaultMaxPayloadBytes, req_stream = False, req_topic_bus = False,
       request_id = [], req_trace_id = [], req_span_id = [], req_traceparent = []\<rparr>)"

text \<open>
  What the connection sets on a request before it is dispatched. The references to the stream and to
  the bus are there or not; an upgrade takes the stream away.
\<close>

definition set_stream :: "('ty, 'v) request_impl \<Rightarrow> ('ty, 'v) request_impl" where
  "set_stream r = r\<lparr>req_stream := True\<rparr>"

definition clear_stream :: "('ty, 'v) request_impl \<Rightarrow> ('ty, 'v) request_impl" where
  "clear_stream r = r\<lparr>req_stream := False\<rparr>"

definition set_topic_bus :: "('ty, 'v) request_impl \<Rightarrow> ('ty, 'v) request_impl" where
  "set_topic_bus r = r\<lparr>req_topic_bus := True\<rparr>"

definition set_max_payload :: "nat \<Rightarrow> ('ty, 'v) request_impl \<Rightarrow> ('ty, 'v) request_impl" where
  "set_max_payload n r = r\<lparr>req_max_payload := n\<rparr>"

definition set_request_id :: "string \<Rightarrow> ('ty, 'v) request_impl \<Rightarrow> ('ty, 'v) request_impl" where
  "set_request_id i r = r\<lparr>request_id := i\<rparr>"

definition set_trace_id :: "string \<Rightarrow> ('ty, 'v) request_impl \<Rightarrow> ('ty, 'v) request_impl" where
  "set_trace_id i r = r\<lparr>req_trace_id := i\<rparr>"

definition set_span_id :: "string \<Rightarrow> ('ty, 'v) request_impl \<Rightarrow> ('ty, 'v) request_impl" where
  "set_span_id i r = r\<lparr>req_span_id := i\<rparr>"

definition set_traceparent :: "string \<Rightarrow> ('ty, 'v) request_impl \<Rightarrow> ('ty, 'v) request_impl" where
  "set_traceparent t r = r\<lparr>req_traceparent := t\<rparr>"

lemmas request_setters [simp] = set_stream_def clear_stream_def set_topic_bus_def set_max_payload_def set_request_id_def
  set_trace_id_def set_span_id_def set_traceparent_def

definition req_method :: "('ty, 'v) request_impl \<Rightarrow> HttpMethod" where
  "req_method r =
     (let m = pr_method (req_parsed r) in
      if m = ''GET'' then GET
      else if m = ''POST'' then POST
      else if m = ''PUT'' then PUT
      else if m = ''PATCH'' then PATCH
      else if m = ''DELETE'' then DELETE
      else if m = ''HEAD'' then HEAD
      else if m = ''OPTIONS'' then OPTIONS
      else Unknown)"

definition req_header :: "string \<Rightarrow> ('ty, 'v) request_impl \<Rightarrow> string option" where
  "req_header name r =
     map_option snd (List.find (\<lambda>(n, _). list_all2 (\<lambda>a b. ascii_lower a = ascii_lower b) n name) (pr_headers (req_parsed r)))"

definition trace_context :: "('ty, 'v) request_impl option \<Rightarrow> string option" where
  "trace_context r = (case r of None \<Rightarrow> None
     | Some i \<Rightarrow> if req_traceparent i = [] then None else Some (req_traceparent i))"

definition ctx_set :: "string \<Rightarrow> 'ty \<Rightarrow> 'v \<Rightarrow> ('ty, 'v) request_impl \<Rightarrow> ('ty, 'v) request_impl" where
  "ctx_set key ty v r = r\<lparr>req_context := (req_context r)(key \<mapsto> (ty, v))\<rparr>"

definition ctx_get :: "string \<Rightarrow> 'ty \<Rightarrow> ('ty, 'v) request_impl \<Rightarrow> 'v option" where
  "ctx_get key ty r = (case req_context r key of None \<Rightarrow> None
     | Some (ty', v) \<Rightarrow> if ty' = ty then Some v else None)"

subsection \<open>Typed path parameters\<close>

text \<open>
  \<^verbatim>\<open>std::from_chars\<close> for an integer type of the given width: an optional minus sign for a
  signed type, then decimal digits; the result is the value and the number of characters
  consumed, or no value for no digits or for a value out of range.
\<close>

definition from_chars_int :: "bool \<Rightarrow> nat \<Rightarrow> string \<Rightarrow> (int \<times> nat) option" where
  "from_chars_int sg width s =
     (let neg = (sg \<and> s \<noteq> [] \<and> hd s = CHR ''-'');
          t = (if neg then tl s else s);
          digits = takeWhile is_digit t;
          v = (if neg then - int (digits_value digits) else int (digits_value digits));
          lo = (if sg then - (2 ^ (width - 1)) else 0);
          hi = (if sg then 2 ^ (width - 1) else 2 ^ width) in
      if digits = [] then None
      else if v < lo \<or> hi \<le> v then None
      else Some (v, (if neg then 1 else 0) + length digits))"

definition param_string :: "string \<Rightarrow> ('ty, 'v) request_impl \<Rightarrow> ParamError + string" where
  "param_string name r = (case req_params r name of None \<Rightarrow> Inl ParamNotFound | Some raw \<Rightarrow> Inr raw)"

definition param_int :: "bool \<Rightarrow> nat \<Rightarrow> string \<Rightarrow> ('ty, 'v) request_impl \<Rightarrow> ParamError + int" where
  "param_int sg width name r =
     (case req_params r name of
        None \<Rightarrow> Inl ParamNotFound
      | Some raw \<Rightarrow>
          (case from_chars_int sg width raw of
             None \<Rightarrow> Inl BadConversion
           | Some (v, n) \<Rightarrow> if n \<noteq> length raw then Inl BadConversion else Inr v))"

subsection \<open>The public accessors\<close>

text \<open>A request that was moved from has no implementation; \<open>None\<close> of the last three is a null dereference.\<close>

definition req_valid :: "('ty, 'v) request_impl option \<Rightarrow> bool" where
  "req_valid r \<longleftrightarrow> r \<noteq> None"

definition req_id :: "('ty, 'v) request_impl option \<Rightarrow> string" where
  "req_id r = (case r of None \<Rightarrow> [] | Some i \<Rightarrow> request_id i)"

definition req_path :: "('ty, 'v) request_impl option \<Rightarrow> string option" where
  "req_path r = map_option path_view r"

definition req_query :: "('ty, 'v) request_impl option \<Rightarrow> string option" where
  "req_query r = map_option query_view r"

definition req_body :: "('ty, 'v) request_impl option \<Rightarrow> octets option" where
  "req_body r = map_option (\<lambda>i. pr_body (req_parsed i)) r"

text \<open>Path and query are the target, cut at its first question mark.\<close>

lemma path_query_target:
  fixes r :: "('ty, 'v) request_impl" and p ps
  defines "r \<equiv> make_request p ps"
  shows "pr_target p = path_view r @ (if CHR ''?'' \<in> set (pr_target p) then CHR ''?'' # query_view r else [])"
    and "CHR ''?'' \<notin> set (path_view r)"
proof -
  note f = before_from_first [of "CHR ''?''" "pr_target p"] from_first_Nil_iff [of "CHR ''?''" "pr_target p"]
  show "CHR ''?'' \<notin> set (path_view r)" using f by (auto simp: r_def make_request_def Let_def)
  show "pr_target p = path_view r @ (if CHR ''?'' \<in> set (pr_target p) then CHR ''?'' # query_view r else [])"
  proof (cases "from_first (CHR ''?'') (pr_target p)")
    case (Cons x xs)
    then show ?thesis using f from_first_Cons [OF Cons] by (simp add: r_def make_request_def Let_def)
  qed (use f in \<open>simp add: r_def make_request_def Let_def\<close>)
qed

subsection \<open>WebSocket upgrade\<close>

definition ws_iequal :: "string \<Rightarrow> string \<Rightarrow> bool" where
  "ws_iequal a b =
     (if length a \<noteq> length b then False
      else list_all2 (\<lambda>x y. ascii_lower x = ascii_lower y) a b)"

definition ws_icontains :: "string \<Rightarrow> string \<Rightarrow> bool" where
  "ws_icontains haystack needle =
     (if needle = [] then True
      else if length haystack < length needle then False
      else list_ex (\<lambda>i. ws_iequal (take (length needle) (drop i haystack)) needle)
             [0..<Suc (length haystack - length needle)])"

definition ws_find_header :: "(string \<times> string) list \<Rightarrow> string \<Rightarrow> string" where
  "ws_find_header headers name =
     (case List.find (\<lambda>(hname, _). ws_iequal hname name) headers of None \<Rightarrow> [] | Some (_, hval) \<Rightarrow> hval)"

definition is_websocket_upgrade :: "('ty, 'v) request_impl option \<Rightarrow> bool" where
  "is_websocket_upgrade r = (case r of None \<Rightarrow> False
     | Some i \<Rightarrow>
         (let headers = pr_headers (req_parsed i) in
          if \<not> ws_iequal (ws_find_header headers ''Upgrade'') ''websocket'' then False
          else if \<not> ws_icontains (ws_find_header headers ''Connection'') ''upgrade'' then False
          else if ws_find_header headers ''Sec-WebSocket-Key'' = [] then False
          else True))"

definition handshake_headers :: "(string \<times> string) list \<Rightarrow> HandshakeHeaders" where
  "handshake_headers headers = \<lparr>hs_upgrade = ws_find_header headers ''Upgrade'',
     hs_connection = ws_find_header headers ''Connection'',
     hs_key = ws_find_header headers ''Sec-WebSocket-Key''\<rparr>"

text \<open>
  \<^verbatim>\<open>Request::upgrade_websocket\<close>: the stream reference may be absent, writing the 101 response
  may fail, and the iteration order of the parameter map is an argument. The result is the
  error or what the session is created with, and the text written to the stream, if any.
\<close>

record session_args =
  sa_max_payload :: nat
  sa_has_bus :: bool
  sa_remote_addr :: string
  sa_initial_topic :: string

definition upgrade_response :: "string \<Rightarrow> string" where
  "upgrade_response accept_key =
     ''HTTP/1.1 101 Switching Protocols'' @ crlf
     @ ''Upgrade: websocket'' @ crlf
     @ ''Connection: Upgrade'' @ crlf
     @ ''Sec-WebSocket-Accept: '' @ accept_key @ crlf @ crlf"

definition no_stream_error :: ws_error where
  "no_stream_error = \<lparr>ws_code = InvalidHandshake, ws_message = ''No TcpStream available for upgrade''\<rparr>"

definition upgrade_websocket :: "((string \<rightharpoonup> string) \<Rightarrow> (string \<times> string) list) \<Rightarrow> ('ty, 'v) request_impl option
    \<Rightarrow> bool \<Rightarrow> (ws_error + session_args) \<times> string option" where
  "upgrade_websocket iter r write_ok =
     (case r of
        None \<Rightarrow> (Inl no_stream_error, None)
      | Some i \<Rightarrow>
          if \<not> req_stream i then (Inl no_stream_error, None)
          else
            (let hs_headers = handshake_headers (pr_headers (req_parsed i)) in
             case validate hs_headers of
               Inl e \<Rightarrow> (Inl e, None)
             | Inr _ \<Rightarrow>
                 (let response_str = upgrade_response (compute_accept_key (hs_key hs_headers)) in
                  if \<not> write_ok then
                    (Inl \<lparr>ws_code = SendFailed, ws_message = ''Failed to write HTTP 101 response''\<rparr>, Some response_str)
                  else
                    (let remote_addr = (case req_params i ''__remote_addr__'' of Some a \<Rightarrow> a | None \<Rightarrow> []);
                         initial_topic = (case List.find (\<lambda>(k, v). k \<noteq> [] \<and> hd k \<noteq> CHR ''_'') (iter (req_params i)) of
                           Some (_, v) \<Rightarrow> v | None \<Rightarrow> [])
                     in (Inr \<lparr>sa_max_payload = req_max_payload i, sa_has_bus = req_topic_bus i, sa_remote_addr = remote_addr,
                              sa_initial_topic = initial_topic\<rparr>, Some response_str)))))"

text \<open>The request after the call: the stream of an upgraded one was moved into the session.\<close>

definition upgraded :: "ws_error + session_args \<Rightarrow> ('ty, 'v) request_impl \<Rightarrow> ('ty, 'v) request_impl" where
  "upgraded res r = (case res of Inl _ \<Rightarrow> r | Inr _ \<Rightarrow> clear_stream r)"

subsection \<open>Properties\<close>

lemma ws_iequal_eq: "ws_iequal a b = iequal a b"
  by (simp add: ws_iequal_def iequal_def)

lemma ws_icontains_eq: "ws_icontains a b = icontains a b"
  by (simp add: ws_icontains_def icontains_def ws_iequal_eq)

text \<open>
  The two upgrade checks agree: \<^verbatim>\<open>is_websocket_upgrade\<close> accepts a request exactly when the
  handshake validation of \<^verbatim>\<open>upgrade_websocket\<close> does, and on a connection with a working stream
  it is exactly then that the upgrade succeeds and the 101 response with the RFC 6455 accept key of
  the request's first Sec-WebSocket-Key header is written; a rejected upgrade writes nothing.
\<close>

lemma upgrade_iff_validate:
  assumes "req_stream r"
  shows "is_websocket_upgrade (Some r) = (validate (handshake_headers (pr_headers (req_parsed r))) = Inr ())
   \<and> (if is_websocket_upgrade (Some r)
      then (\<exists>args. upgrade_websocket iter (Some r) True
              = (Inr args, Some (upgrade_response (compute_accept_key
                   (ws_find_header (pr_headers (req_parsed r)) ''Sec-WebSocket-Key'')))))
      else (\<exists>e. upgrade_websocket iter (Some r) write_ok = (Inl e, None) \<and> ws_code e = InvalidHandshake))"
  using assms
  by (auto simp: is_websocket_upgrade_def handshake_headers_def validate_def handshake_error_def
      upgrade_websocket_def Let_def ws_iequal_eq ws_icontains_eq)

text \<open>A connection is upgraded once: a second call on the same request finds no stream.\<close>

lemma upgrade_once:
  assumes "upgrade_websocket iter (Some r) w = (res, out)"
  shows "upgrade_websocket iter' (Some (upgraded res r)) w' =
    (case res of Inr _ \<Rightarrow> (Inl no_stream_error, None) | Inl _ \<Rightarrow> upgrade_websocket iter' (Some r) w')"
  using assms by (cases res) (simp_all add: upgraded_def upgrade_websocket_def)

definition int_literal :: "bool \<Rightarrow> bool \<Rightarrow> string \<Rightarrow> string" where
  "int_literal sg neg ds = (if neg then ''-'' @ ds else ds)"

lemma takeWhile_digits: "list_all is_digit ds \<Longrightarrow> takeWhile is_digit ds = ds"
  by (simp add: list_all_iff takeWhile_eq_all_conv)

lemma digit_not_minus: "is_digit c \<Longrightarrow> c \<noteq> CHR ''-''"
  by (auto simp: is_digit_def)

lemma from_chars_literal:
  assumes "ds \<noteq> []" "list_all is_digit ds" "neg \<Longrightarrow> sg"
  defines "v \<equiv> (if neg then - int (digits_value ds) else int (digits_value ds))"
  shows "from_chars_int sg w (int_literal sg neg ds) =
    (if v < (if sg then - (2 ^ (w - 1)) else 0) \<or> (if sg then 2 ^ (w - 1) else 2 ^ w) \<le> v then None
     else Some (v, length (int_literal sg neg ds)))"
proof -
  have "ds \<noteq> [] \<Longrightarrow> hd ds \<noteq> CHR ''-''" using assms(2) digit_not_minus by (cases ds) auto
  then show ?thesis
    using assms(1-3) unfolding v_def
    by (simp add: from_chars_int_def int_literal_def takeWhile_digits Let_def)
qed

lemma from_chars_all:
  assumes "from_chars_int sg w raw = Some (v, length raw)"
  shows "\<exists>neg ds. raw = int_literal sg neg ds \<and> ds \<noteq> [] \<and> list_all is_digit ds \<and> (neg \<longrightarrow> sg)"
proof -
  define neg where "neg = (sg \<and> raw \<noteq> [] \<and> hd raw = CHR ''-'')"
  define ds where "ds = takeWhile is_digit (if neg then tl raw else raw)"
  from assms have ne: "ds \<noteq> []" and l: "length raw = (if neg then 1 else 0) + length ds"
    by (auto simp: from_chars_int_def Let_def neg_def ds_def split: if_splits)
  have d: "list_all is_digit ds" by (auto simp: ds_def list_all_iff dest: set_takeWhileD)
  have "length ds = length (if neg then tl raw else raw)"
    using l neg_def by (cases raw) auto
  then have "ds = (if neg then tl raw else raw)"
    unfolding ds_def by (metis takeWhile_eq_take take_all order_refl)
  then have "raw = int_literal sg neg ds"
    by (cases raw) (auto simp: neg_def int_literal_def split: if_splits)
  with ne d neg_def show ?thesis by blast
qed

text \<open>
  Integer path parameters: the conversion succeeds exactly for the decimal literals of the
  type (digits, after at most one minus sign for a signed type, and nothing else) whose value is in
  the range of its width, and yields that value; an absent name is \<open>NotFound\<close> and any other text
  \<open>BadConversion\<close>.
\<close>

theorem param_int_iff:
  "(param_int sg w name r = Inr v \<longleftrightarrow> (\<exists>neg ds. req_params r name = Some (int_literal sg neg ds)
       \<and> ds \<noteq> [] \<and> list_all is_digit ds \<and> (if neg then sg else True)
       \<and> v = (if neg then - int (digits_value ds) else int (digits_value ds))
       \<and> (if sg then - (2 ^ (w - 1)) else 0) \<le> v \<and> v < (if sg then 2 ^ (w - 1) else 2 ^ w)))
   \<and> (param_int sg w name r = Inl ParamNotFound \<longleftrightarrow> req_params r name = None)"
proof
  show "param_int sg w name r = Inl ParamNotFound \<longleftrightarrow> req_params r name = None"
    by (auto simp: param_int_def split: option.splits)
  show "param_int sg w name r = Inr v \<longleftrightarrow> (\<exists>neg ds. req_params r name = Some (int_literal sg neg ds)
       \<and> ds \<noteq> [] \<and> list_all is_digit ds \<and> (if neg then sg else True)
       \<and> v = (if neg then - int (digits_value ds) else int (digits_value ds))
       \<and> (if sg then - (2 ^ (w - 1)) else 0) \<le> v \<and> v < (if sg then 2 ^ (w - 1) else 2 ^ w))" (is "?l \<longleftrightarrow> ?r")
  proof
    assume ?l
    then obtain raw where raw: "req_params r name = Some raw" and f: "from_chars_int sg w raw = Some (v, length raw)"
      by (auto simp: param_int_def split: option.splits if_splits)
    from from_chars_all [OF f] obtain neg ds where
      d: "raw = int_literal sg neg ds" "ds \<noteq> []" "list_all is_digit ds" "neg \<Longrightarrow> sg" by blast
    from f d(1) from_chars_literal [OF d(2-4), where w = w] have
      "v = (if neg then - int (digits_value ds) else int (digits_value ds))"
      "(if sg then - (2 ^ (w - 1)) else 0) \<le> v \<and> v < (if sg then 2 ^ (w - 1) else 2 ^ w)"
      by (auto split: if_splits)
    with raw d show ?r by (intro exI [of _ neg] exI [of _ ds]) simp
  next
    assume ?r
    then obtain neg ds where d: "req_params r name = Some (int_literal sg neg ds)" "ds \<noteq> []" "list_all is_digit ds"
      "neg \<Longrightarrow> sg" and v: "v = (if neg then - int (digits_value ds) else int (digits_value ds))"
      and b: "(if sg then - (2 ^ (w - 1)) else 0) \<le> v \<and> v < (if sg then 2 ^ (w - 1) else 2 ^ w)"
      by (auto split: if_splits)
    have "from_chars_int sg w (int_literal sg neg ds) = Some (v, length (int_literal sg neg ds))"
      using from_chars_literal [OF d(2-4), where w = w] v b by (auto simp: not_less not_le)
    then show ?l by (simp add: param_int_def d(1))
  qed
qed

text \<open>Path and query are the two sides of the first question mark of the target.\<close>

theorem path_query_split:
  "CHR ''?'' \<notin> set (path_view (make_request pr ps))
   \<and> (pr_target pr = path_view (make_request pr ps)
        \<and> query_view (make_request pr ps) = []
      \<or> pr_target pr = path_view (make_request pr ps) @ ''?'' @ query_view (make_request pr ps))"
proof (cases "from_first (CHR ''?'') (pr_target pr)")
  case Nil
  then show ?thesis by (simp add: make_request_def Let_def from_first_Nil_iff)
next
  case (Cons x xs)
  have "pr_target pr = before (CHR ''?'') (pr_target pr) @ from_first (CHR ''?'') (pr_target pr)" by simp
  with Cons from_first_Cons [OF Cons] show ?thesis by (simp add: make_request_def Let_def)
qed
end
