(* ===== verification/Handler_Wrap.thy ===== *)
theory Handler_Wrap
  imports Request Route_Pattern
begin

text \<open>
  \<^verbatim>\<open>normalise_handler\<close> of \<^verbatim>\<open>src/router/handler_wrap.hpp\<close>: which overload the
  \<^verbatim>\<open>if constexpr\<close> chain selects for a handler signature, and the wrapper it builds, which
  extracts the parameters in order and answers 400 for the first one that is missing or does
  not convert. A handler is given by the types of its parameters after the request;
  \<^verbatim>\<open>std::is_invocable\<close> holds where every argument converts implicitly, as arithmetic types do
  among themselves and \<^verbatim>\<open>std::string\<close> does only to itself.
\<close>

datatype arg_type = TInt | TUInt | TFloat | TDouble | TString

definition implicitly_converts :: "arg_type \<Rightarrow> arg_type \<Rightarrow> bool" where
  "implicitly_converts from_ty to_ty \<longleftrightarrow> (from_ty = TString \<longleftrightarrow> to_ty = TString)"

definition is_invocable :: "arg_type list \<Rightarrow> arg_type list \<Rightarrow> bool" where
  "is_invocable handler args \<longleftrightarrow> list_all2 implicitly_converts args handler"

text \<open>The branches of the chain after the two without parameters, in order; \<open>None\<close> is the static assertion.\<close>

definition arity1_branches :: "arg_type list list" where
  "arity1_branches = [[TInt], [TUInt], [TFloat], [TDouble], [TString]]"

definition arity2_branches :: "arg_type list list" where
  "arity2_branches = [[TString, TInt], [TInt, TString], [TInt, TInt], [TString, TString]]"

definition selected_branch :: "arg_type list \<Rightarrow> arg_type list option" where
  "selected_branch handler =
     (if handler = [] then Some []
      else List.find (is_invocable handler) (arity1_branches @ arity2_branches))"

datatype arg_value = VInt int | VFloat string | VString string

text \<open>
  The extraction of one argument. Floating-point conversion is a parameter: the accepted text
  stands for its value.
\<close>

definition extract_arg :: "(string \<Rightarrow> bool) \<Rightarrow> arg_type \<Rightarrow> string \<Rightarrow> ('ty, 'v) request_impl \<Rightarrow> ParamError + arg_value" where
  "extract_arg is_float ty name r =
     (case ty of
        TInt \<Rightarrow> map_sum id VInt (param_int True 32 name r)
      | TUInt \<Rightarrow> map_sum id VInt (param_int False 32 name r)
      | TString \<Rightarrow> map_sum id VString (param_string name r)
      | _ \<Rightarrow> (case req_params r name of None \<Rightarrow> Inl ParamNotFound
               | Some raw \<Rightarrow> if is_float raw then Inr (VFloat raw) else Inl BadConversion))"

definition quoted :: "string \<Rightarrow> string" where
  "quoted s = [CHR 0x27] @ s @ [CHR 0x27]"

definition bad_param_text :: "nat \<Rightarrow> arg_type \<Rightarrow> string \<Rightarrow> string" where
  "bad_param_text arity ty name =
     ''bad param '' @ quoted name
     @ (case ty of
          TInt \<Rightarrow> '': expected int''
        | TUInt \<Rightarrow> '': expected uint''
        | TFloat \<Rightarrow> '': expected float''
        | TDouble \<Rightarrow> '': expected double''
        | TString \<Rightarrow> (if arity = 1 then '': not found'' else []))"

definition name_at :: "string list \<Rightarrow> nat \<Rightarrow> string" where
  "name_at param_names i = (if i < length param_names then param_names ! i else [])"

text \<open>
  The wrapper: all arguments are extracted, then checked from left to right; the answer is the
  400 response or the arguments the handler is called with.
\<close>

definition wrapped_call :: "(string \<Rightarrow> bool) \<Rightarrow> arg_type list \<Rightarrow> string list \<Rightarrow> ('ty, 'v) request_impl
    \<Rightarrow> response + arg_value list" where
  "wrapped_call is_float branch param_names r =
     (let vs = map (\<lambda>i. extract_arg is_float (branch ! i) (name_at param_names i) r) [0..<length branch] in
      case List.find (\<lambda>i. isl (vs ! i)) [0..<length branch] of
        Some i \<Rightarrow> Inl (bad_request (bad_param_text (length branch) (branch ! i) (name_at param_names i)))
      | None \<Rightarrow> Inr (map (\<lambda>v. case v of Inr x \<Rightarrow> x | Inl _ \<Rightarrow> VString []) vs))"

definition normalise_handler :: "(string \<Rightarrow> bool) \<Rightarrow> arg_type list \<Rightarrow> string list \<Rightarrow> ('ty, 'v) request_impl
    \<Rightarrow> (response + arg_value list) option" where
  "normalise_handler is_float handler param_names r =
     map_option (\<lambda>branch. wrapped_call is_float branch param_names r) (selected_branch handler)"

subsection \<open>Properties\<close>

definition as_int :: "arg_type \<Rightarrow> arg_type" where
  "as_int ty = (if ty = TString then TString else TInt)"

lemma selected_branch_as_int:
  assumes "length handler \<le> 2"
  shows "selected_branch handler = Some (map as_int handler)"
proof -
  consider "handler = []" | a where "handler = [a]" | a b where "handler = [a, b]"
    using assms by (cases handler; cases "tl handler") auto
  then show ?thesis
  proof cases
    case (2 a)
    then show ?thesis
      by (cases a) (simp_all add: selected_branch_def arity1_branches_def is_invocable_def
          implicitly_converts_def as_int_def)
  next
    case (3 a b)
    then show ?thesis
      by (cases a; cases b) (simp_all add: selected_branch_def arity1_branches_def arity2_branches_def is_invocable_def
          implicitly_converts_def as_int_def)
  qed (simp add: selected_branch_def)
qed

lemma find_upt_None: "List.find P [0..<n] = None \<longleftrightarrow> (\<forall>i < n. \<not> P i)"
  by (auto simp: find_None_iff)

text \<open>
  For every handler of at most two parameters the wrapper reads each arithmetic parameter as a
  32-bit \<^verbatim>\<open>int\<close>, whatever arithmetic type the handler declares, and each string parameter as is: the
  handler runs exactly when all of them convert this way, and otherwise the answer is a 400. So
  the branches for unsigned, float and double are never selected.
\<close>

lemma normalise_handler_reads_int:
  assumes "length handler \<le> 2"
  shows "case normalise_handler is_float handler names r of
      None \<Rightarrow> False
    | Some (Inr args) \<Rightarrow> length args = length handler \<and> (\<forall>i < length handler.
        (if handler ! i = TString
         then (\<exists>s. param_string (name_at names i) r = Inr s \<and> args ! i = VString s)
         else (\<exists>n. param_int True 32 (name_at names i) r = Inr n \<and> args ! i = VInt n)))
    | Some (Inl resp) \<Rightarrow> response_status resp = 400 \<and> (\<exists>i < length handler. \<exists>e.
        (if handler ! i = TString
         then param_string (name_at names i) r = Inl e else param_int True 32 (name_at names i) r = Inl e))"
proof -
  let ?b = "map as_int handler"
  let ?vs = "map (\<lambda>i. extract_arg is_float (?b ! i) (name_at names i) r) [0..<length ?b]"
  have n: "normalise_handler is_float handler names r = Some (wrapped_call is_float ?b names r)"
    by (simp add: normalise_handler_def selected_branch_as_int [OF assms])
  have e: "extract_arg is_float (?b ! i) (name_at names i) r =
      (if handler ! i = TString then map_sum id VString (param_string (name_at names i) r)
       else map_sum id VInt (param_int True 32 (name_at names i) r))" if "i < length handler" for i
    using that by (simp add: extract_arg_def as_int_def)
  show ?thesis
  proof (cases "List.find (\<lambda>i. isl (?vs ! i)) [0..<length ?b]")
    case None
    then have ok: "\<exists>x. ?vs ! i = Inr x" if "i < length handler" for i
      using that by (cases "?vs ! i") (auto simp: find_upt_None)
    have w: "wrapped_call is_float ?b names r = Inr (map (\<lambda>v. case v of Inr x \<Rightarrow> x | Inl _ \<Rightarrow> VString []) ?vs)"
      unfolding wrapped_call_def Let_def None by simp
    let ?args = "map (\<lambda>v. case v of Inr x \<Rightarrow> x | Inl _ \<Rightarrow> VString []) ?vs"
    have "if handler ! i = TString
         then (\<exists>s. param_string (name_at names i) r = Inr s \<and> ?args ! i = VString s)
         else (\<exists>n. param_int True 32 (name_at names i) r = Inr n \<and> ?args ! i = VInt n)"
      if i: "i < length handler" for i
    proof -
      obtain x where x: "extract_arg is_float (?b ! i) (name_at names i) r = Inr x" using ok [OF i] i by auto
      then have a: "?args ! i = x" using i by simp
      show ?thesis
      proof (cases "handler ! i = TString")
        case True
        with x e [OF i] show ?thesis unfolding a by (cases "param_string (name_at names i) r") auto
      next
        case False
        with x e [OF i] show ?thesis unfolding a by (cases "param_int True 32 (name_at names i) r") auto
      qed
    qed
    moreover have "length ?args = length handler" by simp
    ultimately show ?thesis unfolding n w option.case sum.case by blast
  next
    case (Some i)
    then have i: "i < length handler" and bad: "\<exists>e. ?vs ! i = Inl e" by (auto simp: find_Some_iff isl_def)
    have w: "\<exists>t. wrapped_call is_float ?b names r = Inl (bad_request t)"
      unfolding wrapped_call_def Let_def Some option.case by blast
    have "\<exists>e. (if handler ! i = TString then param_string (name_at names i) r = Inl e
        else param_int True 32 (name_at names i) r = Inl e)"
      using bad e [OF i] i
      by (cases "param_string (name_at names i) r"; cases "param_int True 32 (name_at names i) r") (auto split: if_splits)
    with i have "\<exists>i < length handler. \<exists>e. (if handler ! i = TString then param_string (name_at names i) r = Inl e
        else param_int True 32 (name_at names i) r = Inl e)" by blast
    moreover from w obtain t where "wrapped_call is_float ?b names r = Inl (bad_request t)" by blast
    moreover have "response_status (bad_request t) = 400"
      by (simp add: bad_request_def make_response_def response_status_def status_consts)
    ultimately show ?thesis unfolding n by simp
  qed
qed

end
