(* ===== verification/Pipeline.thy ===== *)
theory Pipeline
  imports Router Response
begin

text \<open>
  \<^verbatim>\<open>dispatch_with_pipeline\<close> of \<^verbatim>\<open>src/router/app_impl.cpp\<close>: the scoped middleware whose
  prefix covers the path, and the two reverse passes that wrap the chain. A handler is a
  computation over a state (everything handlers and middleware can observe or change); a
  middleware receives the request and the rest of the chain. Calling the rest of the chain more
  than once moves from a consumed function object in the source and is outside the model.
\<close>

type_synonym ('r, 's) handler = "'r \<Rightarrow> 's \<Rightarrow> response \<times> 's"
type_synonym ('r, 's) middleware = "'r \<Rightarrow> ('r, 's) handler \<Rightarrow> 's \<Rightarrow> response \<times> 's"

text \<open>\<^verbatim>\<open>Middleware::operator()\<close>: an empty function object answers 400.\<close>

definition call_middleware :: "('r, 's) middleware option \<Rightarrow> ('r, 's) middleware" where
  "call_middleware fn req nxt s =
     (case fn of None \<Rightarrow> (bad_request ''Internal middleware error'', s) | Some f \<Rightarrow> f req nxt s)"

definition prefix_matches :: "string \<Rightarrow> string \<Rightarrow> bool" where
  "prefix_matches prefix path \<longleftrightarrow>
     starts_with path prefix \<and> (length prefix = length path \<or> path ! length prefix = CHR ''/'')"

definition matching_scoped :: "string \<Rightarrow> (string \<times> ('r, 's) middleware) list \<Rightarrow> ('r, 's) middleware list" where
  "matching_scoped path scoped_mw = map snd (filter (\<lambda>(prefix, _). prefix_matches prefix path) scoped_mw)"

definition wrap_reverse :: "('r, 's) middleware list \<Rightarrow> ('r, 's) handler \<Rightarrow> ('r, 's) handler" where
  "wrap_reverse mws next0 = foldl (\<lambda>nxt mw. (\<lambda>r. mw r nxt)) next0 (rev mws)"

definition dispatch_with_pipeline :: "('r \<Rightarrow> string) \<Rightarrow> ('r, 's) handler \<Rightarrow> ('r, 's) middleware list
    \<Rightarrow> (string \<times> ('r, 's) middleware) list \<Rightarrow> ('r, 's) handler" where
  "dispatch_with_pipeline path_of router_dispatch global_mw scoped_mw req =
     (if global_mw = [] \<and> scoped_mw = [] then router_dispatch req
      else
        let nxt = wrap_reverse (matching_scoped (path_of req) scoped_mw) router_dispatch;
            nxt = wrap_reverse global_mw nxt in
        nxt req)"

text \<open>What \<^verbatim>\<open>Router::dispatch\<close> answers for each outcome of the route lookup.\<close>

definition dispatch_response :: "('r \<Rightarrow> (string \<rightharpoonup> string) \<Rightarrow> 'r) \<Rightarrow> (('r, 's) handler) dispatch_result \<Rightarrow> ('r, 's) handler" where
  "dispatch_response set_params res req =
     (case res of
        Invoke h ps \<Rightarrow> h (set_params req ps)
      | MethodNotAllowed allow \<Rightarrow> (\<lambda>s. (set_header ''Allow'' allow (method_not_allowed []), s))
      | NotFound \<Rightarrow> (\<lambda>s. (not_found ''404 Not Found'', s))
      | UnknownMethod \<Rightarrow> (\<lambda>s. (bad_request ''Unknown HTTP method'', s)))"

subsection \<open>Properties\<close>

lemma wrap_reverse_foldr: "wrap_reverse mws h = foldr (\<lambda>mw nxt. (\<lambda>r. mw r nxt)) mws h"
  by (simp add: wrap_reverse_def foldr_conv_foldl)

lemma pipeline_foldr:
  "dispatch_with_pipeline path_of h gs ss req
     = foldr (\<lambda>mw nxt. (\<lambda>r. mw r nxt)) (gs @ matching_scoped (path_of req) ss) h req"
  by (simp add: dispatch_with_pipeline_def wrap_reverse_foldr matching_scoped_def Let_def)

datatype trace_event = Enter nat | Exit nat | Reached

text \<open>A middleware that records its number before and after the rest of the chain.\<close>

definition tracing :: "nat \<Rightarrow> ('r, trace_event list) middleware" where
  "tracing i r nxt log = (let (resp, log') = nxt r (log @ [Enter i]) in (resp, log' @ [Exit i]))"

definition tracing_handler :: "response \<Rightarrow> ('r, trace_event list) handler" where
  "tracing_handler resp r log = (resp, log @ [Reached])"

lemma tracing_chain:
  "foldr (\<lambda>mw nxt. (\<lambda>r. mw r nxt)) (map tracing is1) h r log
     = (let (resp, log') = h r (log @ map Enter is1) in (resp, log' @ rev (map Exit is1)))"
  by (induction is1 arbitrary: log) (auto simp: tracing_def split: prod.splits)

text \<open>
  Claim C21. The pipeline is an onion: global middleware in registration order, then the scoped
  middleware whose prefix covers the path in registration order, then the route; responses pass back in
  reverse. A middleware that answers without calling the rest of the chain stops it: nothing
  registered after it runs. A prefix covers exactly the path equal to it and the paths that continue
  it with a slash.
\<close>

theorem pipeline_onion:
  fixes gs :: "nat list" and ss :: "(string \<times> nat) list"
  shows "dispatch_with_pipeline path_of (tracing_handler resp) (map tracing gs) (map (\<lambda>(p, i). (p, tracing i)) ss) req []
      = (let order = gs @ map snd (filter (\<lambda>(p, _). prefix_matches p (path_of req)) ss) in
         (resp, map Enter order @ [Reached] @ rev (map Exit order)))
    \<and> dispatch_with_pipeline path_of h (map tracing gs @ (\<lambda>r nxt log. (early, log)) # more_gs) more_ss req []
      = (early, map Enter gs @ rev (map Exit gs))
    \<and> (prefix_matches prefix path \<longleftrightarrow> path = prefix \<or> (\<exists>rest. path = prefix @ ''/'' @ rest))"
proof (intro conjI)
  have m: "matching_scoped p (map (\<lambda>(p, i). (p, tracing i)) ss)
      = map tracing (map snd (filter (\<lambda>(q, _). prefix_matches q p) ss))" for p
    by (induction ss) (auto simp: matching_scoped_def)
  show "dispatch_with_pipeline path_of (tracing_handler resp) (map tracing gs) (map (\<lambda>(p, i). (p, tracing i)) ss) req []
      = (let order = gs @ map snd (filter (\<lambda>(p, _). prefix_matches p (path_of req)) ss) in
         (resp, map Enter order @ [Reached] @ rev (map Exit order)))"
    unfolding pipeline_foldr m map_append [symmetric] tracing_chain
    by (simp add: tracing_handler_def Let_def)
  show "dispatch_with_pipeline path_of h (map tracing gs @ (\<lambda>r nxt log. (early, log)) # more_gs) more_ss req []
      = (early, map Enter gs @ rev (map Exit gs))"
    unfolding pipeline_foldr
    by (simp del: map_map foldr_map add: foldr_append tracing_chain)
  show "prefix_matches prefix path \<longleftrightarrow> path = prefix \<or> (\<exists>rest. path = prefix @ ''/'' @ rest)"
  proof
    assume p: "prefix_matches prefix path"
    then obtain r where r: "path = prefix @ r" by (auto simp: prefix_matches_def starts_with_iff)
    with p show "path = prefix \<or> (\<exists>rest. path = prefix @ ''/'' @ rest)"
      by (cases r) (auto simp: prefix_matches_def)
  qed (auto simp: prefix_matches_def starts_with_iff)
qed

text \<open>
  A prefix registered with a trailing slash covers no path below it, although the path starts
  with the prefix.
\<close>

theorem trailing_slash_prefix_dead:
  "starts_with ''/api/users'' ''/api/'' \<and> \<not> prefix_matches ''/api/'' ''/api/users''
   \<and> starts_with ''/users'' ''/'' \<and> \<not> prefix_matches ''/'' ''/users''"
  by (simp add: starts_with_def prefix_matches_def)

end
