(* ===== verification/Router_Api.thy ===== *)
theory Router_Api
  imports Router Handler_Wrap Pipeline
begin

text \<open>
  The registration templates of \<^verbatim>\<open>include/aevox/router_impl.hpp\<close>, from the pattern and the typed handler of
  the program to the trie, and what a request to the finished router is answered. \<open>None\<close> is a program
  that does not compile or terminates while it registers.
\<close>

type_synonym 's user_request = "(nat, nat) request_impl"
type_synonym 's typed_body = "arg_value list \<Rightarrow> (nat, nat) request_impl \<Rightarrow> 's \<Rightarrow> response \<times> 's"
type_synonym 's route_trie = "((nat, nat) request_impl, 's) handler trie_node"

definition typed_handler :: "(string \<Rightarrow> bool) \<Rightarrow> arg_type list \<Rightarrow> 's typed_body \<Rightarrow> string list
    \<Rightarrow> ((nat, nat) request_impl, 's) handler option" where
  "typed_handler is_float sig f names =
     map_option (\<lambda>branch req s. case wrapped_call is_float branch names req of
         Inl resp \<Rightarrow> (resp, s)
       | Inr args \<Rightarrow> f args req s) (selected_branch sig)"

definition router_route :: "(string \<Rightarrow> bool) \<Rightarrow> HttpMethod \<Rightarrow> string \<Rightarrow> arg_type list \<Rightarrow> 's typed_body
    \<Rightarrow> router \<Rightarrow> 's route_trie \<Rightarrow> 's route_trie option" where
  "router_route is_float m pattern sig f r t =
     (case parse_pattern pattern of
        None \<Rightarrow> None
      | Some segs \<Rightarrow> (case typed_handler is_float sig f (extract_param_names segs) of
          None \<Rightarrow> None
        | Some h \<Rightarrow> register_route t r m segs h))"

definition router_get :: "(string \<Rightarrow> bool) \<Rightarrow> string \<Rightarrow> arg_type list \<Rightarrow> 's typed_body \<Rightarrow> router \<Rightarrow> 's route_trie \<Rightarrow> 's route_trie option" where
  "router_get is_float = router_route is_float GET"

definition router_post :: "(string \<Rightarrow> bool) \<Rightarrow> string \<Rightarrow> arg_type list \<Rightarrow> 's typed_body \<Rightarrow> router \<Rightarrow> 's route_trie \<Rightarrow> 's route_trie option" where
  "router_post is_float = router_route is_float POST"

definition router_put :: "(string \<Rightarrow> bool) \<Rightarrow> string \<Rightarrow> arg_type list \<Rightarrow> 's typed_body \<Rightarrow> router \<Rightarrow> 's route_trie \<Rightarrow> 's route_trie option" where
  "router_put is_float = router_route is_float PUT"

definition router_patch :: "(string \<Rightarrow> bool) \<Rightarrow> string \<Rightarrow> arg_type list \<Rightarrow> 's typed_body \<Rightarrow> router \<Rightarrow> 's route_trie \<Rightarrow> 's route_trie option" where
  "router_patch is_float = router_route is_float PATCH"

definition router_del :: "(string \<Rightarrow> bool) \<Rightarrow> string \<Rightarrow> arg_type list \<Rightarrow> 's typed_body \<Rightarrow> router \<Rightarrow> 's route_trie \<Rightarrow> 's route_trie option" where
  "router_del is_float = router_route is_float DELETE"

definition router_options :: "(string \<Rightarrow> bool) \<Rightarrow> string \<Rightarrow> arg_type list \<Rightarrow> 's typed_body \<Rightarrow> router \<Rightarrow> 's route_trie \<Rightarrow> 's route_trie option" where
  "router_options is_float = router_route is_float OPTIONS"

text \<open>A program's routes, registered in order on the main router, and the answer to a request.\<close>

type_synonym 's typed_route = "HttpMethod \<times> string \<times> arg_type list \<times> 's typed_body"

definition register_all :: "(string \<Rightarrow> bool) \<Rightarrow> 's typed_route list \<Rightarrow> 's route_trie option" where
  "register_all is_float rs =
     foldl (\<lambda>t (m, p, sig, f). Option.bind t (router_route is_float m p sig f main_router)) (Some empty_root) rs"

definition set_params :: "(nat, nat) request_impl \<Rightarrow> (string \<rightharpoonup> string) \<Rightarrow> (nat, nat) request_impl" where
  "set_params req ps = req\<lparr>req_params := ps\<rparr>"

definition serve :: "'s route_trie \<Rightarrow> ((nat, nat) request_impl, 's) handler" where
  "serve t req = dispatch_response set_params (dispatch t main_router (req_method req) (path_view req)) req"

text \<open>The routes as the trie sees them: segments, method and wrapped handler.\<close>

definition route_of :: "(string \<Rightarrow> bool) \<Rightarrow> 's typed_route \<Rightarrow> ((nat, nat) request_impl, 's) handler route option" where
  "route_of is_float tr = (case tr of (m, p, sig, f) \<Rightarrow> (case parse_pattern p of
       None \<Rightarrow> None
     | Some segs \<Rightarrow> map_option (\<lambda>h. (segs, m, h)) (typed_handler is_float sig f (extract_param_names segs))))"

lemma register_all_build:
  assumes "register_all is_float rs = Some t"
  shows "\<exists>routes. map (route_of is_float) rs = map Some routes \<and> t = build_routes routes \<and> list_all (\<lambda>(_, m, _). m \<noteq> Unknown) routes"
  using assms
proof (induction rs arbitrary: t rule: rev_induct)
  case Nil
  then show ?case by (simp add: register_all_def build_routes_def)
next
  case (snoc tr rs)
  obtain m p sig f where tr: "tr = (m, p, sig, f)" by (cases tr)
  from snoc.prems tr obtain t0 where t0: "register_all is_float rs = Some t0" "router_route is_float m p sig f main_router t0 = Some t"
    by (auto simp: register_all_def bind_eq_Some_conv)
  then obtain routes where r: "map (route_of is_float) rs = map Some routes" "t0 = build_routes routes" "list_all (\<lambda>(_, m, _). m \<noteq> Unknown) routes"
    using snoc.IH by blast
  from t0(2) obtain segs h where h: "parse_pattern p = Some segs" "typed_handler is_float sig f (extract_param_names segs) = Some h"
    "method_index m < kMethodCount" "t = insert_route t0 segs m h"
    by (auto simp: router_route_def register_route_def main_router_def split: option.splits if_splits)
  have "m \<noteq> Unknown" using h(3) by (auto simp: kMethodCount_def)
  moreover have "route_of is_float tr = Some (segs, m, h)" using h by (simp add: tr route_of_def)
  ultimately show ?case using r(1,3) h(4) by (intro exI [of _ "routes @ [(segs, m, h)]"]) (simp add: r(2) build_routes_def)
qed


text \<open>What a typed handler does: call the body with the readings of its parameters, or answer 400.\<close>

definition reads_args :: "arg_type list \<Rightarrow> string list \<Rightarrow> (nat, nat) request_impl \<Rightarrow> arg_value list \<Rightarrow> bool" where
  "reads_args sig names req args \<longleftrightarrow> length args = length sig \<and> (\<forall>i < length sig.
     (if sig ! i = TString then (\<exists>v. param_string (name_at names i) req = Inr v \<and> args ! i = VString v)
      else (\<exists>n. param_int True 32 (name_at names i) req = Inr n \<and> args ! i = VInt n)))"

lemma typed_handler_call:
  assumes "typed_handler is_float sig f names = Some h" "length sig \<le> 2"
  shows "(\<exists>args. reads_args sig names req args \<and> h req s = f args req s)
    \<or> (response_status (fst (h req s)) = 400 \<and> snd (h req s) = s)"
proof -
  from assms(1) obtain branch where b: "selected_branch sig = Some branch"
    "h = (\<lambda>req s. case wrapped_call is_float branch names req of Inl resp \<Rightarrow> (resp, s) | Inr args \<Rightarrow> f args req s)"
    by (auto simp: typed_handler_def)
  then have n: "normalise_handler is_float sig names req = Some (wrapped_call is_float branch names req)"
    by (simp add: normalise_handler_def)
  show ?thesis
    using normalise_handler_reads_int [OF assms(2), where is_float = is_float and names = names and r = req]
    by (cases "wrapped_call is_float branch names req") (auto simp: n b(2) reads_args_def)
qed

lemma route_of_Some:
  "route_of is_float tr = Some (segs, m, h) \<longleftrightarrow> (\<exists>p sig f. tr = (m, p, sig, f) \<and> parse_pattern p = Some segs
     \<and> typed_handler is_float sig f (extract_param_names segs) = Some h)"
  by (cases tr) (auto simp: route_of_def split: option.splits)

lemma status_not_allowed: "response_status (set_header k v (method_not_allowed b)) = 405"
  by (simp add: response_status_def set_header_def method_not_allowed_def make_response_def status_consts)

lemma status_not_found: "response_status (not_found b) = 404" "response_status (bad_request b) = 400"
  by (simp_all add: response_status_def not_found_def bad_request_def make_response_def status_consts)

text \<open>
  The answer came from a typed body: that of a route with the method of the request whose pattern
  matches the path, on the request with the captured parameters, with these read as its arguments.
\<close>

definition runs_route :: "'s typed_route list \<Rightarrow> (nat, nat) request_impl \<Rightarrow> 's \<Rightarrow> response \<times> 's \<Rightarrow> bool" where
  "runs_route rs req s out \<longleftrightarrow> (\<exists>p sig f segs vals args. (req_method req, p, sig, f) \<in> set rs \<and> parse_pattern p = Some segs
      \<and> match_keys (map seg_key segs) (split_path (path_view req)) = Some vals
      \<and> length vals = length (extract_param_names segs)
      \<and> (let req' = set_params req (emplace_all (zip (extract_param_names segs) vals)) in
           reads_args sig (extract_param_names segs) req' args \<and> out = f args req' s))"

lemma serve_answer:
  assumes "register_all is_float rs = Some t"
    and "map (route_of is_float) rs = map Some routes" "consistent_names routes"
    and "list_all (\<lambda>(m, p, sig, f). length sig \<le> 2) rs"
  shows "runs_route rs req s (serve t req s)
    \<or> (response_status (fst (serve t req s)) \<in> {400, 404, 405} \<and> snd (serve t req s) = s)"
proof -
  obtain routes' where "map (route_of is_float) rs = map Some routes'" and t: "t = build_routes routes'"
    and ok: "list_all (\<lambda>(_, m, _). m \<noteq> Unknown) routes'" using register_all_build [OF assms(1)] by blast
  then have r: "routes' = routes" using assms(2) by (simp add: inj_map_eq_map)
  note d = dispatch_answer [OF ok [unfolded r] assms(3), of "req_method req" "path_view req"]
  show ?thesis
  proof (cases "dispatch t main_router (req_method req) (path_view req)")
    case (Invoke h ps)
    then obtain segs vals where v: "(segs, req_method req, h) \<in> set routes"
      "match_keys (map seg_key segs) (split_path (path_view req)) = Some vals"
      "length vals = length (extract_param_names segs)" "ps = emplace_all (zip (extract_param_names segs) vals)"
      using d by (auto simp: t r)
    then have "Some (segs, req_method req, h) \<in> set (map (route_of is_float) rs)" unfolding assms(2) by simp
    then obtain tr where "tr \<in> set rs" "route_of is_float tr = Some (segs, req_method req, h)" by auto
    then obtain p sig f where rt: "(req_method req, p, sig, f) \<in> set rs" "parse_pattern p = Some segs"
      "typed_handler is_float sig f (extract_param_names segs) = Some h"
      by (auto simp: route_of_Some)
    then have l: "length sig \<le> 2" using assms(4) by (auto simp: list_all_iff)
    let ?q = "set_params req ps"
    have sv: "serve t req s = h ?q s" by (simp add: serve_def Invoke dispatch_response_def)
    from typed_handler_call [OF rt(3) l, of ?q s] show ?thesis
    proof
      assume "\<exists>args. reads_args sig (extract_param_names segs) ?q args \<and> h ?q s = f args ?q s"
      then obtain args where "reads_args sig (extract_param_names segs) ?q args" "serve t req s = f args ?q s" using sv by auto
      with rt(1,2) v(2,3) show ?thesis unfolding runs_route_def v(4) Let_def by blast
    qed (simp add: sv)
  qed (simp_all add: serve_def dispatch_response_def status_not_found status_not_allowed)
qed

text \<open>
  Claim C25. Routes reach their typed handlers: when a program has registered its routes with \<^verbatim>\<open>get\<close>, \<^verbatim>\<open>post\<close> and so
  on, with handlers of at most two parameters and patterns that name the parameter at a place alike,
  a request is answered in one of two ways. Either the body of a registered route runs, whose method
  is the request's and whose pattern matches the path, on the request with the captured parameters,
  and its arguments are these parameters read in order, an arithmetic one as a 32-bit \<^verbatim>\<open>int\<close> whatever
  arithmetic type the handler declares; or no body runs and the answer is 400, 404 or 405.
\<close>

theorem typed_routes_served:
  assumes "register_all is_float rs = Some t"
    and "map (route_of is_float) rs = map Some routes" "consistent_names routes"
    and "list_all (\<lambda>(m, p, sig, f). length sig \<le> 2) rs"
  shows "(\<exists>p sig f segs vals args. (req_method req, p, sig, f) \<in> set rs \<and> parse_pattern p = Some segs
      \<and> match_keys (map seg_key segs) (split_path (path_view req)) = Some vals
      \<and> length vals = length (extract_param_names segs)
      \<and> (let req' = set_params req (emplace_all (zip (extract_param_names segs) vals)) in
           reads_args sig (extract_param_names segs) req' args \<and> serve t req s = f args req' s))
    \<or> (response_status (fst (serve t req s)) \<in> {400, 404, 405} \<and> snd (serve t req s) = s)"
  using serve_answer [OF assms, of req s] unfolding runs_route_def .

definition sample_api :: "nat typed_route list" where
  "sample_api =
     [(GET, ''/users/{id:int}'', [TDouble], \<lambda>args req s. (ok ''user'', s + (case args of [VInt n] \<Rightarrow> nat n | _ \<Rightarrow> 0))),
      (POST, ''/users'', [], \<lambda>args req s. (created [], s + 1))]"

lemma sample_api_registered:
  "\<exists>t h1 h2. register_all (\<lambda>_. True) sample_api = Some t
     \<and> map (route_of (\<lambda>_. True)) sample_api = map Some [([static_seg ''users'', param_seg ''id'' PtInt], GET, h1), ([static_seg ''users''], POST, h2)]"
proof -
  have p: "parse_pattern ''/users/{id:int}'' = Some [static_seg ''users'', param_seg ''id'' PtInt]"
    "parse_pattern ''/users'' = Some [static_seg ''users'']" by code_simp+
  have b: "selected_branch [TDouble] = Some [TInt]" "selected_branch [] = Some []" by code_simp+
  show ?thesis
    by (simp add: sample_api_def register_all_def router_route_def route_of_def p typed_handler_def b register_route_def main_router_def kMethodCount_def)
qed

theorem typed_routes_served_witness:
  "\<exists>t. register_all (\<lambda>_. True) sample_api = Some t
     \<and> ((\<exists>n. serve t (make_request (default_request\<lparr>pr_method := ''GET'', pr_target := ''/users/7''\<rparr>) Map.empty) 3 = (ok ''user'', 3 + nat n))
        \<or> snd (serve t (make_request (default_request\<lparr>pr_method := ''GET'', pr_target := ''/users/7''\<rparr>) Map.empty) 3) = 3)"
proof -
  let ?q = "make_request (default_request\<lparr>pr_method := ''GET'', pr_target := ''/users/7''\<rparr>) Map.empty :: (nat, nat) request_impl"
  obtain t h1 h2 where t: "register_all (\<lambda>_. True) sample_api = Some t"
    "map (route_of (\<lambda>_. True)) sample_api = map Some [([static_seg ''users'', param_seg ''id'' PtInt], GET, h1), ([static_seg ''users''], POST, h2)]"
    using sample_api_registered by blast
  have c: "consistent_names [([static_seg ''users'', param_seg ''id'' PtInt], GET, h1), ([static_seg ''users''], POST, h2)]"
    by (auto simp: consistent_names_def static_seg_def param_seg_def less_Suc_eq split: segment_kind.splits)
  have m: "req_method ?q = GET" by (simp add: make_request_def req_method_def Let_def)
  have l: "list_all (\<lambda>(m, p, sig, f). length sig \<le> 2) sample_api" by (simp add: sample_api_def)
  have "(\<exists>n. serve t ?q 3 = (ok ''user'', 3 + nat n)) \<or> snd (serve t ?q 3) = 3"
    using typed_routes_served [OF t c l, of ?q 3] unfolding m
  proof
    assume "\<exists>p sig f segs vals args. (GET, p, sig, f) \<in> set sample_api \<and> parse_pattern p = Some segs
      \<and> match_keys (map seg_key segs) (split_path (path_view ?q)) = Some vals
      \<and> length vals = length (extract_param_names segs)
      \<and> (let req' = set_params ?q (emplace_all (zip (extract_param_names segs) vals)) in
           reads_args sig (extract_param_names segs) req' args \<and> serve t ?q 3 = f args req' 3)"
    then obtain args q names where a: "reads_args [TDouble] names q args"
      "serve t ?q 3 = (ok ''user'', 3 + (case args of [VInt n] \<Rightarrow> nat n | _ \<Rightarrow> 0))"
      by (auto simp: sample_api_def Let_def)
    from a(1) obtain n where "args = [VInt n]" by (auto simp: reads_args_def length_Suc_conv)
    with a(2) show ?thesis by auto
  qed simp
  with t(1) show ?thesis by blast
qed

end
