(* ===== verification/Log_Format.thy ===== *)
theory Log_Format
  imports Errors
begin

text \<open>
  The log formatters of \<^verbatim>\<open>src/log/format.cpp\<close>. The broken-down UTC time that \<^verbatim>\<open>gmtime_r\<close> gives is a field
  of the record here. The last part is a small JSON reader, the reference for what a line means.
\<close>

datatype LogLevel = Trace | Debug | Info | Warn | Error | Fatal
datatype LogFormat = Json | Pretty
datatype LogDestination = Stdout | Stderr | File | Disabled
datatype LogError = FilePathRequired | FileOpenFailed | FlushFailed

fun log_error_text :: "LogError \<Rightarrow> string" where
  "log_error_text FilePathRequired = ''file path required for file log destination''"
| "log_error_text FileOpenFailed = ''failed to open log file''"
| "log_error_text FlushFailed = ''failed to flush log destination''"

fun log_error_category :: "LogError \<Rightarrow> ErrorCategory" where
  "log_error_category FilePathRequired = CatValidation"
| "log_error_category FileOpenFailed = CatIo"
| "log_error_category FlushFailed = CatIo"

fun level_number :: "LogLevel \<Rightarrow> nat" where
  "level_number Trace = 0" | "level_number Debug = 1" | "level_number Info = 2"
| "level_number Warn = 3" | "level_number Error = 4" | "level_number Fatal = 5"

fun level_text :: "LogLevel \<Rightarrow> string" where
  "level_text Trace = ''TRACE''" | "level_text Debug = ''DEBUG''" | "level_text Info = ''INFO''"
| "level_text Warn = ''WARN''" | "level_text Error = ''ERROR''" | "level_text Fatal = ''FATAL''"

record utc_time =
  tm_year :: nat
  tm_mon :: nat
  tm_mday :: nat
  tm_hour :: nat
  tm_min :: nat
  tm_sec :: nat
  tm_micros :: nat

record log_request_fields =
  lr_request_id :: string
  lr_method :: string
  lr_path :: string
  lr_trace_id :: string
  lr_span_id :: string

record log_record =
  lg_timestamp :: utc_time
  lg_level :: LogLevel
  lg_message :: string
  lg_request :: "log_request_fields option"
  lg_status_code :: "int option"
  lg_duration :: "int option"

definition format_timestamp :: "utc_time \<Rightarrow> string" where
  "format_timestamp utc =
     dec_padded 4 (tm_year utc + 1900) @ ''-'' @ dec_padded 2 (tm_mon utc + 1) @ ''-'' @ dec_padded 2 (tm_mday utc)
     @ ''T'' @ dec_padded 2 (tm_hour utc) @ '':'' @ dec_padded 2 (tm_min utc) @ '':'' @ dec_padded 2 (tm_sec utc)
     @ ''.'' @ dec_padded 6 (tm_micros utc) @ ''Z''"

definition quote :: char where "quote = CHR 0x22"
definition backslash :: char where "backslash = CHR 0x5C"

definition escape_char :: "char \<Rightarrow> string" where
  "escape_char ch =
     (if ch = quote then [backslash, quote]
      else if ch = backslash then [backslash, backslash]
      else if ch = CHR 0x08 then [backslash, CHR ''b'']
      else if ch = CHR 0x0C then [backslash, CHR ''f'']
      else if ch = CHR 0x0A then [backslash, CHR ''n'']
      else if ch = CHR 0x0D then [backslash, CHR ''r'']
      else if ch = CHR 0x09 then [backslash, CHR ''t'']
      else if of_char ch < (0x20 :: nat) then [backslash, CHR ''u''] @ hex_padded 4 (of_char ch)
      else [ch])"

definition escape_json :: "string \<Rightarrow> string" where
  "escape_json s = concat (map escape_char s)"

definition json_field :: "string \<Rightarrow> string \<Rightarrow> string" where
  "json_field key v = [CHR '','', quote] @ key @ [quote, CHR '':'', quote] @ escape_json v @ [quote]"

definition json_number_field :: "string \<Rightarrow> int \<Rightarrow> string" where
  "json_number_field key n = [CHR '','', quote] @ key @ [quote, CHR '':''] @ int_text n"

definition json_request_fields :: "log_record \<Rightarrow> log_request_fields \<Rightarrow> string" where
  "json_request_fields record request =
     json_field ''request_id'' (lr_request_id request)
     @ json_field ''method'' (lr_method request)
     @ json_field ''path'' (lr_path request)
     @ (case lg_status_code record of Some c \<Rightarrow> json_number_field ''status'' c | None \<Rightarrow> [])
     @ (case lg_duration record of Some d \<Rightarrow> json_number_field ''duration_us'' d | None \<Rightarrow> [])
     @ (if lr_trace_id request \<noteq> [] then json_field ''trace_id'' (lr_trace_id request) else [])
     @ (if lr_span_id request \<noteq> [] then json_field ''span_id'' (lr_span_id request) else [])"

definition format_json :: "log_record \<Rightarrow> string" where
  "format_json record =
     [CHR ''{'', quote] @ ''timestamp'' @ [quote, CHR '':'', quote] @ format_timestamp (lg_timestamp record)
     @ [quote, CHR '','', quote] @ ''level'' @ [quote, CHR '':'', quote] @ level_text (lg_level record) @ [quote]
     @ (case lg_request record of Some request \<Rightarrow> json_request_fields record request | None \<Rightarrow> [])
     @ json_field ''message'' (lg_message record) @ ''}''"

definition format_pretty :: "log_record \<Rightarrow> string" where
  "format_pretty record =
     format_timestamp (lg_timestamp record) @ '' '' @ level_text (lg_level record)
     @ (case lg_request record of
          Some request \<Rightarrow> '' req='' @ lr_request_id request @ '' '' @ lr_method request @ '' '' @ lr_path request
            @ (case lg_status_code record of Some c \<Rightarrow> '' status='' @ int_text c | None \<Rightarrow> [])
            @ (case lg_duration record of Some d \<Rightarrow> '' dur_us='' @ int_text d | None \<Rightarrow> [])
        | None \<Rightarrow> [])
     @ '' '' @ lg_message record"

subsection \<open>A JSON reader\<close>

datatype json_value = JString string | JNumber int

definition hex_digit_value :: "char \<Rightarrow> nat option" where
  "hex_digit_value c = (let n = of_char c in
     if 48 \<le> n \<and> n \<le> 57 then Some (n - 48) else if 97 \<le> n \<and> n \<le> 102 then Some (n - 87)
     else if 65 \<le> n \<and> n \<le> 70 then Some (n - 55) else None)"

fun hex4_value :: "char list \<Rightarrow> nat option" where
  "hex4_value [a, b, c, d] =
     (case (hex_digit_value a, hex_digit_value b, hex_digit_value c, hex_digit_value d) of
        (Some x, Some y, Some z, Some w) \<Rightarrow> Some (((x * 16 + y) * 16 + z) * 16 + w) | _ \<Rightarrow> None)"
| "hex4_value cs = None"

text \<open>The character a two-character escape stands for (RFC 8259, section 7).\<close>

definition simple_escape :: "char \<Rightarrow> char option" where
  "simple_escape e =
     (if e = quote \<or> e = backslash \<or> e = CHR ''/'' then Some e
      else if e = CHR ''b'' then Some (CHR 0x08) else if e = CHR ''f'' then Some (CHR 0x0C)
      else if e = CHR ''n'' then Some (CHR 0x0A) else if e = CHR ''r'' then Some (CHR 0x0D)
      else if e = CHR ''t'' then Some (CHR 0x09) else None)"

text \<open>Reads up to the closing quote; control characters must be escaped.\<close>

function read_string :: "string \<Rightarrow> (string \<times> string) option" where
  "read_string [] = None"
| "read_string (c # cs) =
     (if c = quote then Some ([], cs)
      else if c = backslash then
        (case cs of
           [] \<Rightarrow> None
         | e # es \<Rightarrow>
           (if e = CHR ''u'' then
              (case hex4_value (take 4 es) of
                 None \<Rightarrow> None
               | Some n \<Rightarrow> if n < 256 then map_option (apfst ((#) (char_of n))) (read_string (drop 4 es)) else None)
            else case simple_escape e of
                 None \<Rightarrow> None
               | Some d \<Rightarrow> map_option (apfst ((#) d)) (read_string es)))
      else if of_char c < (0x20 :: nat) then None
      else map_option (apfst ((#) c)) (read_string cs))"
  by pat_completeness auto
termination by (relation "measure length") auto

declare read_string.simps(2) [simp del]

definition read_number :: "string \<Rightarrow> (int \<times> string) option" where
  "read_number cs =
     (let (neg, cs) = (case cs of c # r \<Rightarrow> if c = CHR ''-'' then (True, r) else (False, cs) | [] \<Rightarrow> (False, cs));
          ds = takeWhile is_digit cs
      in if ds = [] then None
         else Some ((if neg then - int (digits_value ds) else int (digits_value ds)), dropWhile is_digit cs))"

definition read_value :: "string \<Rightarrow> (json_value \<times> string) option" where
  "read_value cs = (case cs of
      [] \<Rightarrow> None
    | c # r \<Rightarrow> if c = quote then map_option (apfst JString) (read_string r)
               else map_option (apfst JNumber) (read_number cs))"

text \<open>Members of an object up to the closing brace, with at most as many as the fuel says.\<close>

fun read_members :: "nat \<Rightarrow> string \<Rightarrow> (string \<times> json_value) list option" where
  "read_members 0 cs = None"
| "read_members (Suc n) cs = (case cs of
     c # r \<Rightarrow> if c \<noteq> quote then None else (case read_string r of
         Some (key, d # r') \<Rightarrow> if d \<noteq> CHR '':'' then None else (case read_value r' of
             Some (v, e # r'') \<Rightarrow>
               if e = CHR ''}'' then (if r'' = [] then Some [(key, v)] else None)
               else if e = CHR '','' then map_option ((#) (key, v)) (read_members n r'')
               else None
           | _ \<Rightarrow> None)
       | _ \<Rightarrow> None)
   | [] \<Rightarrow> None)"

definition read_object :: "string \<Rightarrow> (string \<times> json_value) list option" where
  "read_object cs = (case cs of c # r \<Rightarrow> if c = CHR ''{'' then read_members (length cs) r else None | [] \<Rightarrow> None)"

text \<open>The members a line should have.\<close>

definition record_members :: "log_record \<Rightarrow> (string \<times> json_value) list" where
  "record_members r =
     [(''timestamp'', JString (format_timestamp (lg_timestamp r))), (''level'', JString (level_text (lg_level r)))]
     @ (case lg_request r of None \<Rightarrow> [] | Some q \<Rightarrow>
          [(''request_id'', JString (lr_request_id q)), (''method'', JString (lr_method q)), (''path'', JString (lr_path q))]
          @ (case lg_status_code r of Some c \<Rightarrow> [(''status'', JNumber c)] | None \<Rightarrow> [])
          @ (case lg_duration r of Some d \<Rightarrow> [(''duration_us'', JNumber d)] | None \<Rightarrow> [])
          @ (if lr_trace_id q \<noteq> [] then [(''trace_id'', JString (lr_trace_id q))] else [])
          @ (if lr_span_id q \<noteq> [] then [(''span_id'', JString (lr_span_id q))] else []))
     @ [(''message'', JString (lg_message r))]"
subsection \<open>A line means its record\<close>

definition plain_char :: "char \<Rightarrow> bool" where
  "plain_char c \<longleftrightarrow> c \<noteq> quote \<and> c \<noteq> backslash \<and> (32 :: nat) \<le> of_char c"

lemma quote_not_special [simp]: "quote \<noteq> backslash" "backslash \<noteq> quote"
  "(of_char quote :: nat) = 34" "(of_char backslash :: nat) = 92"
  by (simp_all add: quote_def backslash_def)

lemma read_plain: "plain_char c \<Longrightarrow> read_string (c # cs) = map_option (apfst ((#) c)) (read_string cs)"
  by (simp add: read_string.simps(2) plain_char_def)

lemma control_escapes:
  "list_all (\<lambda>n. length (hex_padded 4 n) = 4 \<and> hex4_value (hex_padded 4 n) = Some n \<and> list_all plain_char (hex_padded 4 n)) [0..<32]"
  by code_simp

lemma escape_plain: "plain_char c \<Longrightarrow> escape_char c = [c]"
  by (auto simp: escape_char_def plain_char_def)

lemma not_plain_cases:
  assumes "\<not> plain_char c"
  obtains "c = quote" | "c = backslash" | "c = CHR 0x08" | "c = CHR 0x0C" | "c = CHR 0x0A" | "c = CHR 0x0D" | "c = CHR 0x09"
    | "of_char c < (32 :: nat)" "escape_char c = [backslash, CHR ''u''] @ hex_padded 4 (of_char c)"
proof (cases "c = quote \<or> c = backslash \<or> c = CHR 0x08 \<or> c = CHR 0x0C \<or> c = CHR 0x0A \<or> c = CHR 0x0D \<or> c = CHR 0x09")
  case True
  then show ?thesis using that(1-7) by blast
next
  case False
  then have "of_char c < (32 :: nat)" using assms by (auto simp: plain_char_def)
  moreover from this False have "escape_char c = [backslash, CHR ''u''] @ hex_padded 4 (of_char c)"
    by (simp add: escape_char_def)
  ultimately show ?thesis by (rule that(8))
qed

lemma read_escape_char: "read_string (escape_char c @ rest) = map_option (apfst ((#) c)) (read_string rest)"
proof (cases "plain_char c")
  case True
  then show ?thesis by (simp add: escape_plain read_plain)
next
  case False
  then show ?thesis
  proof (cases rule: not_plain_cases)
    case 8
    from control_escapes 8(1) have h: "length (hex_padded 4 (of_char c)) = 4" "hex4_value (hex_padded 4 (of_char c)) = Some (of_char c)"
      by (auto simp: list_all_iff)
    have "(of_char c :: nat) < 256" using 8(1) by simp
    then show ?thesis using h 8(2) by (simp add: read_string.simps(2))
  qed (simp_all add: escape_char_def read_string.simps(2) simple_escape_def, simp_all add: quote_def backslash_def)
qed

lemma read_escaped: "read_string (escape_json s @ quote # rest) = Some (s, rest)"
proof (induction s)
  case Nil
  show ?case by (simp add: escape_json_def read_string.simps(2))
next
  case (Cons c s)
  have "escape_json (c # s) @ quote # rest = escape_char c @ escape_json s @ quote # rest" by (simp add: escape_json_def)
  then show ?case using Cons by (simp add: read_escape_char)
qed

lemma escape_json_plain: "list_all plain_char s \<Longrightarrow> escape_json s = s"
  by (induction s) (simp_all add: escape_json_def escape_plain)

lemma escape_char_printable: "list_all (\<lambda>c. (32 :: nat) \<le> of_char c) (escape_char c)"
proof (cases "plain_char c")
  case True
  then show ?thesis by (simp add: escape_plain) (simp add: plain_char_def)
next
  case False
  then show ?thesis
  proof (cases rule: not_plain_cases)
    case 8
    then show ?thesis using control_escapes by (auto simp: list_all_iff plain_char_def)
  qed (auto simp: escape_char_def quote_def backslash_def)
qed

lemma escape_json_printable: "list_all (\<lambda>c. (32 :: nat) \<le> of_char c) (escape_json s)"
  using escape_char_printable by (induction s) (simp_all add: escape_json_def)

lemma read_int:
  assumes "\<not> is_digit c"
  shows "read_number (int_text n @ c # rest) = Some (n, c # rest)"
proof -
  have d: "list_all is_digit (dec_string m)" "digits_value (dec_string m) = m" "dec_string m \<noteq> []" for m
    using dec_string_props by simp_all
  have t: "takeWhile is_digit (dec_string m @ c # rest) = dec_string m" "dropWhile is_digit (dec_string m @ c # rest) = c # rest" for m
    using d(1) [of m] assms by (auto simp: list_all_iff takeWhile_append dropWhile_append)
  show ?thesis
  proof (cases "n < 0")
    case True
    then show ?thesis using d t by (simp add: read_number_def int_text_def)
  next
    case False
    obtain x xs where x: "dec_string (nat n) = x # xs" using d(3) by (cases "dec_string (nat n)") auto
    then have "is_digit x" using d(1) [of "nat n"] by simp
    then have "x \<noteq> CHR ''-''" by (auto simp: is_digit_def)
    then show ?thesis using False t [of "nat n"] d(2,3) [of "nat n"] x by (simp add: read_number_def int_text_def)
  qed
qed

subsubsection \<open>Members\<close>

fun value_text :: "json_value \<Rightarrow> string" where
  "value_text (JString s) = quote # escape_json s @ [quote]"
| "value_text (JNumber n) = int_text n"

definition member_text :: "string \<times> json_value \<Rightarrow> string" where
  "member_text m = quote # fst m @ [quote, CHR '':''] @ value_text (snd m)"

fun join_members :: "(string \<times> json_value) list \<Rightarrow> string" where
  "join_members [] = []"
| "join_members [m] = member_text m"
| "join_members (m # ms) = member_text m @ CHR '','' # join_members ms"

lemma read_value_text:
  assumes "\<not> is_digit c" shows "read_value (value_text v @ c # rest) = Some (v, c # rest)"
proof (cases v)
  case (JString s)
  then show ?thesis using read_escaped [of s "c # rest"] by (simp add: read_value_def)
next
  case (JNumber n)
  have "int_text n \<noteq> []" "hd (int_text n) \<noteq> quote"
    using dec_string_props [of "nat n"]
    by (auto simp: int_text_def quote_def, cases "dec_string (nat n)") (auto simp: is_digit_def)
  then have "read_value (int_text n @ c # rest) = map_option (apfst JNumber) (read_number (int_text n @ c # rest))"
    by (cases "int_text n") (simp_all add: read_value_def)
  then show ?thesis using JNumber read_int [OF assms] by simp
qed

lemma read_key: "list_all plain_char k \<Longrightarrow> read_string (k @ quote # rest) = Some (k, rest)"
  using read_escaped [of k rest] by (simp add: escape_json_plain)

lemma read_joined:
  assumes "ms \<noteq> []" "list_all (\<lambda>m. list_all plain_char (fst m)) ms" "length ms \<le> n"
  shows "read_members n (join_members ms @ ''}'') = Some ms"
  using assms
proof (induction ms arbitrary: n rule: join_members.induct)
  case (2 m)
  then obtain n' where "n = Suc n'" by (cases n) auto
  moreover have "\<not> is_digit (CHR ''}'')" by (simp add: is_digit_def)
  ultimately show ?case using 2 by (cases m) (simp add: member_text_def read_key read_value_text)
next
  case (3 m m' ms)
  then obtain n' where n: "n = Suc n'" by (cases n) auto
  have "read_members n' (join_members (m' # ms) @ ''}'') = Some (m' # ms)" using 3 n by simp
  moreover have "\<not> is_digit (CHR '','')" by (simp add: is_digit_def)
  moreover have "join_members (m # m' # ms) @ ''}'' = member_text m @ CHR '','' # (join_members (m' # ms) @ ''}'')" by simp
  ultimately show ?case using 3(3) unfolding n
    by (cases m) (simp add: member_text_def read_key read_value_text del: join_members.simps)
qed simp

lemma join_tail: "join_members (m # ms) = member_text m @ concat (map (\<lambda>m. CHR '','' # member_text m) ms)"
  by (induction ms arbitrary: m) simp_all

lemma length_join: "length ms \<le> length (join_members ms)"
  by (induction ms rule: join_members.induct) (auto simp: member_text_def)

text \<open>A field with its leading comma, and what follows.\<close>

lemma json_fields:
  "json_field k v = CHR '','' # member_text (k, JString v)"
  "json_number_field k n = CHR '','' # member_text (k, JNumber n)"
  by (simp_all add: json_field_def json_number_field_def member_text_def)

lemma dec_plain: "list_all plain_char (dec_string n)"
proof -
  have "plain_char c" if "is_digit c" for c
    using that by (auto simp: is_digit_def plain_char_def quote_def backslash_def)
  then show ?thesis using dec_string_props [of n] by (auto simp: list_all_iff)
qed

lemma padded_plain: "list_all plain_char (dec_padded w n)"
proof -
  have "plain_char (CHR ''0'')" by (simp add: plain_char_def quote_def backslash_def)
  then have "list_all plain_char (replicate k (CHR ''0''))" for k by (induction k) simp_all
  then show ?thesis using dec_plain by (simp add: dec_padded_def Let_def)
qed

lemma timestamp_plain: "list_all plain_char (format_timestamp t)"
proof -
  have p: "plain_char (CHR ''-'')" "plain_char (CHR ''T'')" "plain_char (CHR '':'')" "plain_char (CHR ''.'')" "plain_char (CHR ''Z'')"
    by (simp_all add: plain_char_def quote_def backslash_def)
  show ?thesis unfolding format_timestamp_def list_all_append list.pred_inject by (intro conjI padded_plain p TrueI) simp_all
qed

lemma level_plain: "list_all plain_char (level_text l)"
  by (cases l) (simp_all add: plain_char_def quote_def backslash_def)

lemma format_json_joined: "format_json r = CHR ''{'' # join_members (record_members r) @ ''}''"
proof -
  have head: "[CHR ''{'', quote] @ ''timestamp'' @ [quote, CHR '':'', quote] @ format_timestamp (lg_timestamp r)
      @ [quote, CHR '','', quote] @ ''level'' @ [quote, CHR '':'', quote] @ level_text (lg_level r) @ [quote] @ rest
      = CHR ''{'' # member_text (''timestamp'', JString (format_timestamp (lg_timestamp r)))
        @ CHR '','' # member_text (''level'', JString (level_text (lg_level r))) @ rest" for rest
    by (simp add: member_text_def escape_json_plain timestamp_plain level_plain)
  show ?thesis
    unfolding format_json_def head
    unfolding record_members_def append_Cons append_Nil join_tail
    by (simp add: json_request_fields_def json_fields split: option.split)
qed

lemma record_keys_plain: "list_all (\<lambda>m. list_all plain_char (fst m)) (record_members r)"
  by (simp add: record_members_def split: option.split) (simp add: plain_char_def quote_def backslash_def)

text \<open>
  Claim C39. Every JSON log line is one line and means its record: it holds no control character, and a
  JSON reader gets back exactly the members of the record, in order, with their values, whatever the
  message, the path or the header values of the client contain.
\<close>

theorem format_json_roundtrip:
  "read_object (format_json r) = Some (record_members r)
   \<and> list_all (\<lambda>c. (32 :: nat) \<le> of_char c) (format_json r)"
proof
  have "record_members r \<noteq> []" by (simp add: record_members_def)
  moreover have "length (record_members r) \<le> length (format_json r)"
    using length_join [of "record_members r"] by (simp add: format_json_joined)
  ultimately show "read_object (format_json r) = Some (record_members r)"
    using read_joined [OF _ record_keys_plain, of r "length (format_json r)"]
    by (simp add: read_object_def format_json_joined)
  have v: "list_all (\<lambda>c. (32 :: nat) \<le> of_char c) (value_text v)" for v
  proof (cases v)
    case (JNumber n)
    have "list_all (\<lambda>c. (32 :: nat) \<le> of_char c) (dec_string m)" for m
      using dec_plain [of m] by (auto simp: list_all_iff plain_char_def)
    then show ?thesis by (simp add: JNumber int_text_def)
  qed (simp add: escape_json_printable)
  have m: "list_all (\<lambda>c. (32 :: nat) \<le> of_char c) (member_text m)" if "list_all plain_char (fst m)" for m
    using v that by (auto simp: member_text_def list_all_iff plain_char_def)
  have "list_all (\<lambda>c. (32 :: nat) \<le> of_char c) (join_members ms)"
    if "list_all (\<lambda>m. list_all plain_char (fst m)) ms" for ms
    using that m by (induction ms rule: join_members.induct) auto
  from this [OF record_keys_plain] show "list_all (\<lambda>c. (32 :: nat) \<le> of_char c) (format_json r)"
    by (simp add: format_json_joined)
qed

text \<open>The pretty format does not escape: a message with a line break makes a second line of its choice.\<close>

lemma format_pretty_not_one_line:
  "lg_message r = m @ [CHR 0x0A] @ forged \<Longrightarrow> \<exists>line. format_pretty r = line @ [CHR 0x0A] @ forged"
  by (rule exI [of _ "take (length (format_pretty r) - length forged - 1) (format_pretty r)"])
     (simp add: format_pretty_def)
end
