(* ===== verification/Json.thy ===== *)
theory Json
  imports Errors Request Response Log_Format
begin

text \<open>
  JSON bodies: the errors of \<^verbatim>\<open>src/json/json_error.cpp\<close>, the backend of \<^verbatim>\<open>src/json/glaze_backend.hpp\<close>, and
  \<^verbatim>\<open>Request::json\<close> and \<^verbatim>\<open>Response::json\<close>. The glaze library is a parameter: its reader for the target
  type, its writer, and the text it makes of an error.
\<close>

datatype JsonErrorCode = JParseError | JTypeMismatch | JMissingField | JSerializationFailed | JInvalidUtf8 | JUnknown

fun json_error_text :: "JsonErrorCode \<Rightarrow> string" where
  "json_error_text JParseError = ''JSON parse error''"
| "json_error_text JTypeMismatch = ''JSON type mismatch''"
| "json_error_text JMissingField = ''JSON missing field''"
| "json_error_text JSerializationFailed = ''JSON serialization failed''"
| "json_error_text JInvalidUtf8 = ''JSON invalid UTF-8''"
| "json_error_text JUnknown = ''unknown JSON error''"

fun json_code_category :: "JsonErrorCode \<Rightarrow> ErrorCategory" where
  "json_code_category JParseError = CatParse"
| "json_code_category JTypeMismatch = CatValidation"
| "json_code_category JMissingField = CatValidation"
| "json_code_category JInvalidUtf8 = CatValidation"
| "json_code_category JSerializationFailed = CatSerialization"
| "json_code_category JUnknown = CatUnknown"

record json_error =
  je_code :: JsonErrorCode
  je_message :: string

definition json_error_of :: "string \<Rightarrow> json_error" where
  "json_error_of message = \<lparr>je_code = JUnknown, je_message = message\<rparr>"

definition json_error_category :: "json_error \<Rightarrow> ErrorCategory" where
  "json_error_category e = json_code_category (je_code e)"

subsection \<open>The backend\<close>

record ('v, 'ec) glaze =
  glz_read :: "string \<Rightarrow> 'ec + 'v"
  glz_write :: "'v \<Rightarrow> 'ec + string"
  glz_format :: "'ec \<Rightarrow> string option \<Rightarrow> string"

definition glaze_deserialize :: "('v, 'ec) glaze \<Rightarrow> string \<Rightarrow> json_error + 'v" where
  "glaze_deserialize G input = (case glz_read G input of
       Inl ec \<Rightarrow> Inl (json_error_of (glz_format G ec (Some input)))
     | Inr v \<Rightarrow> Inr v)"

definition glaze_serialize :: "('v, 'ec) glaze \<Rightarrow> 'v \<Rightarrow> json_error + string" where
  "glaze_serialize G v = (case glz_write G v of
       Inl ec \<Rightarrow> Inl (json_error_of (glz_format G ec None))
     | Inr text \<Rightarrow> Inr text)"

text \<open>\<^verbatim>\<open>Request::json\<close> copies the octets of the body into a string.\<close>

definition request_json :: "('v, 'ec) glaze \<Rightarrow> ('ty, 'w) request_impl \<Rightarrow> json_error + 'v" where
  "request_json G req = glaze_deserialize G (map char_of_octet (pr_body (req_parsed req)))"

definition json_failure_body :: "string \<Rightarrow> string" where
  "json_failure_body detail = ''{'' @ [quote] @ ''error'' @ [quote, CHR '':'', quote] @ ''json_serialization_failed'' @ [quote, CHR '','']
     @ [quote] @ ''detail'' @ [quote, CHR '':'', quote] @ detail @ [quote] @ ''}''"

definition response_json :: "('v, 'ec) glaze \<Rightarrow> 'v \<Rightarrow> response" where
  "response_json G v = (case glaze_serialize G v of
       Inl e \<Rightarrow> make_response kStatusInternalServerError (json_failure_body (je_message e)) ''application/json''
     | Inr text \<Rightarrow> make_response kStatusOk text ''application/json'')"

text \<open>What a client receives is read back, when the backend reads what it writes.\<close>

lemma json_body_roundtrip:
  assumes "\<And>v text. glz_write G v = Inr text \<Longrightarrow> glz_read G text = Inr v"
    and "glz_write G v = Inr text"
    and "pr_body (req_parsed req) = map octet_of_char (body_view (response_json G v))"
  shows "request_json G req = Inr v"
  using assms
  by (simp add: request_json_def response_json_def glaze_serialize_def glaze_deserialize_def make_response_def body_view_def)

lemma response_json_status:
  "response_status (response_json G v) = (case glz_write G v of Inl _ \<Rightarrow> 500 | Inr _ \<Rightarrow> 200)"
  by (simp add: response_json_def glaze_serialize_def make_response_def response_status_def kStatusOk_def
      kStatusInternalServerError_def split: sum.split)

text \<open>No error of the backend has a specific code.\<close>

lemma glaze_errors_unknown:
  "glaze_deserialize G input = Inl e \<or> glaze_serialize G v = Inl e \<Longrightarrow> json_error_category e = CatUnknown"
  by (auto simp: glaze_deserialize_def glaze_serialize_def json_error_of_def json_error_category_def split: sum.splits)

text \<open>
  The detail of the failure body is inserted as it is. It is read back if it needs no escaping, and a
  quote in it makes the body no JSON object.
\<close>

lemma json_failure_body_read:
  assumes "escape_json detail = detail"
  shows "read_object (json_failure_body detail) = Some [(''error'', JString ''json_serialization_failed''), (''detail'', JString detail)]"
proof -
  let ?ms = "[(''error'', JString ''json_serialization_failed''), (''detail'', JString detail)]"
  have p: "list_all plain_char ''json_serialization_failed''" "list_all plain_char ''error''" "list_all plain_char ''detail''"
    by (simp_all add: plain_char_def quote_def backslash_def)
  have b: "json_failure_body detail = ''{'' @ join_members ?ms @ ''}''"
    using assms escape_json_plain [OF p(1)] by (simp add: json_failure_body_def member_text_def)
  have "length ?ms \<le> length (json_failure_body detail)" by (simp add: json_failure_body_def)
  then show ?thesis using read_joined [of ?ms "length (json_failure_body detail)"] p
    by (simp add: read_object_def b del: join_members.simps)
qed

lemma json_failure_body_broken: "read_object (json_failure_body [quote]) = None"
proof -
  have r: "read_string (''error'' @ quote # rest) = Some (''error'', rest)"
    "read_string (''json_serialization_failed'' @ quote # rest) = Some (''json_serialization_failed'', rest)"
    "read_string (''detail'' @ quote # rest) = Some (''detail'', rest)" for rest
    by (rule read_key, simp add: plain_char_def quote_def backslash_def)+
  have "read_string (quote # rest) = Some ([], rest)" for rest by (simp add: read_string.simps(2))
  with r show ?thesis
    by (simp add: read_object_def json_failure_body_def read_value_def quote_def numeral_eq_Suc)
qed

end
