(* ===== verification/Ws_Frame.thy ===== *)
theory Ws_Frame
  imports Errors
begin

text \<open>
  The RFC 6455 frame parser and emitter of \<^verbatim>\<open>src/net/websocket_frame.cpp\<close>. The header bytes
  are \<open>8 word\<close> and read with the masks of the source, the extended length is accumulated in a
  64-bit word, and every \<^verbatim>\<open>std::unexpected\<close> is a value of \<open>parse_frame_error + _\<close>. Buffer
  sizes (\<^verbatim>\<open>std::size_t\<close>) are naturals: no sum of sizes in the parser can pass \<open>2 ^ 64\<close>,
  because the length has its top bit clear where it is added.
\<close>

datatype opcode = Continuation | Text | Binary | Close | Ping | Pong

fun opcode_value :: "opcode \<Rightarrow> octet" where
  "opcode_value Continuation = 0x0"
| "opcode_value Text = 0x1"
| "opcode_value Binary = 0x2"
| "opcode_value Close = 0x8"
| "opcode_value Ping = 0x9"
| "opcode_value Pong = 0xA"

text \<open>\<^verbatim>\<open>is_known_opcode\<close> and the cast that follows it: \<open>None\<close> is the \<^verbatim>\<open>default\<close> branch.\<close>

definition known_opcode :: "octet \<Rightarrow> opcode option" where
  "known_opcode raw =
     (if raw = 0x0 then Some Continuation else if raw = 0x1 then Some Text
      else if raw = 0x2 then Some Binary else if raw = 0x8 then Some Close
      else if raw = 0x9 then Some Ping else if raw = 0xA then Some Pong else None)"

record parsed_frame =
  pf_opcode :: opcode
  pf_fin :: bool
  pf_payload :: octets

record parse_result =
  pr_frame :: parsed_frame
  pr_consumed :: nat

datatype frame_error_kind = Incomplete | Protocol

record parse_frame_error =
  fe_kind :: frame_error_kind
  fe_error :: ws_error

definition frame_error :: "frame_error_kind \<Rightarrow> WebSocketErrorCode \<Rightarrow> string \<Rightarrow> parse_frame_error" where
  "frame_error k c m = \<lparr>fe_kind = k, fe_error = \<lparr>ws_code = c, ws_message = m\<rparr>\<rparr>"

definition protocol_error :: "string \<Rightarrow> parse_frame_error" where
  "protocol_error m = frame_error Protocol ProtocolError m"

definition incomplete_error :: "string \<Rightarrow> parse_frame_error" where
  "incomplete_error m = frame_error Incomplete ProtocolError m"

text \<open>The checks on the first two bytes, in the order of the source.\<close>

record frame_header =
  fh_opcode :: opcode
  fh_fin :: bool
  fh_masked :: bool
  fh_len7 :: octet

definition parse_header :: "octet \<Rightarrow> octet \<Rightarrow> bool \<Rightarrow> parse_frame_error + frame_header" where
  "parse_header byte0 byte1 expect_masked =
     (let fin = (byte0 AND 0x80 \<noteq> 0);
          raw_opcode = byte0 AND 0x0F;
          masked = (byte1 AND 0x80 \<noteq> 0);
          len7 = byte1 AND 0x7F in
      if byte0 AND 0x70 \<noteq> 0 then Inl (protocol_error ''Non-zero RSV bits without extension negotiation'')
      else case known_opcode raw_opcode of
        None \<Rightarrow> Inl (protocol_error ''Reserved or unknown opcode'')
      | Some opcode \<Rightarrow>
          if opcode = Continuation then
            Inl (protocol_error ''Fragmented messages (FIN=0, continuation frames) not supported in v0.2'')
          else if \<not> fin \<and> (opcode = Close \<or> opcode = Ping \<or> opcode = Pong) then
            Inl (protocol_error ''Control frame must not be fragmented (FIN must be 1)'')
          else if \<not> fin \<and> (opcode = Text \<or> opcode = Binary) then
            Inl (protocol_error ''Fragmented messages (FIN=0) not supported in v0.2'')
          else if expect_masked \<and> \<not> masked then
            Inl (protocol_error ''Client frame must have MASK bit set (RFC 6455 5.3)'')
          else if \<not> expect_masked \<and> masked then
            Inl (protocol_error ''Server frame must not have MASK bit set (RFC 6455 5.3)'')
          else Inr \<lparr>fh_opcode = opcode, fh_fin = fin, fh_masked = masked, fh_len7 = len7\<rparr>)"

text \<open>The payload length: 7-bit, 16-bit or 64-bit, big-endian.\<close>

definition mask_bytes :: "bool \<Rightarrow> nat" where
  "mask_bytes masked = (if masked then 4 else 0)"

definition parse_length :: "octets \<Rightarrow> bool \<Rightarrow> octet \<Rightarrow> parse_frame_error + 64 word" where
  "parse_length input masked len7 =
     (let header_size = 2 + mask_bytes masked in
      if len7 < 126 then Inr (ucast len7)
      else if len7 = 126 then
        (let header_size = header_size + 2 in
         if length input < header_size - mask_bytes masked then
           Inl (incomplete_error ''Frame too short for 16-bit extended payload length'')
         else Inr (push_bit 8 (ucast (input ! 2)) OR ucast (input ! (2 + 1))))
      else
        (let header_size = header_size + 8 in
         if length input < header_size - mask_bytes masked then
           Inl (incomplete_error ''Frame too short for 64-bit extended payload length'')
         else
           (let payload_len64 = foldl (\<lambda>acc i. push_bit 8 acc OR ucast (input ! (2 + i))) 0 [0..<8] in
            if payload_len64 AND 0x8000000000000000 \<noteq> 0 then
              Inl (protocol_error ''64-bit payload length MSB must be 0 (RFC 6455 5.2)'')
            else Inr payload_len64)))"

definition ext_len_bytes_of :: "octet \<Rightarrow> nat" where
  "ext_len_bytes_of len7 = (if len7 = 126 then 2 else if len7 = 127 then 8 else 0)"

text \<open>The unmasking loop: octet \<open>i\<close> is exclusive-ored with octet \<open>i mod 4\<close> of the key.\<close>

definition unmask :: "octets \<Rightarrow> octets \<Rightarrow> octets" where
  "unmask mask_key payload = map (\<lambda>i. payload ! i XOR mask_key ! (i mod 4)) [0..<length payload]"

definition parse_frame_detailed :: "octets \<Rightarrow> nat \<Rightarrow> bool \<Rightarrow> parse_frame_error + parse_result" where
  "parse_frame_detailed input max_payload_bytes expect_masked =
     (if length input < 2 then Inl (incomplete_error ''Frame too short: need at least 2 header bytes'')
      else case parse_header (input ! 0) (input ! 1) expect_masked of
        Inl e \<Rightarrow> Inl e
      | Inr h \<Rightarrow>
          (case parse_length input (fh_masked h) (fh_len7 h) of
             Inl e \<Rightarrow> Inl e
           | Inr payload_len64 \<Rightarrow>
               (let ext_len_bytes = ext_len_bytes_of (fh_len7 h);
                    actual_header = 2 + ext_len_bytes + mask_bytes (fh_masked h) in
                if unat payload_len64 > max_payload_bytes then
                  Inl (frame_error Protocol FrameTooLarge ''Payload length exceeds max_body_size limit'')
                else
                  (let payload_len = unat payload_len64;
                       total_frame = actual_header + payload_len in
                   if length input < total_frame then
                     Inl (incomplete_error ''Input buffer does not contain a complete frame'')
                   else
                     (let mask_key = take 4 (drop (2 + ext_len_bytes) input);
                          body = take payload_len (drop actual_header input);
                          payload = (if fh_masked h then unmask mask_key body else body)
                      in Inr \<lparr>pr_frame = \<lparr>pf_opcode = fh_opcode h, pf_fin = fh_fin h, pf_payload = payload\<rparr>,
                              pr_consumed = total_frame\<rparr>)))))"

definition parse_frame :: "octets \<Rightarrow> nat \<Rightarrow> bool \<Rightarrow> ws_error + parse_result" where
  "parse_frame input max_payload_bytes expect_masked =
     (case parse_frame_detailed input max_payload_bytes expect_masked of
        Inl e \<Rightarrow> Inl (fe_error e) | Inr r \<Rightarrow> Inr r)"

subsection \<open>Emitting\<close>

definition push_be16 :: "octets \<Rightarrow> 16 word \<Rightarrow> octets" where
  "push_be16 out v = out @ [ucast (drop_bit 8 v)] @ [ucast (v AND 0xFF)]"

definition push_be64 :: "octets \<Rightarrow> 64 word \<Rightarrow> octets" where
  "push_be64 out v = foldl (\<lambda>out i. out @ [ucast (drop_bit ((8 - 1 - i) * 8) v AND 0xFF)]) out [0..<8]"

definition emit_frame :: "opcode \<Rightarrow> bool \<Rightarrow> octets \<Rightarrow> octets" where
  "emit_frame opcode fin payload =
     (let payload_size = length payload;
          byte0 = (if fin then 0x80 else 0x00) OR opcode_value opcode;
          frame = [byte0];
          frame = (if payload_size < 126 then frame @ [word_of_nat payload_size]
                   else if payload_size \<le> 65535 then push_be16 (frame @ [126]) (word_of_nat payload_size)
                   else push_be64 (frame @ [127]) (word_of_nat payload_size))
      in frame @ payload)"

definition emit_close_frame :: "16 word \<Rightarrow> string \<Rightarrow> octets" where
  "emit_close_frame code reason =
     (let reason_len = min (length reason) 123;
          payload = [ucast (drop_bit 8 code), ucast (code AND 0xFF)]
            @ map octet_of_char (take reason_len reason)
      in emit_frame Close True payload)"

lemmas frame_defs = frame_error_def protocol_error_def incomplete_error_def

subsection \<open>The length field and the wire format\<close>

lemma low7: "(l :: octet) < 128 \<Longrightarrow> l AND 0x7F = l"
proof -
  assume "l < 128"
  then have "unat l mod 2 ^ 7 = unat l" by (simp add: word_less_nat_alt)
  then show ?thesis using unat_and_mask [of l 7] by (simp add: word_unat_eq_iff mask_eq_exp_minus_1)
qed
lemma high_low7: "(l :: octet) < 128 \<Longrightarrow> l AND 0x80 = 0"
  by (subst low7 [symmetric]) (simp_all add: and.assoc)

definition mask_bit :: "bool \<Rightarrow> octet" where "mask_bit m = (if m then 0x80 else 0)"
lemma mask_bit_or:
  assumes "l < 128"
  shows "(mask_bit m OR l) AND 0x80 \<noteq> 0 \<longleftrightarrow> m" and "(mask_bit m OR l) AND 0x7F = l"
  using low7 [OF assms] high_low7 [OF assms]
  by (simp_all add: mask_bit_def bit.conj_disj_distrib2)

lemma parse_header_ok:
  assumes "op \<noteq> Continuation" "l < 128"
  shows "parse_header (0x80 OR opcode_value op) (mask_bit m OR l) m
    = Inr \<lparr>fh_opcode = op, fh_fin = True, fh_masked = m, fh_len7 = l\<rparr>"
  using assms(1) mask_bit_or [OF assms(2), of m]
  by (cases op) (simp_all add: parse_header_def known_opcode_def)

definition len_field :: "bool \<Rightarrow> nat \<Rightarrow> octets" where
  "len_field m n =
     (if n < 126 then [mask_bit m OR word_of_nat n]
      else if n \<le> 65535 then push_be16 [mask_bit m OR 126] (word_of_nat n)
      else push_be64 [mask_bit m OR 127] (word_of_nat n))"

lemma be64_fold:
  "k \<le> 8 \<Longrightarrow> foldl (\<lambda>acc i. push_bit 8 acc OR ucast (ucast (drop_bit ((8 - 1 - i) * 8) v AND 0xFF) :: octet)) 0 [0..<k]
     = drop_bit ((8 - k) * 8) (v :: 64 word)"
proof (induction k)
  case (Suc k)
  have m: "(0xFF :: 64 word) = mask 8" by (simp add: mask_eq_exp_minus_1)
  have s: "(8 - k) * 8 = 8 + (8 - Suc k) * 8" "8 - 1 - k = 8 - Suc k" using Suc.prems by simp_all
  have "ucast (ucast (w AND 0xFF :: 64 word) :: octet) = take_bit 8 w" for w
    unfolding m by (rule bit_eqI) (auto simp: bit_simps)
  moreover have "push_bit 8 (drop_bit (8 + t) v) OR take_bit 8 (drop_bit t v) = drop_bit t v" for t
    using push_drop_or_take [of 8 "drop_bit t v"] by (simp add: add.commute)
  ultimately show ?case using Suc by (simp add: s)
qed simp

lemma push_be64_eq: "push_be64 out v = out @ map (\<lambda>i. ucast (drop_bit ((8 - 1 - i) * 8) v AND 0xFF)) [0..<8]"
  by (simp add: push_be64_def upt_rec)

lemma length_len_field: "length (len_field m n) = (if n < 126 then 1 else if n \<le> 65535 then 3 else 9)"
  by (simp add: len_field_def push_be16_def push_be64_eq)

lemma ucast_bytes16:
  assumes "n \<le> 65535"
  shows "unat (ucast (drop_bit 8 (word_of_nat n :: 16 word)) :: octet) = n div 256"
    and "unat (ucast ((word_of_nat n :: 16 word) AND 0xFF) :: octet) = n mod 256"
proof -
  have n: "unat (word_of_nat n :: 16 word) = n" using assms by (simp add: unat_of_nat)
  have "n div 256 < 256" using assms by simp
  then show "unat (ucast (drop_bit 8 (word_of_nat n :: 16 word)) :: octet) = n div 256"
    by (simp add: unsigned_ucast_eq unat_drop_bit n take_bit_nat_eq_self)
  show "unat (ucast ((word_of_nat n :: 16 word) AND 0xFF) :: octet) = n mod 256"
    using unat_and_mask [of "word_of_nat n :: 16 word" 8] n
    by (simp add: unsigned_ucast_eq mask_eq_exp_minus_1 take_bit_nat_def)
qed

definition len7_of :: "nat \<Rightarrow> octet" where
  "len7_of n = (if n < 126 then word_of_nat n else if n \<le> 65535 then 126 else 127)"

lemma unat_small: "n < 126 \<Longrightarrow> unat (word_of_nat n :: octet) = n"
  by (simp add: unat_of_nat)

lemma len7_less: "len7_of n < 128"
  by (auto simp: len7_of_def word_less_nat_alt unat_small)

lemma len_field_hd: "len_field m n = (mask_bit m OR len7_of n) # tl (len_field m n)"
  by (simp add: len_field_def len7_of_def push_be16_def push_be64_eq)

lemma ext_len_bytes_len7: "ext_len_bytes_of (len7_of n) = length (tl (len_field m n))"
  by (auto simp: len7_of_def ext_len_bytes_of_def len_field_def push_be16_def push_be64_eq word_unat_eq_iff unat_small)

lemma parse_length_ok:
  assumes "n < 2 ^ 63"
  shows "parse_length (b0 # len_field m n @ r) m (len7_of n) = Inr (word_of_nat n)"
proof -
  have un: "unat (word_of_nat n :: 64 word) = n" using assms by (simp add: unat_of_nat)
  consider "n < 126" | "126 \<le> n" "n \<le> 65535" | "65535 < n" by linarith
  then show ?thesis
  proof cases
    case 1
    then have "ucast (word_of_nat n :: octet) = (word_of_nat n :: 64 word)"
      by (simp add: word_unat_eq_iff unsigned_ucast_eq unat_small unat_of_nat take_bit_nat_eq_self)
    with 1 show ?thesis
      by (simp add: parse_length_def len7_of_def word_less_nat_alt unat_small)
  next
    case 2
    note u = ucast_bytes16 [OF 2(2)]
    have "unat (push_bit 8 (ucast (ucast (drop_bit 8 (word_of_nat n :: 16 word)) :: octet))
        OR ucast (ucast ((word_of_nat n :: 16 word) AND 0xFF) :: octet) :: 64 word) = n"
      by (subst unat_be16) (simp_all only: u, simp_all)
    then have "push_bit 8 (ucast (ucast (drop_bit 8 (word_of_nat n :: 16 word)) :: octet))
        OR ucast (ucast ((word_of_nat n :: 16 word) AND 0xFF) :: octet) = (word_of_nat n :: 64 word)"
      by (simp only: word_unat_eq_iff un)
    with 2 show ?thesis
      by (simp add: parse_length_def len7_of_def len_field_def push_be16_def mask_bytes_def)
  next
    case 3
    let ?in = "b0 # len_field m n @ r" and ?v = "word_of_nat n :: 64 word"
    have "?in ! (2 + i) = ucast (drop_bit ((8 - 1 - i) * 8) ?v AND 0xFF)" if "i < 8" for i
      using 3 that by (simp add: len_field_def push_be64_eq nth_append)
    then have "foldl (\<lambda>acc i. push_bit 8 acc OR ucast (?in ! (2 + i))) 0 [0..<8]
        = foldl (\<lambda>acc i. push_bit 8 acc OR ucast (ucast (drop_bit ((8 - 1 - i) * 8) ?v AND 0xFF) :: octet)) 0 [0..<8]"
      by (intro foldl_cong) simp_all
    from trans [OF this be64_fold [OF order.refl, of ?v]]
    have f: "foldl (\<lambda>acc i. push_bit 8 acc OR ucast (?in ! (2 + i))) 0 [0..<8] = ?v"
      by simp
    have "(word_of_nat n :: 64 word) AND 0x8000000000000000 = 0"
    proof -
      have b: "\<not> bit n 63" using assms by (simp add: bit_iff_odd)
      have "(word_of_nat n :: 64 word) AND 2 ^ 63 = 0"
        by (subst and_exp_eq_0_iff_not_bit) (simp add: bit_of_nat_iff b)
      moreover have "(2 :: 64 word) ^ 63 = 0x8000000000000000" by simp
      ultimately show ?thesis by (simp only:)
    qed
    with 3 f show ?thesis
      by (simp add: parse_length_def len7_of_def length_len_field mask_bytes_def del: upt_rec_numeral)
  qed
qed


subsection \<open>The frames of RFC 6455\<close>

text \<open>
  The wire format of sections 5.2 and 5.3 for an unfragmented frame, with the masking key of a client
  frame or none: the reference the parser and the emitter are checked against. It uses nothing of the
  program: octets are numbers, the length is the shortest of the three forms, and the key is applied by
  taking its octets in turn, round and round.
\<close>

fun rfc_opcode :: "opcode \<Rightarrow> nat" where
  "rfc_opcode Continuation = 0"
| "rfc_opcode Text = 1"
| "rfc_opcode Binary = 2"
| "rfc_opcode Close = 8"
| "rfc_opcode Ping = 9"
| "rfc_opcode Pong = 10"

definition rfc_length :: "bool \<Rightarrow> nat \<Rightarrow> octets" where
  "rfc_length masked n =
     (let m = (if masked then 128 else 0) in
      if n \<le> 125 then [word_of_nat (m + n)]
      else if n < 65536 then word_of_nat (m + 126) # big_endian 2 n
      else word_of_nat (m + 127) # big_endian 8 n)"

fun rfc_mask :: "octets \<Rightarrow> octets \<Rightarrow> octets" where
  "rfc_mask (k # ks) (x # xs) = (x XOR k) # rfc_mask (ks @ [k]) xs"
| "rfc_mask ks xs = xs"

definition wire_frame :: "octets option \<Rightarrow> opcode \<Rightarrow> octets \<Rightarrow> octets" where
  "wire_frame key op p =
     word_of_nat (128 + rfc_opcode op) # rfc_length (key \<noteq> None) (length p)
       @ (case key of None \<Rightarrow> p | Some k \<Rightarrow> k @ rfc_mask k p)"

text \<open>The fields as the program writes them.\<close>

lemma push_be16_big_endian: "push_be16 out (word_of_nat n) = out @ big_endian 2 n"
  using octet_of_word [of 0 n, where 'a=16] octet_of_word [of 1 n, where 'a=16]
  by (simp add: push_be16_def big_endian_numeral octet_mod ucast_low)

lemma push_be64_big_endian: "push_be64 out (word_of_nat n) = out @ big_endian 8 n"
proof -
  have "ucast (drop_bit ((8 - 1 - i) * 8) (word_of_nat n :: 64 word) AND 0xFF) = (word_of_nat (n div 256 ^ (8 - 1 - i)) :: octet)"
    if "i < 8" for i
    using octet_of_word [of "8 - 1 - i" n, where 'a=64] that by (simp add: ucast_low mult.commute)
  then show ?thesis unfolding push_be64_eq big_endian_map by simp
qed

lemma rfc_length_field: "rfc_length m n = len_field m n"
proof -
  have "mask_bit m OR word_of_nat n = word_of_nat ((if m then 128 else 0) + n)" if "n < 126" for n
  proof -
    have "mask_bit m AND word_of_nat n = 0"
      using high_low7 [of "word_of_nat n"] that by (simp add: mask_bit_def word_less_nat_alt unat_small and.commute)
    then have "mask_bit m OR word_of_nat n = mask_bit m + word_of_nat n" by (simp add: disjunctive_add_eq_or)
    then show ?thesis by (simp add: mask_bit_def)
  qed
  then show ?thesis
    by (simp add: len_field_def rfc_length_def push_be16_big_endian push_be64_big_endian Let_def) (simp add: mask_bit_def)
qed

lemma rfc_opcode_value: "word_of_nat (128 + rfc_opcode op) = (0x80 OR opcode_value op :: octet)"
  by (cases op) simp_all

lemma rfc_mask_index:
  "ks \<noteq> [] \<Longrightarrow> rfc_mask ks xs = map (\<lambda>i. xs ! i XOR ks ! (i mod length ks)) [0..<length xs]"
proof (induction ks xs rule: rfc_mask.induct)
  case (1 k ks x xs)
  have r: "(ks @ [k]) ! (i mod Suc (length ks)) = (k # ks) ! (Suc i mod Suc (length ks))" for i
    using mod_Suc [of i "Suc (length ks)"] mod_less_divisor [of "Suc (length ks)" i]
    by (auto simp: nth_append nth_Cons' less_Suc_eq)
  from 1 have "rfc_mask (ks @ [k]) xs = map (\<lambda>i. xs ! i XOR (k # ks) ! (Suc i mod Suc (length ks))) [0..<length xs]"
    by (simp add: r)
  then show ?case by (simp add: map_upt_Suc del: upt_Suc)
qed simp_all

lemma rfc_mask_unmask: "length k = 4 \<Longrightarrow> rfc_mask k p = unmask k p"
  using rfc_mask_index [of k p] by (cases k) (simp_all add: unmask_def)

lemma wire_frame_eq:
  assumes "case key of None \<Rightarrow> True | Some k \<Rightarrow> length k = 4"
  shows "wire_frame key op p = (0x80 OR opcode_value op) # len_field (key \<noteq> None) (length p)
    @ (case key of None \<Rightarrow> p | Some k \<Rightarrow> k @ unmask k p)"
  unfolding wire_frame_def rfc_opcode_value rfc_length_field
  using assms by (auto simp: rfc_mask_unmask split: option.split)

lemma wire_frame_ne [simp]: "wire_frame key op p \<noteq> []"
  by (simp add: wire_frame_def)

lemma length_unmask [simp]: "length (unmask k p) = length p"
  by (simp add: unmask_def)

lemma unmask_unmask [simp]: "unmask k (unmask k p) = p"
proof (rule nth_equalityI)
  fix i assume "i < length (unmask k (unmask k p))"
  then show "unmask k (unmask k p) ! i = p ! i"
    by (simp add: unmask_def xor.assoc)
qed simp

definition frame_ok :: "octets option \<Rightarrow> opcode \<Rightarrow> octets \<Rightarrow> nat \<Rightarrow> bool" where
  "frame_ok key op p max_payload \<longleftrightarrow> op \<noteq> Continuation \<and> length p \<le> max_payload \<and> length p < 2 ^ 63
     \<and> (case key of None \<Rightarrow> True | Some k \<Rightarrow> length k = 4)"

lemma parse_wire_frame:
  assumes ok: "frame_ok key op p max_payload"
  shows "parse_frame_detailed (wire_frame key op p @ rest) max_payload (key \<noteq> None)
    = Inr \<lparr>pr_frame = \<lparr>pf_opcode = op, pf_fin = True, pf_payload = p\<rparr>,
           pr_consumed = length (wire_frame key op p)\<rparr>"
proof -
  define m where "m = (key \<noteq> None)"
  define body where "body = (case key of None \<Rightarrow> p | Some k \<Rightarrow> k @ unmask k p)"
  define input where "input = (0x80 OR opcode_value op) # len_field m (length p) @ body @ rest"
  have op: "op \<noteq> Continuation" and n: "length p < 2 ^ 63" "length p \<le> max_payload"
    using ok by (simp_all add: frame_ok_def)
  have w: "wire_frame key op p = (0x80 OR opcode_value op) # len_field (key \<noteq> None) (length p)
      @ (case key of None \<Rightarrow> p | Some k \<Rightarrow> k @ unmask k p)"
    using ok by (intro wire_frame_eq) (simp add: frame_ok_def)
  note l = len_field_hd [of m "length p"] and lt = len7_less [of "length p"]
  have i01: "input ! 0 = 0x80 OR opcode_value op" "input ! 1 = mask_bit m OR len7_of (length p)"
    unfolding input_def by (simp, subst l, simp)
  have u: "unat (word_of_nat (length p) :: 64 word) = length p"
    using n(1) by (simp add: unat_of_nat)
  have bl: "length body = mask_bytes m + length p"
    using ok by (auto simp: body_def m_def mask_bytes_def frame_ok_def split: option.splits)
  have hl: "2 + ext_len_bytes_of (len7_of (length p)) = 1 + length (len_field m (length p))"
    unfolding ext_len_bytes_len7 [of _ m] by (subst (2) l) simp
  have dr: "drop (2 + ext_len_bytes_of (len7_of (length p))) input = body @ rest"
    unfolding hl input_def by simp
  have dr': "drop (2 + ext_len_bytes_of (len7_of (length p)) + mask_bytes m) input
      = drop (mask_bytes m) (body @ rest)"
  proof -
    have "drop (x + y) input = drop y (drop x input)" for x y by (simp add: add.commute)
    from this [of "2 + ext_len_bytes_of (len7_of (length p))" "mask_bytes m"]
    show ?thesis by (simp only: dr)
  qed
  have pl: "parse_length input m (len7_of (length p)) = Inr (word_of_nat (length p))"
    unfolding input_def by (rule parse_length_ok [OF n(1)])
  have pay: "(if m then unmask (take 4 (body @ rest)) (take (length p) (drop (mask_bytes m) (body @ rest)))
      else take (length p) (drop (mask_bytes m) (body @ rest))) = p"
    using ok by (auto simp: body_def m_def mask_bytes_def frame_ok_def split: option.splits)
  have il: "length input = 2 + ext_len_bytes_of (len7_of (length p)) + mask_bytes m + length p + length rest"
    using hl bl by (simp add: input_def)
  have nl: "\<not> length input < 2" "\<not> max_payload < length p"
    "\<not> length input < 2 + ext_len_bytes_of (len7_of (length p)) + mask_bytes m + length p"
    using il n by simp_all
  have "parse_frame_detailed input max_payload m
    = Inr \<lparr>pr_frame = \<lparr>pf_opcode = op, pf_fin = True, pf_payload = p\<rparr>,
           pr_consumed = 2 + ext_len_bytes_of (len7_of (length p)) + mask_bytes m + length p\<rparr>"
    unfolding parse_frame_detailed_def i01 parse_header_ok [OF op lt]
    by (simp only: nl pl u dr dr' pay Let_def sum.case frame_header.simps if_False)
  moreover have "wire_frame key op p @ rest = input"
    by (simp add: input_def w m_def body_def)
  moreover have "length (wire_frame key op p)
      = 2 + ext_len_bytes_of (len7_of (length p)) + mask_bytes m + length p"
    using hl bl by (simp add: w m_def body_def)
  ultimately show ?thesis by (simp only: m_def)
qed

lemma emit_frame_wire: "emit_frame op True p = wire_frame None op p"
  by (simp add: emit_frame_def wire_frame_eq len_field_def mask_bit_def push_be16_def push_be64_eq Let_def)

text \<open>The parser decides on the bytes it has seen: more input changes only \<open>Incomplete\<close>.\<close>

lemma parse_length_prefix:
  assumes "2 \<le> length input" "parse_length input m l = r" "\<forall>e. r = Inl e \<longrightarrow> fe_kind e = Protocol"
  shows "parse_length (input @ ext) m l = r"
proof -
  have "parse_length (input @ ext) m l = parse_length input m l"
    if "\<not> (l = 126 \<and> length input < 4)" "\<not> (\<not> l < 126 \<and> l \<noteq> 126 \<and> length input < 10)"
  proof -
    have "foldl (\<lambda>acc i. push_bit 8 acc OR ucast ((input @ ext) ! (2 + i))) 0 [0..<8]
        = (foldl (\<lambda>acc i. push_bit 8 acc OR ucast (input ! (2 + i))) 0 [0..<8] :: 64 word)"
      if "10 \<le> length input"
      using that by (intro foldl_cong) (simp_all add: nth_append)
    with that show ?thesis
      by (auto simp: parse_length_def Let_def mask_bytes_def nth_append not_less)
  qed
  moreover have "\<not> (l = 126 \<and> length input < 4) \<and> \<not> (\<not> l < 126 \<and> l \<noteq> 126 \<and> length input < 10)"
    using assms(2,3) by (auto simp: parse_length_def Let_def mask_bytes_def frame_defs split: if_splits)
  ultimately show ?thesis using assms(2) by blast
qed

lemma parse_frame_payload:
  assumes "\<not> length input < 2" "parse_header (input ! 0) (input ! 1) em = Inr h"
    and "parse_length input (fh_masked h) (fh_len7 h) = Inr v" "unat v \<le> mx"
  shows "parse_frame_detailed input mx em =
    (let start = 2 + ext_len_bytes_of (fh_len7 h); actual_header = start + mask_bytes (fh_masked h);
         body = take (unat v) (drop actual_header input) in
     if length input < actual_header + unat v then
       Inl (incomplete_error ''Input buffer does not contain a complete frame'')
     else Inr \<lparr>pr_frame = \<lparr>pf_opcode = fh_opcode h, pf_fin = fh_fin h,
                pf_payload = (if fh_masked h then unmask (take 4 (drop start input)) body else body)\<rparr>,
              pr_consumed = actual_header + unat v\<rparr>)"
proof -
  have "\<not> mx < unat v" using assms(4) by simp
  then show ?thesis
    by (simp only: parse_frame_detailed_def assms(1-3) sum.case if_False Let_def)
qed

lemma parse_header_Inr:
  "parse_header b0 b1 em = Inr h \<Longrightarrow> fh_fin h \<and> fh_opcode h \<noteq> Continuation \<and> fh_masked h = em"
  by (auto simp: parse_header_def known_opcode_def Let_def split: if_splits option.splits)

lemma parse_frame_prefix:
  assumes "parse_frame_detailed input mx em = r" "\<forall>e. r = Inl e \<longrightarrow> fe_kind e = Protocol"
  shows "parse_frame_detailed (input @ ext) mx em = r"
proof -
  have l2: "2 \<le> length input"
    using assms by (auto simp: parse_frame_detailed_def frame_defs split: if_splits)
  then have "0 < length input" "1 < length input" by linarith+
  then have n: "(input @ ext) ! 0 = input ! 0" "(input @ ext) ! 1 = input ! 1"
    unfolding nth_append by simp_all
  show ?thesis
  proof (cases "parse_header (input ! 0) (input ! 1) em")
    case (Inl e)
    with assms l2 n show ?thesis by (simp add: parse_frame_detailed_def not_less)
  next
    case (Inr h)
    define pl where "pl = parse_length input (fh_masked h) (fh_len7 h)"
    have pl: "\<forall>e. pl = Inl e \<longrightarrow> fe_kind e = Protocol"
      using assms l2 Inr by (auto simp: parse_frame_detailed_def pl_def [symmetric])
    have "parse_length (input @ ext) (fh_masked h) (fh_len7 h) = pl"
      by (rule parse_length_prefix [OF l2 _ pl]) (simp add: pl_def)
    then have e: "parse_length (input @ ext) (fh_masked h) (fh_len7 h) = pl" .
    have l2': "\<not> length (input @ ext) < 2" "\<not> length input < 2" using l2 by simp_all
    show ?thesis
    proof (cases pl)
      case (Inl x)
      show ?thesis using assms(1)
        by (simp only: parse_frame_detailed_def l2' n Inr e pl_def [symmetric] Inl sum.case if_False)
    next
      case (Inr v)
      let ?total = "2 + ext_len_bytes_of (fh_len7 h) + mask_bytes (fh_masked h) + unat v"
      show ?thesis
      proof (cases "mx < unat v")
        case True
        then show ?thesis using assms(1)
          by (simp only: parse_frame_detailed_def l2' n \<open>parse_header _ _ _ = Inr h\<close> e
              pl_def [symmetric] Inr sum.case if_False if_True Let_def)
      next
        case False
        note d = parse_frame_payload [where v = v and mx = mx and em = em and h = h]
        have v: "unat v \<le> mx" using False by simp
        have "\<not> length input < ?total"
        proof
          assume "length input < ?total"
          then have "r = Inl (incomplete_error ''Input buffer does not contain a complete frame'')"
            using assms(1) d [OF l2'(2) \<open>parse_header _ _ _ = Inr h\<close> _ v] Inr pl_def by simp
          then show False using assms(2) by (simp add: frame_defs)
        qed
        then show ?thesis
          using assms(1) d [OF l2'(2) \<open>parse_header _ _ _ = Inr h\<close> _ v] d [OF l2'(1) _ _ v] n e
            \<open>parse_header _ _ _ = Inr h\<close> Inr pl_def
          by (auto simp: mask_bytes_def)
      qed
    qed
  qed
qed

lemma parse_frame_Inr:
  assumes "parse_frame_detailed input mx em = Inr r"
  shows "pr_consumed r \<le> length input \<and> 2 + length (pf_payload (pr_frame r)) \<le> pr_consumed r
     \<and> length (pf_payload (pr_frame r)) \<le> mx
     \<and> pf_fin (pr_frame r) \<and> pf_opcode (pr_frame r) \<noteq> Continuation"
proof -
  from assms have l2: "\<not> length input < 2" by (auto simp: parse_frame_detailed_def)
  from assms l2 obtain h where h: "parse_header (input ! 0) (input ! 1) em = Inr h"
    by (auto simp: parse_frame_detailed_def split: sum.splits)
  from assms l2 h obtain v where v: "parse_length input (fh_masked h) (fh_len7 h) = Inr v"
    by (auto simp: parse_frame_detailed_def split: sum.splits)
  from assms l2 h v have m: "unat v \<le> mx"
    by (auto simp: parse_frame_detailed_def Let_def split: if_splits)
  from assms parse_frame_payload [OF l2 h v m] parse_header_Inr [OF h] m show ?thesis
    by (auto simp: Let_def min_def split: if_splits)
qed

lemma parse_wire_strict_prefix:
  assumes ok: "frame_ok key op p mx" and k: "k < length (wire_frame key op p)"
  shows "\<exists>e. parse_frame_detailed (take k (wire_frame key op p)) mx (key \<noteq> None) = Inl e \<and> fe_kind e = Incomplete"
proof (rule ccontr)
  let ?w = "wire_frame key op p"
  let ?r = "parse_frame_detailed (take k ?w) mx (key \<noteq> None)"
  assume no: "\<nexists>e. ?r = Inl e \<and> fe_kind e = Incomplete"
  then have "\<forall>e. ?r = Inl e \<longrightarrow> fe_kind e = Protocol" by (metis frame_error_kind.exhaust)
  from parse_frame_prefix [OF refl this, of "drop k ?w"]
  have "parse_frame_detailed ?w mx (key \<noteq> None) = ?r" by simp
  moreover from parse_wire_frame [OF ok, of "[]"]
  obtain r where "parse_frame_detailed ?w mx (key \<noteq> None) = Inr r" "pr_consumed r = length ?w"
    by simp
  ultimately show False using parse_frame_Inr [of "take k ?w" mx "key \<noteq> None" r] k by simp
qed

lemma parse_unmasked_as_client:
  assumes "op \<noteq> Continuation"
  shows "parse_frame_detailed (emit_frame op True p @ rest) mx True
    = Inl (protocol_error ''Client frame must have MASK bit set (RFC 6455 5.3)'')"
proof -
  obtain r where r: "emit_frame op True p @ rest
      = (0x80 OR opcode_value op) # (mask_bit False OR len7_of (length p)) # r"
    by (simp add: emit_frame_wire wire_frame_eq) (metis len_field_hd append_Cons)
  have "parse_header (0x80 OR opcode_value op) (mask_bit False OR len7_of (length p)) True
      = Inl (protocol_error ''Client frame must have MASK bit set (RFC 6455 5.3)'')"
    using assms mask_bit_or(1) [OF len7_less, of False "length p"]
    by (cases op) (simp_all add: parse_header_def known_opcode_def)
  then show ?thesis by (simp add: parse_frame_detailed_def r)
qed

subsection \<open>Properties\<close>

text \<open>
  Claim C16. What the emitter writes the parser reads back: for every opcode but the reserved
  \<open>Continuation\<close> and every payload within the limit, parsing an emitted server frame, or the frame of
  RFC 6455 that a client masks with any four-octet key, yields the opcode, the payload and exactly the
  frame's length as consumed, whatever bytes of the next frame follow it; a server frame in
  place of a client frame is a protocol error. The client's frame is built from the RFC alone, with its own
  opcodes, length forms and masking.
\<close>

theorem emit_parse_roundtrip:
  assumes "op \<noteq> Continuation" "length p \<le> mx" "length p < 2 ^ 63" "length key = 4"
  shows "parse_frame_detailed (emit_frame op True p @ rest) mx False
      = Inr \<lparr>pr_frame = \<lparr>pf_opcode = op, pf_fin = True, pf_payload = p\<rparr>,
             pr_consumed = length (emit_frame op True p)\<rparr>
    \<and> parse_frame_detailed (wire_frame (Some key) op p @ rest) mx True
      = Inr \<lparr>pr_frame = \<lparr>pf_opcode = op, pf_fin = True, pf_payload = p\<rparr>,
             pr_consumed = length (wire_frame (Some key) op p)\<rparr>
    \<and> parse_frame_detailed (emit_frame op True p @ rest) mx True
      = Inl (protocol_error ''Client frame must have MASK bit set (RFC 6455 5.3)'')"
proof (intro conjI)
  have ok: "frame_ok None op p mx" "frame_ok (Some key) op p mx"
    using assms by (simp_all add: frame_ok_def)
  show "parse_frame_detailed (emit_frame op True p @ rest) mx False
      = Inr \<lparr>pr_frame = \<lparr>pf_opcode = op, pf_fin = True, pf_payload = p\<rparr>,
             pr_consumed = length (emit_frame op True p)\<rparr>"
    using parse_wire_frame [OF ok(1), of rest] by (simp add: emit_frame_wire)
  show "parse_frame_detailed (wire_frame (Some key) op p @ rest) mx True
      = Inr \<lparr>pr_frame = \<lparr>pf_opcode = op, pf_fin = True, pf_payload = p\<rparr>,
             pr_consumed = length (wire_frame (Some key) op p)\<rparr>"
    using parse_wire_frame [OF ok(2), of rest] by simp
  show "parse_frame_detailed (emit_frame op True p @ rest) mx True
      = Inl (protocol_error ''Client frame must have MASK bit set (RFC 6455 5.3)'')"
    using assms(1) by (rule parse_unmasked_as_client)
qed

theorem emit_parse_roundtrip_witness:
  "parse_frame_detailed (emit_frame Text True [0x48, 0x69] @ [0x88]) 2 False
     = Inr \<lparr>pr_frame = \<lparr>pf_opcode = Text, pf_fin = True, pf_payload = [0x48, 0x69]\<rparr>,
            pr_consumed = length (emit_frame Text True [0x48, 0x69])\<rparr>"
  using emit_parse_roundtrip [of Text "[0x48, 0x69]" 2 "[1, 2, 3, 4]" "[0x88]"] by simp

text \<open>
  Claim C15. Parsing is incremental: a frame or a protocol error, once decided on the bytes read so
  far, is unchanged by any bytes read later (so the parser may be called again on a grown buffer),
  and every strict prefix of a valid frame is answered \<open>Incomplete\<close>, never with an error that
  would close the connection and never with a truncated frame.
\<close>

theorem parse_frame_incremental:
  assumes "\<forall>e. parse_frame_detailed input mx em = Inl e \<longrightarrow> fe_kind e = Protocol"
    and "frame_ok key op p mx'" and "k < length (wire_frame key op p)"
  shows "parse_frame_detailed (input @ later) mx em = parse_frame_detailed input mx em
    \<and> (\<exists>e. parse_frame_detailed (take k (wire_frame key op p)) mx' (key \<noteq> None) = Inl e
          \<and> fe_kind e = Incomplete)"
  using parse_frame_prefix [OF refl assms(1)] parse_wire_strict_prefix [OF assms(2,3)] by blast

theorem parse_frame_incremental_witness:
  "\<exists>e. parse_frame_detailed (take 5 (wire_frame (Some [1, 2, 3, 4]) Binary [9])) 1 True = Inl e
     \<and> fe_kind e = Incomplete"
proof -
  have "parse_frame_detailed [0x89, 0x00] 0 False
      = Inr \<lparr>pr_frame = \<lparr>pf_opcode = Ping, pf_fin = True, pf_payload = []\<rparr>, pr_consumed = 2\<rparr>"
    by (simp add: parse_frame_detailed_def parse_header_def known_opcode_def parse_length_def
        ext_len_bytes_of_def mask_bytes_def Let_def)
  moreover have "frame_ok (Some [1, 2, 3, 4]) Binary [9] 1" by (simp add: frame_ok_def)
  moreover have "5 < length (wire_frame (Some [1, 2, 3, 4]) Binary [9])"
    by (simp add: wire_frame_def rfc_length_def)
  ultimately show ?thesis
    using parse_frame_incremental [of "[0x89, 0x00]" 0 False "Some [1, 2, 3, 4]" Binary "[9]" 1 5] by simp
qed

text \<open>
  Whatever bytes a peer sends, a parsed frame lies inside the buffer (the consumed count
  covers a header of at least two octets and the whole payload and never runs past the input), its
  payload is within the configured limit, and it is a final frame that is not a continuation; in
  particular the read loop makes progress with every frame.
\<close>

theorem parse_frame_bounds:
  assumes "parse_frame_detailed input mx em = Inr r"
  shows "2 + length (pf_payload (pr_frame r)) \<le> pr_consumed r \<and> pr_consumed r \<le> length input
    \<and> length (pf_payload (pr_frame r)) \<le> mx
    \<and> pf_fin (pr_frame r) \<and> pf_opcode (pr_frame r) \<noteq> Continuation"
  using parse_frame_Inr [OF assms] by simp

text \<open>
  An emitted Close frame respects the control-frame limit of RFC 6455 section 5.5 for every
  code and reason, however long the reason: its payload is at most 125 octets and reads back as the
  big-endian code followed by the first 123 characters of the reason.
\<close>

theorem emit_close_frame_wellformed:
  "\<exists>r. parse_frame_detailed (emit_close_frame code reason) 125 False = Inr r
     \<and> pf_opcode (pr_frame r) = Close \<and> pr_consumed r = length (emit_close_frame code reason)
     \<and> length (pf_payload (pr_frame r)) \<le> 125
     \<and> unat (pf_payload (pr_frame r) ! 0) * 256 + unat (pf_payload (pr_frame r) ! 1) = unat code
     \<and> map char_of_octet (drop 2 (pf_payload (pr_frame r))) = take 123 reason"
proof -
  define p where "p = [ucast (drop_bit 8 code), ucast (code AND 0xFF)]
            @ map octet_of_char (take (min (length reason) 123) reason)"
  have e: "emit_close_frame code reason = wire_frame None Close p"
    by (simp add: emit_close_frame_def p_def emit_frame_wire Let_def)
  have l: "length p \<le> 125" by (simp add: p_def)
  then have "frame_ok None Close p 125" by (simp add: frame_ok_def)
  note r = parse_wire_frame [OF this, of "[]"]
  have "code = word_of_nat (unat code)" by simp
  then have c: "unat (p ! 0) * 256 + unat (p ! 1) = unat code"
    using ucast_bytes16 [of "unat code"] unsigned_less [of code, where 'a = nat] by (simp add: p_def)
  have "map char_of_octet (drop 2 p) = take 123 reason"
    by (simp add: p_def min_def)
  with r l c show ?thesis by (simp add: e)
qed
end
