(* ===== verification/Topic_Bus.thy ===== *)
theory Topic_Bus
  imports Prelude
begin

text \<open>
  The in-process publish/subscribe registry of \<^verbatim>\<open>src/net/topic_bus.cpp\<close>. Subscribers are
  numbers; the set of those still alive is an argument, which is what \<^verbatim>\<open>weak_ptr::lock\<close> and
  \<^verbatim>\<open>expired\<close> consult. Each function is one critical section; \<^verbatim>\<open>publish\<close> has two (the
  snapshot and the pruning) and delivers outside of them.
\<close>

type_synonym sub = nat
type_synonym topic_bus = "string \<rightharpoonup> sub list"

definition bus_subscribe :: "sub set \<Rightarrow> string \<Rightarrow> sub \<Rightarrow> topic_bus \<Rightarrow> topic_bus" where
  "bus_subscribe alive topic s bus =
     (let vec = (case bus topic of None \<Rightarrow> [] | Some v \<Rightarrow> v) in
      if list_ex (\<lambda>w. w \<in> alive \<and> w = s) vec then bus(topic \<mapsto> vec)
      else bus(topic \<mapsto> vec @ [s]))"

definition bus_unsubscribe :: "sub set \<Rightarrow> sub \<Rightarrow> topic_bus \<Rightarrow> topic_bus" where
  "bus_unsubscribe alive s bus = (\<lambda>topic. map_option (filter (\<lambda>w. \<not> (w \<notin> alive \<or> w = s))) (bus topic))"

text \<open>The snapshot: the live subscribers in order, and whether a dead entry was seen.\<close>

definition publish_snapshot :: "sub set \<Rightarrow> string \<Rightarrow> topic_bus \<Rightarrow> (sub list \<times> bool) option" where
  "publish_snapshot alive topic bus =
     (case bus topic of None \<Rightarrow> None
      | Some vec \<Rightarrow> Some (filter (\<lambda>w. w \<in> alive) vec, list_ex (\<lambda>w. w \<notin> alive) vec))"

definition publish_prune :: "sub set \<Rightarrow> string \<Rightarrow> topic_bus \<Rightarrow> topic_bus" where
  "publish_prune alive topic bus =
     (case bus topic of None \<Rightarrow> bus | Some vec \<Rightarrow> bus(topic \<mapsto> filter (\<lambda>w. w \<in> alive) vec))"

definition publish_deliver :: "sub option \<Rightarrow> sub list \<Rightarrow> sub list" where
  "publish_deliver sender live_subs = filter (\<lambda>sp. \<not> (sender = Some sp)) live_subs"

text \<open>A publish that is not interleaved: the receivers of the message and the pruned registry.\<close>

definition bus_publish :: "sub set \<Rightarrow> string \<Rightarrow> sub option \<Rightarrow> topic_bus \<Rightarrow> sub list \<times> topic_bus" where
  "bus_publish alive topic sender bus =
     (case publish_snapshot alive topic bus of
        None \<Rightarrow> ([], bus)
      | Some (live_subs, has_dead) \<Rightarrow>
          (publish_deliver sender live_subs, if has_dead then publish_prune alive topic bus else bus))"

subsection \<open>The registry contract\<close>

text \<open>
  What a session relies on: the live members of a topic change by a subscription, by the removal of
  a subscriber and by a death, and by nothing else.
\<close>

datatype bus_op = OpSubscribe string sub | OpUnsubscribe sub | OpPrune string | OpDeath sub

text \<open>The membership a history of operations promises: who is alive, and who is subscribed to what.\<close>

fun spec_op :: "bus_op \<Rightarrow> sub set \<times> (string \<times> sub) set \<Rightarrow> sub set \<times> (string \<times> sub) set" where
  "spec_op (OpSubscribe t s) (alive, R) = (alive, if s \<in> alive then insert (t, s) R else R)"
| "spec_op (OpUnsubscribe s) (alive, R) = (alive, {(t, s') \<in> R. s' \<noteq> s})"
| "spec_op (OpPrune t) (alive, R) = (alive, R)"
| "spec_op (OpDeath d) (alive, R) = (alive - {d}, {(t, s') \<in> R. s' \<noteq> d})"

locale subscriber_registry =
  fixes members :: "sub set \<Rightarrow> 'b \<Rightarrow> string \<Rightarrow> sub set"
    and subscribe_op :: "sub set \<Rightarrow> string \<Rightarrow> sub \<Rightarrow> 'b \<Rightarrow> 'b"
    and unsubscribe_op :: "sub set \<Rightarrow> sub \<Rightarrow> 'b \<Rightarrow> 'b"
    and prune_op :: "sub set \<Rightarrow> string \<Rightarrow> 'b \<Rightarrow> 'b"
    and empty_reg :: 'b
  assumes members_empty: "members alive empty_reg t = {}"
    and members_subscribe: "s \<in> alive \<Longrightarrow>
      members alive (subscribe_op alive t s b) u = members alive b u \<union> (if u = t then {s} else {})"
    and members_unsubscribe: "members alive (unsubscribe_op alive s b) u = members alive b u - {s}"
    and members_prune: "members alive (prune_op alive t b) u = members alive b u"
    and members_death: "members (alive - dead) b u = members alive b u - dead"
begin

primrec run_op :: "bus_op \<Rightarrow> sub set \<times> 'b \<Rightarrow> sub set \<times> 'b" where
  "run_op (OpSubscribe t s) st = (fst st, if s \<in> fst st then subscribe_op (fst st) t s (snd st) else snd st)"
| "run_op (OpUnsubscribe s) st = (fst st, unsubscribe_op (fst st) s (snd st))"
| "run_op (OpPrune t) st = (fst st, prune_op (fst st) t (snd st))"
| "run_op (OpDeath d) st = (fst st - {d}, snd st)"

lemma run_op_spec:
  assumes "members (fst st) (snd st) = (\<lambda>u. {s. (u, s) \<in> R})"
  shows "fst (run_op x st) = fst (spec_op x (fst st, R))
    \<and> members (fst (run_op x st)) (snd (run_op x st)) = (\<lambda>u. {s. (u, s) \<in> snd (spec_op x (fst st, R))})"
proof (cases x)
  case (OpSubscribe t s)
  then show ?thesis using assms by (auto simp: fun_eq_iff members_subscribe)
next
  case (OpUnsubscribe s)
  then show ?thesis using assms by (auto simp: fun_eq_iff members_unsubscribe)
next
  case (OpPrune t)
  then show ?thesis using assms by (auto simp: fun_eq_iff members_prune)
next
  case (OpDeath d)
  then show ?thesis using assms by (auto simp: fun_eq_iff members_death)
qed

lemma run_ops_spec:
  "members (fst (foldl (\<lambda>st x. run_op x st) (alive, empty_reg) xs)) (snd (foldl (\<lambda>st x. run_op x st) (alive, empty_reg) xs)) u
      = {s. (u, s) \<in> snd (foldl (\<lambda>st x. spec_op x st) (alive, {}) xs)}
   \<and> fst (foldl (\<lambda>st x. run_op x st) (alive, empty_reg) xs) = fst (foldl (\<lambda>st x. spec_op x st) (alive, {}) xs)"
proof -
  have "fst st = fst sp \<Longrightarrow> members (fst st) (snd st) = (\<lambda>u. {s. (u, s) \<in> snd sp}) \<Longrightarrow>
      members (fst (foldl (\<lambda>st x. run_op x st) st xs)) (snd (foldl (\<lambda>st x. run_op x st) st xs))
        = (\<lambda>u. {s. (u, s) \<in> snd (foldl (\<lambda>st x. spec_op x st) sp xs)})
      \<and> fst (foldl (\<lambda>st x. run_op x st) st xs) = fst (foldl (\<lambda>st x. spec_op x st) sp xs)" for st sp
  proof (induction xs arbitrary: st sp)
    case (Cons x xs)
    have "spec_op x (fst st, snd sp) = spec_op x sp" using Cons.prems(1) by simp
    with run_op_spec [OF Cons.prems(2), of x] Cons.prems(1)
    have "fst (run_op x st) = fst (spec_op x sp)"
      "members (fst (run_op x st)) (snd (run_op x st)) = (\<lambda>u. {s. (u, s) \<in> snd (spec_op x sp)})" by metis+
    from Cons.IH [OF this] show ?case unfolding foldl_Cons .
  qed simp
  note h = this [of "(alive, empty_reg)" "(alive, {})"]
  have "members alive empty_reg = (\<lambda>u. {s. (u, s) \<in> {}})" by (rule ext) (simp add: members_empty)
  with h show ?thesis unfolding fst_conv snd_conv by metis
qed

end

subsection \<open>The bus implements the contract\<close>

definition bus_members :: "sub set \<Rightarrow> topic_bus \<Rightarrow> string \<Rightarrow> sub set" where
  "bus_members alive bus topic = (case bus topic of None \<Rightarrow> {} | Some vec \<Rightarrow> set vec \<inter> alive)"

interpretation bus: subscriber_registry bus_members bus_subscribe bus_unsubscribe publish_prune Map.empty
proof unfold_locales
  show "bus_members alive (bus_subscribe alive t s b) u = bus_members alive b u \<union> (if u = t then {s} else {})"
    if "s \<in> alive" for alive t s b u
    using that
    by (cases "b t") (auto simp: bus_members_def bus_subscribe_def Let_def list_ex_iff split: option.splits)
qed (auto simp: bus_members_def bus_unsubscribe_def publish_prune_def split: option.splits)

definition bus_ok :: "topic_bus \<Rightarrow> bool" where
  "bus_ok bus \<longleftrightarrow> (\<forall>topic vec. bus topic = Some vec \<longrightarrow> distinct vec)"

lemma bus_ok_run: "bus_ok (snd st) \<Longrightarrow> bus_ok (snd (bus.run_op x st))"
  by (cases x)
     (auto simp: bus_ok_def bus_subscribe_def bus_unsubscribe_def publish_prune_def Let_def list_ex_iff
       split: option.splits if_splits)

lemma bus_ok_runs: "bus_ok (snd st) \<Longrightarrow> bus_ok (snd (foldl (\<lambda>st x. bus.run_op x st) st xs))"
  by (induction xs arbitrary: st) (simp_all add: bus_ok_run)

text \<open>The code's operations, one history step each.\<close>

fun bus_step :: "sub set \<times> topic_bus \<Rightarrow> bus_op \<Rightarrow> sub set \<times> topic_bus" where
  "bus_step (alive, bus) (OpSubscribe t s) = (alive, if s \<in> alive then bus_subscribe alive t s bus else bus)"
| "bus_step (alive, bus) (OpUnsubscribe s) = (alive, bus_unsubscribe alive s bus)"
| "bus_step (alive, bus) (OpPrune t) = (alive, publish_prune alive t bus)"
| "bus_step (alive, bus) (OpDeath d) = (alive - {d}, bus)"

lemma bus_step_run: "bus_step st x = bus.run_op x st"
  by (cases st; cases x) simp_all

text \<open>
  Publishing reaches the right receivers: after any history of subscriptions (by live
  subscribers), removals, prunings and deaths, a publish delivers to every subscriber that is alive,
  subscribed to the topic and not since removed, except the sender, to each of them exactly once,
  and to nobody else; and it does not change who is subscribed to what.
\<close>

lemma publish_reaches_subscribers:
  fixes xs :: "bus_op list"
  shows "let (alive, bus) = foldl bus_step (alive0, Map.empty) xs;
           subscribed = snd (foldl (\<lambda>st x. spec_op x st) (alive0, {}) xs);
           (receivers, bus') = bus_publish alive topic sender bus
       in set receivers = {s. (topic, s) \<in> subscribed} - set_option sender \<and> distinct receivers
        \<and> bus_members alive bus' = bus_members alive bus"
proof -
  obtain alive bus where st: "foldl bus_step (alive0, Map.empty) xs = (alive, bus)" by fastforce
  have e: "foldl bus_step (alive0, Map.empty) xs = foldl (\<lambda>st x. bus.run_op x st) (alive0, Map.empty) xs"
    by (simp add: bus_step_run [abs_def])
  have m: "bus_members alive bus topic = {s. (topic, s) \<in> snd (foldl (\<lambda>st x. spec_op x st) (alive0, {}) xs)}"
    using bus.run_ops_spec [where xs = xs and alive = alive0 and u = topic] st e by (metis fst_conv snd_conv)
  have ok: "bus_ok bus"
    using bus_ok_runs [of "(alive0, Map.empty)" xs] st e by (simp add: bus_ok_def)
  have p: "bus_members alive (publish_prune alive topic bus) = bus_members alive bus"
    by (rule ext) (rule bus.members_prune)
  show ?thesis
    using m ok p st
    by (cases "bus topic")
       (auto simp: bus_publish_def publish_snapshot_def publish_deliver_def bus_members_def bus_ok_def split: option.splits)
qed

end
