(* ===== verification/Ws_Session.thy ===== *)
theory Ws_Session
  imports Ws_Frame Topic_Bus "HOL-Library.Sublist"
begin

text \<open>
  The WebSocket session of \<^verbatim>\<open>src/net/websocket_session.cpp\<close>: the send path as a step relation
  over the strand, the send queue and the drain coroutine, the read loop as a function over what
  the stream returns, and the hand-over between \<^verbatim>\<open>wait_for_close\<close> and the end of the read loop
  as a step relation over the two atomics. Work posted to the strand runs one task at a time in
  posting order. The drain coroutine starts inside a strand task, but after its first write it
  is resumed by the stream's executor, so its continuation interleaves with strand tasks: leaving
  the loop and clearing \<^verbatim>\<open>sending_\<close> are two steps.
\<close>

definition kMaxSendQueueDepth :: nat where "kMaxSendQueueDepth = 128"
definition kReadChunkSize :: nat where "kReadChunkSize = 4096"
definition kCloseProtocolError :: "16 word" where "kCloseProtocolError = 1002"
definition kCloseUnsupportedData :: "16 word" where "kCloseUnsupportedData = 1003"
definition kCloseMessageTooLarge :: "16 word" where "kCloseMessageTooLarge = 1009"
definition kNormalClosure :: "16 word" where "kNormalClosure = 1000"

subsection \<open>The send path\<close>

datatype strand_task =
    EnqueueFrame octets
  | EnqueuePriority octets
  | BusMessage string

datatype drain_state = DrainIdle | DrainWriting octets | DrainLeaving

record session =
  send_queue :: "octets list"
  sending :: bool
  closed :: bool
  close_sent :: bool
  strand :: "strand_task list"
  drain :: drain_state
  wire :: "octets list"

definition new_session :: session where
  "new_session = \<lparr>send_queue = [], sending = False, closed = False, close_sent = False,
     strand = [], drain = DrainIdle, wire = []\<rparr>"

definition closed_error :: "string \<Rightarrow> ws_error" where
  "closed_error m = \<lparr>ws_code = Closed, ws_message = m\<rparr>"

definition post :: "strand_task \<Rightarrow> session \<Rightarrow> session" where
  "post task s = s\<lparr>strand := strand s @ [task]\<rparr>"

definition send_text :: "string \<Rightarrow> session \<Rightarrow> (ws_error + unit) \<times> session" where
  "send_text message s =
     (if closed s then (Inl (closed_error ''WebSocket is closed''), s)
      else (Inr (), post (EnqueueFrame (emit_frame Text True (map octet_of_char message))) s))"

definition send_binary :: "octets \<Rightarrow> session \<Rightarrow> (ws_error + unit) \<times> session" where
  "send_binary data s =
     (if closed s then (Inl (closed_error ''WebSocket is closed''), s)
      else (Inr (), post (EnqueueFrame (emit_frame Binary True data)) s))"

text \<open>\<^verbatim>\<open>close_sent_.compare_exchange_strong(false, true)\<close> and the frame it guards.\<close>

definition try_close :: "octets \<Rightarrow> session \<Rightarrow> session" where
  "try_close frame s =
     (if \<not> close_sent s then post (EnqueuePriority frame) (s\<lparr>close_sent := True\<rparr>) else s)"

definition close_graceful :: "16 word \<Rightarrow> string \<Rightarrow> session \<Rightarrow> (ws_error + unit) \<times> session" where
  "close_graceful code reason s =
     (if closed s then (Inl (closed_error ''WebSocket is already closed''), s)
      else (Inr (), try_close (emit_close_frame code reason) s))"

definition send_from_bus :: "string \<Rightarrow> session \<Rightarrow> session" where
  "send_from_bus message s = (if closed s then s else post (BusMessage message) s)"

text \<open>One turn of the drain loop: take the next frame and start writing it.\<close>

definition drain_turn :: "session \<Rightarrow> session" where
  "drain_turn s = (case send_queue s of
      [] \<Rightarrow> s\<lparr>drain := DrainLeaving\<rparr>
    | frame # rest \<Rightarrow> s\<lparr>send_queue := rest, drain := DrainWriting frame\<rparr>)"

definition kick_drain :: "session \<Rightarrow> session" where
  "kick_drain s = (if \<not> sending s then drain_turn (s\<lparr>sending := True\<rparr>) else s)"

fun run_task :: "strand_task \<Rightarrow> session \<Rightarrow> session" where
  "run_task (EnqueueFrame f) s =
     (if length (send_queue s) \<ge> kMaxSendQueueDepth then s
      else kick_drain (s\<lparr>send_queue := send_queue s @ [f]\<rparr>))"
| "run_task (EnqueuePriority f) s = kick_drain (s\<lparr>send_queue := f # send_queue s\<rparr>)"
| "run_task (BusMessage msg) s =
     (if closed s then s
      else if length (send_queue s) \<ge> kMaxSendQueueDepth then s
      else kick_drain (s\<lparr>send_queue := send_queue s @ [emit_frame Text True (map octet_of_char msg)]\<rparr>))"

text \<open>The write completes: success goes round the loop, failure closes and leaves it.\<close>

definition write_done :: "bool \<Rightarrow> octets \<Rightarrow> session \<Rightarrow> session" where
  "write_done success frame s =
     (let s = (if success then s\<lparr>wire := wire s @ [frame]\<rparr> else s) in
      if success then drain_turn s
      else s\<lparr>closed := True, send_queue := [], drain := DrainLeaving\<rparr>)"

text \<open>
  The steps of a session: calls from any thread, posts of the read loop (a pong, a close attempt, the
  end of the session), the strand, the completion of a write and the end of the drain. The log
  of messages accepted into the queue is not part of the state.
\<close>

inductive session_step :: "session \<Rightarrow> session \<Rightarrow> bool" where
  step_text: "session_step s (snd (send_text m s))"
| step_binary: "session_step s (snd (send_binary d s))"
| step_close: "session_step s (snd (close_graceful code reason s))"
| step_bus: "session_step s (send_from_bus m s)"
| step_pong: "session_step s (post (EnqueuePriority (emit_frame Pong True p)) s)"
| step_try_close: "session_step s (try_close (emit_close_frame code reason) s)"
| step_end: "session_step s (s\<lparr>closed := True\<rparr>)"
| step_strand: "strand s = task # rest \<Longrightarrow> session_step s (run_task task (s\<lparr>strand := rest\<rparr>))"
| step_write: "drain s = DrainWriting f \<Longrightarrow> session_step s (write_done success f s)"
| step_leave: "drain s = DrainLeaving \<Longrightarrow> session_step s (s\<lparr>sending := False, drain := DrainIdle\<rparr>)"

inductive session_reach :: "session \<Rightarrow> bool" where
  reach_init: "session_reach new_session"
| reach_step: "session_reach s \<Longrightarrow> session_step s t \<Longrightarrow> session_reach t"

inductive_cases session_step_cases: "session_step s t"

subsection \<open>The read loop\<close>

text \<open>
  What the loop does with the frames it finds: a message for the callback, a frame for the front of
  the queue, an attempt to close, the \<^verbatim>\<open>on_close\<close> callback and the end of the session.
\<close>

datatype read_event =
    OnMessage string
  | PostPong octets
  | TryClose octets
  | OnClose "16 word"
  | CloseSession

definition close_code_of :: "octets \<Rightarrow> 16 word" where
  "close_code_of payload =
     (if length payload \<ge> 2 then push_bit 8 (ucast (payload ! 0)) OR ucast (payload ! 1) else kNormalClosure)"

text \<open>The switch over the opcode of one frame: the events and whether the session ended.\<close>

definition handle_frame :: "parsed_frame \<Rightarrow> read_event list \<times> bool" where
  "handle_frame fr =
     (case pf_opcode fr of
        Text \<Rightarrow> ([OnMessage (map char_of_octet (pf_payload fr))], False)
      | Binary \<Rightarrow> ([OnMessage (map char_of_octet (pf_payload fr))], False)
      | Ping \<Rightarrow> ([PostPong (emit_frame Pong True (pf_payload fr))], False)
      | Pong \<Rightarrow> ([], False)
      | Close \<Rightarrow>
          (let close_code = close_code_of (pf_payload fr) in
           ([TryClose (emit_close_frame close_code []), CloseSession, OnClose close_code], True))
      | Continuation \<Rightarrow>
          ([TryClose (emit_close_frame kCloseUnsupportedData ''Continuation frames not supported''), CloseSession], True))"

definition parse_failure_close :: "parse_frame_error \<Rightarrow> octets" where
  "parse_failure_close e =
     (if ws_code (fe_error e) = FrameTooLarge
      then emit_close_frame kCloseMessageTooLarge ''Message too large''
      else emit_close_frame kCloseProtocolError ''Protocol error'')"

lemma parse_frame_progress:
  "parse_frame_detailed acc mx em = Inr r \<Longrightarrow> acc \<noteq> [] \<Longrightarrow> length acc - pr_consumed r < length acc"
  using parse_frame_Inr [of acc mx em r] by (cases acc) auto

text \<open>
  The inner loop: the events, the bytes left in the accumulator and whether the session ended. A
  parsed frame consumes at least two bytes, so the recursion ends.
\<close>

function parse_all :: "nat \<Rightarrow> octets \<Rightarrow> read_event list \<times> octets \<times> bool" where
  "parse_all max_payload acc =
     (if acc = [] then ([], acc, False)
      else case parse_frame_detailed acc max_payload True of
        Inl e \<Rightarrow>
          if fe_kind e = Incomplete then ([], acc, False)
          else ([TryClose (parse_failure_close e), CloseSession], acc, True)
      | Inr r \<Rightarrow>
          (let (evs, session_ended) = handle_frame (pr_frame r);
               acc' = drop (pr_consumed r) acc in
           if session_ended then (evs, acc', True)
           else (let (evs', acc'', ended) = parse_all max_payload acc' in (evs @ evs', acc'', ended))))"
  by pat_completeness auto
termination
  by (relation "measure (\<lambda>(_, acc). length acc)") (auto intro: parse_frame_progress)

declare parse_all.simps [simp del]

text \<open>The outer loop over the results of the reads; \<open>None\<close> is an I/O error or an empty read.\<close>

fun do_read_loop :: "nat \<Rightarrow> octets \<Rightarrow> octets option list \<Rightarrow> read_event list" where
  "do_read_loop max_payload acc [] = []"
| "do_read_loop max_payload acc (None # reads) = [CloseSession]"
| "do_read_loop max_payload acc (Some chunk # reads) =
     (if chunk = [] then [CloseSession]
      else (let (evs, acc', ended) = parse_all max_payload (acc @ chunk) in
            if ended then evs else evs @ do_read_loop max_payload acc' reads))"

subsection \<open>Reading is independent of the chunking\<close>

lemma parse_all_append:
  "parse_all mx a = (evs, rest, ended) \<Longrightarrow>
     parse_all mx (a @ b) = (if ended then (evs, rest @ b, True)
       else (let (evs', rest', ended') = parse_all mx (rest @ b) in (evs @ evs', rest', ended')))"
proof (induction mx a arbitrary: evs rest ended rule: parse_all.induct)
  case (1 mx a)
  show ?case
  proof (cases "a = []")
    case True
    with "1.prems" show ?thesis by (simp add: parse_all.simps [of mx "[]"])
  next
    case False
    show ?thesis
    proof (cases "parse_frame_detailed a mx True")
      case (Inl e)
      show ?thesis
      proof (cases "fe_kind e = Incomplete")
        case True
        with False Inl "1.prems" show ?thesis by (auto simp: parse_all.simps [of mx a])
      next
        case pr: False
        then have "\<forall>e'. Inl e = Inl e' \<longrightarrow> fe_kind e' = Protocol"
          by (metis frame_error_kind.exhaust sum.inject(1))
        from parse_frame_prefix [OF Inl this]
        have "parse_frame_detailed (a @ b) mx True = Inl e" .
        moreover have "evs = [TryClose (parse_failure_close e), CloseSession]" "rest = a" "ended"
          using False Inl pr "1.prems" by (auto simp: parse_all.simps [of mx a])
        ultimately show ?thesis using False pr
          by (simp add: parse_all.simps [of mx "a @ b"])
      qed
    next
      case (Inr r)
      have ab: "parse_frame_detailed (a @ b) mx True = Inr r"
        by (rule parse_frame_prefix [OF Inr]) simp
      have d: "drop (pr_consumed r) (a @ b) = drop (pr_consumed r) a @ b"
        using parse_frame_Inr [OF Inr] by simp
      obtain fevs fend where h: "handle_frame (pr_frame r) = (fevs, fend)" by fastforce
      show ?thesis
      proof (cases fend)
        case True
        have "evs = fevs" "rest = drop (pr_consumed r) a" "ended"
          using False Inr h True "1.prems" by (auto simp: parse_all.simps [of mx a])
        then show ?thesis using False ab d h True
          by (simp add: parse_all.simps [of mx "a @ b"])
      next
        case fe: False
        obtain evs1 rest1 end1 where r1: "parse_all mx (drop (pr_consumed r) a) = (evs1, rest1, end1)"
          by (metis prod_cases3)
        have "evs = fevs @ evs1" "rest = rest1" "ended = end1"
          using False Inr h fe r1 "1.prems" by (auto simp: parse_all.simps [of mx a])
        moreover note "1.IH" [OF False Inr refl h [symmetric] refl fe r1]
        ultimately show ?thesis using False ab d h fe
          by (auto simp: parse_all.simps [of mx "a @ b"] Let_def split: prod.splits)
      qed
    qed
  qed
qed

lemma read_loop_merge:
  assumes "\<forall>c \<in> set chunks. c \<noteq> []" "chunks \<noteq> []"
  shows "do_read_loop mx acc (map Some chunks @ reads) = do_read_loop mx acc (Some (concat chunks) # reads)"
  using assms
proof (induction chunks arbitrary: acc)
  case (Cons c cs)
  obtain evs acc' ended where p: "parse_all mx (acc @ c) = (evs, acc', ended)" by (metis prod_cases3)
  show ?case
  proof (cases "cs = []")
    case False
    with Cons.prems have ne: "concat cs \<noteq> []" by (cases cs) auto
    obtain evs' acc'' ended' where q: "parse_all mx (acc' @ concat cs) = (evs', acc'', ended')" by (metis prod_cases3)
    have m: "parse_all mx (acc @ concat (c # cs)) = (if ended then (evs, acc' @ concat cs, True) else (evs @ evs', acc'', ended'))"
      using parse_all_append [OF p, of "concat cs"] q by simp
    have "do_read_loop mx acc' (map Some cs @ reads) = do_read_loop mx acc' (Some (concat cs) # reads)"
      using Cons.IH [of acc'] Cons.prems False by simp
    then show ?thesis using p q m ne Cons.prems by (simp add: Let_def)
  qed simp
qed simp

text \<open>
  What a session does with the client's bytes does not depend on how they are cut into reads:
  any two chunkings of the same byte stream produce the same messages, pongs, close attempts and
  callbacks, in the same order.
\<close>

theorem read_loop_chunking:
  assumes "concat chunks = concat chunks'" "list_all (\<lambda>c. c \<noteq> []) chunks" "list_all (\<lambda>c. c \<noteq> []) chunks'"
  shows "do_read_loop mx acc (map Some chunks @ reads) = do_read_loop mx acc (map Some chunks' @ reads)"
proof (cases "chunks = []")
  case True
  with assms have "chunks' = []" by (cases chunks') auto
  with True show ?thesis by simp
next
  case False
  with assms have "chunks' \<noteq> []" by (cases chunks) auto
  with False read_loop_merge [of chunks mx acc reads] read_loop_merge [of chunks' mx acc reads] assms
  show ?thesis by (simp add: list_all_iff)
qed

text \<open>
  What a server owes a sequence of client frames, opcode by opcode and without the program's switch: a
  data frame is a message, a ping is answered by the pong frame of RFC 6455 with the same payload, a pong
  by nothing, and a Close by a Close frame with the peer's code (1000 where it sent none), after which
  nothing more is served.
\<close>

fun peer_code :: "octets \<Rightarrow> nat" where
  "peer_code (hi # lo # reason) = unat hi * 256 + unat lo"
| "peer_code _ = 1000"

fun frame_events :: "(opcode \<times> octets) list \<Rightarrow> read_event list" where
  "frame_events [] = []"
| "frame_events ((Text, p) # frs) = OnMessage (map char_of_octet p) # frame_events frs"
| "frame_events ((Binary, p) # frs) = OnMessage (map char_of_octet p) # frame_events frs"
| "frame_events ((Ping, p) # frs) = PostPong (wire_frame None Pong p) # frame_events frs"
| "frame_events ((Pong, p) # frs) = frame_events frs"
| "frame_events ((Close, p) # frs) =
     [TryClose (wire_frame None Close (big_endian 2 (peer_code p))), CloseSession,
      OnClose (word_of_nat (peer_code p))]"
| "frame_events ((Continuation, p) # frs) = []"

lemma emit_close_wire: "emit_close_frame (word_of_nat n) [] = wire_frame None Close (big_endian 2 n)"
  using push_be16_big_endian [of "[]" n] by (simp add: emit_close_frame_def push_be16_def emit_frame_wire)

lemma close_code_peer: "close_code_of p = word_of_nat (peer_code p)"
proof (cases p rule: peer_code.cases)
  case (1 hi lo reason)
  have "unat w = n \<Longrightarrow> w = word_of_nat n" for w :: "16 word" and n by auto
  from this [OF unat_be16] show ?thesis unfolding 1 by (simp add: close_code_of_def del: of_nat_add of_nat_mult)
qed (simp_all add: close_code_of_def kNormalClosure_def)

lemma handle_frame_events:
  assumes "op \<noteq> Continuation" "handle_frame \<lparr>pf_opcode = op, pf_fin = True, pf_payload = p\<rparr> = (evs, ended)"
  shows "frame_events ((op, p) # frs) = (if ended then evs else evs @ frame_events frs)"
  using assms by (cases op) (auto simp: handle_frame_def Let_def emit_frame_wire close_code_peer emit_close_wire)

fun client_bytes :: "octets \<Rightarrow> (opcode \<times> octets) list \<Rightarrow> octets" where
  "client_bytes key [] = []"
| "client_bytes key ((op, p) # frs) = wire_frame (Some key) op p @ client_bytes key frs"

lemma parse_all_frames:
  assumes "length key = 4" "list_all (\<lambda>(op, p). op \<noteq> Continuation \<and> length p \<le> mx \<and> length p < 2 ^ 63) frs"
  shows "\<exists>rest ended. parse_all mx (client_bytes key frs) = (frame_events frs, rest, ended)
    \<and> (\<not> ended \<longrightarrow> rest = [])"
  using assms(2)
proof (induction frs)
  case Nil
  show ?case by (intro exI [of _ "[]"] exI [of _ False]) (simp add: parse_all.simps)
next
  case (Cons fr frs)
  obtain op p where fr: "fr = (op, p)" by fastforce
  from Cons.prems have ok: "frame_ok (Some key) op p mx" using assms(1) by (simp add: frame_ok_def fr)
  from parse_wire_frame [OF ok, of "client_bytes key frs"]
  have pf: "parse_frame_detailed (wire_frame (Some key) op p @ client_bytes key frs) mx True
      = Inr \<lparr>pr_frame = \<lparr>pf_opcode = op, pf_fin = True, pf_payload = p\<rparr>, pr_consumed = length (wire_frame (Some key) op p)\<rparr>"
    by simp
  have op: "op \<noteq> Continuation" using ok by (simp add: frame_ok_def)
  obtain evs e where h: "handle_frame \<lparr>pf_opcode = op, pf_fin = True, pf_payload = p\<rparr> = (evs, e)" by fastforce
  from Cons obtain rest ended where ih: "parse_all mx (client_bytes key frs) = (frame_events frs, rest, ended)"
    "\<not> ended \<longrightarrow> rest = []" by auto
  show ?case
    using pf ih h
    by (subst parse_all.simps) (auto simp: fr Let_def handle_frame_events [OF op h] simp del: frame_events.simps)
qed

text \<open>
  Claim C9. The read loop serves the frames in the order they were sent: for every sequence of client
  frames within the payload limit and every chunking of their bytes, each text or binary frame is
  delivered to \<^verbatim>\<open>on_message\<close> with its unmasked payload, each ping is answered by a pong with the
  same payload, a pong by nothing, a Close is echoed with its code and ends the session, and frames after it
  are ignored. The client's bytes and the answers are frames built from RFC 6455, not with the program's
  emitter, masking loop or opcode switch.
\<close>

theorem read_loop_serves_frames:
  assumes "length key = 4"
    and "list_all (\<lambda>(op, p). op \<noteq> Continuation \<and> length p \<le> mx \<and> length p < 2 ^ 63) frs"
    and "concat chunks = client_bytes key frs" "list_all (\<lambda>c. c \<noteq> []) chunks"
  shows "do_read_loop mx [] (map Some chunks) = frame_events frs"
proof (cases "chunks = []")
  case True
  then have "frs = []" using assms(3) wire_frame_ne by (cases frs) auto
  with True show ?thesis by simp
next
  case False
  then have "concat chunks \<noteq> []" using assms(4) by (cases chunks) auto
  moreover from parse_all_frames [OF assms(1,2)] obtain rest ended where
    "parse_all mx (client_bytes key frs) = (frame_events frs, rest, ended)" by blast
  moreover have "do_read_loop mx [] (map Some chunks) = do_read_loop mx [] [Some (concat chunks)]"
    using read_loop_merge [of chunks mx "[]" "[]"] False assms(4) by (simp add: list_all_iff)
  ultimately show ?thesis using assms(3) by simp
qed

theorem read_loop_serves_frames_witness:
  "do_read_loop 10 [] (map Some [client_bytes [1, 2, 3, 4] [(Ping, [7]), (Pong, [8]), (Text, [0x68, 0x69]), (Binary, [0x21]), (Close, []), (Text, [0x78])]])
     = [PostPong [0x8A, 1, 7], OnMessage ''hi'', OnMessage ''!'', TryClose [0x88, 2, 0x03, 0xE8], CloseSession, OnClose 1000]"
proof -
  let ?frs = "[(Ping, [7]), (Pong, [8]), (Text, [0x68, 0x69]), (Binary, [0x21]), (Close, []), (Text, [0x78])] :: (opcode \<times> octets) list"
  have "map char_of_octet [0x68, 0x69] = ''hi''" "map char_of_octet [0x21] = ''!''" by code_simp+
  then have "frame_events ?frs = [PostPong [0x8A, 1, 7], OnMessage ''hi'', OnMessage ''!'',
      TryClose [0x88, 2, 0x03, 0xE8], CloseSession, OnClose 1000]"
    by (simp add: wire_frame_def rfc_length_def big_endian_numeral)
  moreover have "list_all (\<lambda>c. c \<noteq> []) [client_bytes [1, 2, 3, 4] ?frs]" by simp
  ultimately show ?thesis
    using read_loop_serves_frames [of "[1, 2, 3, 4]" 10 ?frs "[client_bytes [1, 2, 3, 4] ?frs]"] by simp
qed

subsection \<open>Invariants of the send path\<close>

text \<open>The kind of an emitted frame is in its first octet: FIN with opcode 8, 1 or 2.\<close>

definition is_close_frame :: "octets \<Rightarrow> bool" where
  "is_close_frame f \<longleftrightarrow> f \<noteq> [] \<and> hd f = 0x88"

definition is_data_frame :: "octets \<Rightarrow> bool" where
  "is_data_frame f \<longleftrightarrow> f \<noteq> [] \<and> (hd f = 0x81 \<or> hd f = 0x82)"

lemma hd_emit_frame:
  "emit_frame op True p \<noteq> [] \<and> hd (emit_frame op True p) = 0x80 OR opcode_value op"
  by (simp add: emit_frame_def push_be16_def push_be64_def upt_conv_Cons Let_def)

lemma frame_kinds [simp]:
  "\<not> is_close_frame (emit_frame Text True p)" "\<not> is_close_frame (emit_frame Binary True p)"
  "\<not> is_close_frame (emit_frame Pong True p)" "is_close_frame (emit_close_frame code reason)"
  "is_data_frame (emit_frame Text True p)" "is_data_frame (emit_frame Binary True p)"
  "\<not> is_data_frame (emit_frame Pong True p)" "\<not> is_data_frame (emit_close_frame code reason)"
  by (simp_all add: is_close_frame_def is_data_frame_def emit_close_frame_def hd_emit_frame)

fun task_frame :: "strand_task \<Rightarrow> octets" where
  "task_frame (EnqueueFrame f) = f"
| "task_frame (EnqueuePriority f) = f"
| "task_frame (BusMessage m) = emit_frame Text True (map octet_of_char m)"

fun in_flight :: "drain_state \<Rightarrow> octets list" where
  "in_flight (DrainWriting f) = [f]"
| "in_flight DrainIdle = []"
| "in_flight DrainLeaving = []"

text \<open>Every frame of the session, from the wire back to the tasks that are still to run.\<close>

definition pipeline_frames :: "session \<Rightarrow> octets list" where
  "pipeline_frames s = wire s @ in_flight (drain s) @ send_queue s @ map task_frame (strand s)"

definition close_frames :: "session \<Rightarrow> nat" where
  "close_frames s = length (filter is_close_frame (pipeline_frames s))"

definition data_frames :: "session \<Rightarrow> octets list" where
  "data_frames s = filter is_data_frame (pipeline_frames s)"

text \<open>Priority tasks carry control frames, ordinary ones data frames.\<close>

fun task_ok :: "strand_task \<Rightarrow> bool" where
  "task_ok (EnqueueFrame f) = is_data_frame f"
| "task_ok (EnqueuePriority f) = (\<not> is_data_frame f)"
| "task_ok (BusMessage m) = True"

definition session_inv :: "session \<Rightarrow> bool" where
  "session_inv s \<longleftrightarrow> list_all task_ok (strand s)
     \<and> (sending s \<longleftrightarrow> drain s \<noteq> DrainIdle)
     \<and> length (filter is_data_frame (send_queue s)) \<le> kMaxSendQueueDepth
     \<and> close_frames s \<le> (if close_sent s then 1 else 0)"

lemma drain_turn_fields [simp]:
  "strand (drain_turn s) = strand s" "closed (drain_turn s) = closed s"
  "close_sent (drain_turn s) = close_sent s" "sending (drain_turn s) = sending s"
  "wire (drain_turn s) = wire s" "drain (drain_turn s) \<noteq> DrainIdle"
  "length (filter p (send_queue (drain_turn s))) \<le> length (filter p (send_queue s))"
  by (simp_all add: drain_turn_def split: list.splits)

lemma drain_turn_frames:
  "wire s @ in_flight (drain (drain_turn s)) @ send_queue (drain_turn s) = wire s @ send_queue s"
  by (simp add: drain_turn_def split: list.splits)

lemma kick_drain_fields [simp]:
  "strand (kick_drain s) = strand s" "closed (kick_drain s) = closed s"
  "close_sent (kick_drain s) = close_sent s" "sending (kick_drain s)"
  "length (filter p (send_queue (kick_drain s))) \<le> length (filter p (send_queue s))"
  using drain_turn_fields(7) [of p "s\<lparr>sending := True\<rparr>"] by (simp_all add: kick_drain_def)

lemma kick_drain_inv:
  assumes "sending s \<longleftrightarrow> drain s \<noteq> DrainIdle"
  shows "drain (kick_drain s) \<noteq> DrainIdle" "pipeline_frames (kick_drain s) = pipeline_frames s"
  using assms drain_turn_frames [of "s\<lparr>sending := True\<rparr>"]
  by (simp_all add: kick_drain_def pipeline_frames_def)

lemma write_done_fields [simp]:
  "strand (write_done ok f s) = strand s" "close_sent (write_done ok f s) = close_sent s"
  "sending (write_done ok f s) = sending s" "drain (write_done ok f s) \<noteq> DrainIdle"
  "length (filter p (send_queue (write_done ok f s))) \<le> length (filter p (send_queue s))"
  using drain_turn_fields(7) [of p "s\<lparr>wire := wire s @ [f]\<rparr>"] by (simp_all add: write_done_def)

lemma write_done_frames:
  assumes "drain s = DrainWriting f"
  shows "pipeline_frames (write_done ok f s) = (if ok then pipeline_frames s else wire s @ map task_frame (strand s))"
  using assms drain_turn_frames [of "s\<lparr>wire := wire s @ [f]\<rparr>"]
  by (simp add: write_done_def pipeline_frames_def)

lemma run_task_fields [simp]:
  "strand (run_task t s) = strand s" "close_sent (run_task t s) = close_sent s" "closed (run_task t s) = closed s"
  by (cases t; simp)+

text \<open>
  What a task does to the frames: its own frame is dropped, or joins the queue at the place its kind
  gives it.
\<close>

lemma run_task_frames:
  assumes "sending s \<longleftrightarrow> drain s \<noteq> DrainIdle"
  shows "pipeline_frames (run_task t s) = pipeline_frames s
    \<or> pipeline_frames (run_task t s) = wire s @ in_flight (drain s) @ send_queue s @ [task_frame t] @ map task_frame (strand s)
    \<or> ((\<exists>f. t = EnqueuePriority f) \<and> pipeline_frames (run_task t s)
          = wire s @ in_flight (drain s) @ [task_frame t] @ send_queue s @ map task_frame (strand s))"
proof -
  have "pipeline_frames (kick_drain (s\<lparr>send_queue := q\<rparr>)) = wire s @ in_flight (drain s) @ q @ map task_frame (strand s)" for q
    using kick_drain_inv(2) [of "s\<lparr>send_queue := q\<rparr>"] assms by (simp add: pipeline_frames_def)
  then show ?thesis by (cases t) auto
qed

lemma run_task_sending:
  assumes "sending s \<longleftrightarrow> drain s \<noteq> DrainIdle"
  shows "sending (run_task t s) \<longleftrightarrow> drain (run_task t s) \<noteq> DrainIdle"
proof -
  have "drain (kick_drain (s\<lparr>send_queue := q\<rparr>)) \<noteq> DrainIdle" for q
    using kick_drain_inv(1) [of "s\<lparr>send_queue := q\<rparr>"] assms by simp
  then show ?thesis using assms by (cases t) simp_all
qed

lemma run_task_queue:
  assumes "task_ok t" "length (filter is_data_frame (send_queue s)) \<le> kMaxSendQueueDepth"
  shows "length (filter is_data_frame (send_queue (run_task t s))) \<le> kMaxSendQueueDepth"
proof -
  have k: "length (filter is_data_frame (send_queue (kick_drain (s\<lparr>send_queue := q\<rparr>)))) \<le> length (filter is_data_frame q)" for q
    using kick_drain_fields(5) [of is_data_frame "s\<lparr>send_queue := q\<rparr>"] by simp
  have app: "length (filter is_data_frame (send_queue (kick_drain (s\<lparr>send_queue := send_queue s @ [f]\<rparr>)))) \<le> kMaxSendQueueDepth"
    if "length (send_queue s) < kMaxSendQueueDepth" for f
  proof -
    have "length (filter is_data_frame (send_queue s)) < kMaxSendQueueDepth"
      by (rule le_less_trans [OF length_filter_le that])
    with k [of "send_queue s @ [f]"] show ?thesis by (cases "is_data_frame f") simp_all
  qed
  show ?thesis
    using assms app le_trans [OF k [of "task_frame t # send_queue s"]]
    by (cases t) (simp_all add: not_le)
qed

lemma post_fields [simp]:
  "send_queue (post t s) = send_queue s" "sending (post t s) = sending s" "drain (post t s) = drain s"
  "closed (post t s) = closed s" "close_sent (post t s) = close_sent s" "wire (post t s) = wire s"
  "strand (post t s) = strand s @ [t]" "pipeline_frames (post t s) = pipeline_frames s @ [task_frame t]"
  by (simp_all add: post_def pipeline_frames_def)

lemma frames_more [simp]:
  "pipeline_frames (s\<lparr>closed := b\<rparr>) = pipeline_frames s"
  "pipeline_frames (s\<lparr>close_sent := b\<rparr>) = pipeline_frames s"
  by (simp_all add: pipeline_frames_def)

lemmas send_ops = send_text_def send_binary_def close_graceful_def send_from_bus_def

lemma inv_post:
  "session_inv s \<Longrightarrow> task_ok t \<Longrightarrow> \<not> is_close_frame (task_frame t) \<Longrightarrow> session_inv (post t s)"
  by (simp add: session_inv_def close_frames_def)

lemma inv_try_close: "session_inv s \<Longrightarrow> session_inv (try_close (emit_close_frame code reason) s)"
  by (cases "close_sent s") (simp_all add: session_inv_def close_frames_def try_close_def filter_empty_conv)

lemma strand_frames:
  "strand s = task # rest \<Longrightarrow> pipeline_frames s
     = wire s @ in_flight (drain s) @ send_queue s @ [task_frame task] @ map task_frame rest"
  by (simp add: pipeline_frames_def)

lemma session_step_inv:
  assumes "session_step s t" "session_inv s"
  shows "session_inv t"
  using assms(1)
proof cases
  case (step_strand task rest)
  define s1 where "s1 = s\<lparr>strand := rest\<rparr>"
  have inv1: "sending s1 \<longleftrightarrow> drain s1 \<noteq> DrainIdle" "list_all task_ok (strand s1)" "task_ok task"
    "length (filter is_data_frame (send_queue s1)) \<le> kMaxSendQueueDepth"
    using assms(2) step_strand by (simp_all add: session_inv_def s1_def)
  have s1: "wire s1 = wire s" "drain s1 = drain s" "send_queue s1 = send_queue s" "strand s1 = rest"
    by (simp_all add: s1_def)
  have "close_frames (run_task task s1) \<le> close_frames s"
    using run_task_frames [OF inv1(1), of task] strand_frames [OF step_strand(2)]
    by (elim disjE conjE) (simp_all add: close_frames_def pipeline_frames_def [of s1] s1)
  moreover have "strand t = rest" "close_sent t = close_sent s" "t = run_task task s1" "list_all task_ok rest"
    using step_strand inv1 by (simp_all add: s1_def)
  ultimately show ?thesis
    using assms(2) run_task_sending [OF inv1(1), of task] run_task_queue [OF inv1(3,4)]
    unfolding session_inv_def by simp
next
  case (step_write f ok)
  have "close_frames (write_done ok f s) \<le> close_frames s"
    using write_done_frames [OF step_write(2)] by (simp add: close_frames_def pipeline_frames_def)
  moreover have "length (filter is_data_frame (send_queue (write_done ok f s))) \<le> length (filter is_data_frame (send_queue s))"
    by simp
  ultimately show ?thesis using assms(2) step_write
    by (auto simp: session_inv_def simp del: write_done_fields(5))
next
  case step_leave
  then show ?thesis using assms(2) by (simp add: session_inv_def close_frames_def pipeline_frames_def)
next
  case step_end
  then show ?thesis using assms(2) by (simp add: session_inv_def close_frames_def)
qed (use assms(2) in \<open>auto simp: send_ops intro!: inv_post inv_try_close\<close>)

lemma session_reach_inv: "session_reach s \<Longrightarrow> session_inv s"
proof (induction rule: session_reach.induct)
  case reach_init
  show ?case by (simp add: session_inv_def new_session_def close_frames_def pipeline_frames_def)
qed (rule session_step_inv)


lemma session_reach_steps: "session_step\<^sup>*\<^sup>* s t \<Longrightarrow> session_reach s \<Longrightarrow> session_reach t"
  by (induction rule: rtranclp_induct) (auto intro: reach_step)

definition closing_session :: session where
  "closing_session = snd (close_graceful 1000 [] (snd (send_text ''hi'' new_session)))"

lemma closing_session_reach: "session_reach closing_session"
  unfolding closing_session_def by (intro reach_init reach_step [OF _ step_text] reach_step [OF _ step_close])


subsection \<open>The order of the messages\<close>

text \<open>A run with the log of the tasks that were posted to the strand.\<close>

inductive session_run :: "strand_task list \<Rightarrow> session \<Rightarrow> bool" where
  run_init: "session_run [] new_session"
| run_step: "session_run log s \<Longrightarrow> session_step s t \<Longrightarrow>
    session_run (log @ drop (length (strand s)) (strand t)) t"

lemma session_run_reach: "session_run log s \<Longrightarrow> session_reach s"
  by (induction rule: session_run.induct) (auto intro: session_reach.intros)

lemma filter_control: "task_ok (EnqueuePriority f) \<Longrightarrow> filter is_data_frame (xs @ [f] @ ys) = filter is_data_frame (xs @ ys)"
  by simp

lemma subseq_mid: "subseq (xs @ zs) (xs @ ys @ zs)"
  using list_emb_append2 [of "(=)" zs zs ys] by (simp add: list_emb_append_mono)

text \<open>
  One step: the data frames in the pipeline, in order, lose some members or gain those posted by the step
  at the end.
\<close>

lemma session_step_data:
  assumes "session_step s t" "session_inv s"
  shows "subseq (data_frames t) (data_frames s @ filter is_data_frame (map task_frame (drop (length (strand s)) (strand t))))"
  using assms(1)
proof cases
  case (step_strand task rest)
  define s1 where "s1 = s\<lparr>strand := rest\<rparr>"
  have s1: "wire s1 = wire s" "drain s1 = drain s" "send_queue s1 = send_queue s" "strand s1 = rest"
    by (simp_all add: s1_def)
  have i: "sending s1 \<longleftrightarrow> drain s1 \<noteq> DrainIdle" "task_ok task"
    using assms(2) step_strand by (simp_all add: session_inv_def s1_def)
  have "subseq (data_frames (run_task task s1)) (data_frames s)"
    using run_task_frames [OF i(1), of task] strand_frames [OF step_strand(2)] i(2)
    by (elim disjE conjE exE) (simp_all add: data_frames_def pipeline_frames_def [of s1] s1 subseq_append' list_emb_Cons)
  moreover have "t = run_task task s1" "drop (length (strand s)) (strand t) = []"
    using step_strand by (simp_all add: s1_def)
  ultimately show ?thesis by simp
next
  case (step_write f ok)
  have "data_frames (write_done ok f s) = data_frames s
    \<or> data_frames (write_done ok f s) = filter is_data_frame (wire s @ map task_frame (strand s))"
    using write_done_frames [OF step_write(2)] by (auto simp: data_frames_def)
  moreover have "subseq (filter is_data_frame (wire s @ map task_frame (strand s))) (data_frames s)"
    unfolding data_frames_def pipeline_frames_def by (intro subseq_filter) (metis append_assoc subseq_mid)
  ultimately have "subseq (data_frames t) (data_frames s)" using step_write by auto
  with step_write show ?thesis by simp
next
  case step_leave
  then show ?thesis by (simp add: data_frames_def pipeline_frames_def)
qed (auto simp: send_ops try_close_def data_frames_def)

lemma session_run_data:
  "session_run log s \<Longrightarrow> subseq (data_frames s) (filter is_data_frame (map task_frame log))"
proof (induction rule: session_run.induct)
  case run_init
  show ?case by (simp add: data_frames_def pipeline_frames_def new_session_def)
next
  case (run_step log s t)
  have "session_inv s" using session_reach_inv session_run_reach run_step.hyps(1) .
  from session_step_data [OF run_step.hyps(2) this] list_emb_append_mono [OF run_step.IH subseq_order.order_refl]
  show ?case unfolding map_append filter_append by (rule subseq_order.order_trans)
qed

text \<open>
  Claim C7. Messages reach the wire in the order in which they were posted and none is written twice:
  the data frames on the wire are a subsequence of the data frames posted to the strand, whatever the
  interleaving of calls, strand tasks, write completions and failures.
\<close>

theorem session_messages_in_order:
  assumes "session_run log s"
  shows "subseq (filter is_data_frame (wire s)) (filter is_data_frame (map task_frame log))"
proof -
  have "subseq (filter is_data_frame (wire s)) (data_frames s)"
    by (auto simp: data_frames_def pipeline_frames_def intro: list_emb_prefix)
  then show ?thesis using session_run_data [OF assms] by (rule subseq_order.order_trans)
qed

theorem session_messages_in_order_witness:
  "subseq (filter is_data_frame (wire \<lparr>send_queue = [], sending = True, closed = False, close_sent = False, strand = [],
       drain = DrainLeaving, wire = [emit_frame Text True [0x68, 0x69]]\<rparr>)) [emit_frame Text True [0x68, 0x69]]
   \<and> is_data_frame (emit_frame Text True [0x68, 0x69])"
proof -
  let ?f = "emit_frame Text True [0x68, 0x69]"
  let ?s = "\<lambda>st d w. \<lparr>send_queue = [], sending = (st = []), closed = False, close_sent = False, strand = st,
    drain = d, wire = w\<rparr>"
  have "map octet_of_char ''hi'' = [0x68, 0x69]" by code_simp
  then have 1: "session_run [EnqueueFrame ?f] (?s [EnqueueFrame ?f] DrainIdle [])"
    using run_step [OF run_init step_text [of new_session "''hi''"]] by (simp add: send_text_def new_session_def post_def)
  have 2: "session_run [EnqueueFrame ?f] (?s [] (DrainWriting ?f) [])"
    using run_step [OF 1 step_strand [OF session.select_convs(5)]] by (simp add: kick_drain_def drain_turn_def kMaxSendQueueDepth_def)
  have "session_run [EnqueueFrame ?f] (?s [] DrainLeaving [?f])"
    using run_step [OF 2 step_write [where success = True, OF session.select_convs(6)]] by (simp add: write_done_def drain_turn_def)
  from session_messages_in_order [OF this] show ?thesis by simp
qed

subsection \<open>What the send path does not guarantee\<close>

abbreviation (input) text_frame :: "string \<Rightarrow> octets" where
  "text_frame m \<equiv> emit_frame Text True (map octet_of_char m)"

text \<open>Two messages are queued while the first is being written.\<close>

lemma two_posted:
  "session_reach \<lparr>send_queue = [], sending = False, closed = False, close_sent = False,
     strand = [EnqueueFrame (text_frame a), EnqueueFrame (text_frame b)], drain = DrainIdle, wire = []\<rparr>"
  using reach_step [OF reach_step [OF reach_init step_text [of _ a]] step_text [of _ b]]
  by (simp add: send_text_def new_session_def post_def)

lemma first_writing:
  "session_reach \<lparr>send_queue = [], sending = True, closed = False, close_sent = False,
     strand = [EnqueueFrame (text_frame b)], drain = DrainWriting (text_frame a), wire = []\<rparr>"
  using reach_step [OF two_posted [of a b] step_strand [OF session.select_convs(5)]]
  by (simp add: kick_drain_def drain_turn_def kMaxSendQueueDepth_def)

text \<open>
  A Close frame does not end the data: it overtakes queued data frames, so a text frame is written
  after it.
\<close>

lemma data_after_close:
  "\<exists>s. session_reach s \<and> (\<exists>a c d. wire s = [a, c, d] \<and> is_close_frame c \<and> is_data_frame d)"
proof -
  let ?A = "text_frame ''a''" and ?B = "text_frame ''b''" and ?C = "emit_close_frame 1000 []"
  have 1: "session_reach \<lparr>send_queue = [], sending = True, closed = False, close_sent = True,
      strand = [EnqueueFrame ?B, EnqueuePriority ?C], drain = DrainWriting ?A, wire = []\<rparr>"
    using reach_step [OF first_writing [of "''b''" "''a''"] step_close [of _ 1000 "[]"]]
    by (simp add: close_graceful_def try_close_def post_def)
  have 2: "session_reach \<lparr>send_queue = [?B], sending = True, closed = False, close_sent = True,
      strand = [EnqueuePriority ?C], drain = DrainWriting ?A, wire = []\<rparr>"
    using reach_step [OF 1 step_strand [OF session.select_convs(5)]] by (simp add: kick_drain_def kMaxSendQueueDepth_def)
  have 3: "session_reach \<lparr>send_queue = [?C, ?B], sending = True, closed = False, close_sent = True,
      strand = [], drain = DrainWriting ?A, wire = []\<rparr>"
    using reach_step [OF 2 step_strand [OF session.select_convs(5)]] by (simp add: kick_drain_def)
  have 4: "session_reach \<lparr>send_queue = [?B], sending = True, closed = False, close_sent = True,
      strand = [], drain = DrainWriting ?C, wire = [?A]\<rparr>"
    using reach_step [OF 3 step_write [where success = True, OF session.select_convs(6)]] by (simp add: write_done_def drain_turn_def)
  have 5: "session_reach \<lparr>send_queue = [], sending = True, closed = False, close_sent = True,
      strand = [], drain = DrainWriting ?B, wire = [?A, ?C]\<rparr>"
    using reach_step [OF 4 step_write [where success = True, OF session.select_convs(6)]] by (simp add: write_done_def drain_turn_def)
  let ?s = "\<lparr>send_queue = [], sending = True, closed = False, close_sent = True,
      strand = [], drain = DrainLeaving, wire = [?A, ?C, ?B]\<rparr>"
  have "session_reach ?s"
    using reach_step [OF 5 step_write [where success = True, OF session.select_convs(6)]] by (simp add: write_done_def drain_turn_def)
  moreover have "wire ?s = [?A, ?C, ?B]" by simp
  ultimately show ?thesis using frame_kinds(4,5) by blast
qed

text \<open>
  A frame can be left behind: the drain finds the queue empty, a strand task then queues a frame and
  sees \<^verbatim>\<open>sending_\<close> still set, and only then the drain clears it. The session is idle, open, and the
  frame is not sent until something else is.
\<close>

lemma frame_left_behind:
  "\<exists>s. session_reach s \<and> send_queue s \<noteq> [] \<and> drain s = DrainIdle \<and> \<not> sending s \<and> strand s = [] \<and> \<not> closed s"
proof -
  let ?A = "text_frame ''a''" and ?B = "text_frame ''b''"
  have 1: "session_reach \<lparr>send_queue = [], sending = True, closed = False, close_sent = False,
      strand = [EnqueueFrame ?B], drain = DrainLeaving, wire = [?A]\<rparr>"
    using reach_step [OF first_writing [of "''b''" "''a''"] step_write [where success = True, OF session.select_convs(6)]]
    by (simp add: write_done_def drain_turn_def)
  have 2: "session_reach \<lparr>send_queue = [?B], sending = True, closed = False, close_sent = False,
      strand = [], drain = DrainLeaving, wire = [?A]\<rparr>"
    using reach_step [OF 1 step_strand [OF session.select_convs(5)]] by (simp add: kick_drain_def kMaxSendQueueDepth_def)
  have "session_reach \<lparr>send_queue = [?B], sending = False, closed = False, close_sent = False,
      strand = [], drain = DrainIdle, wire = [?A]\<rparr>"
    using reach_step [OF 2 step_leave] by simp
  then show ?thesis by (intro exI conjI) (assumption, simp_all)
qed

subsection \<open>The hand-over between \<^verbatim>\<open>wait_for_close\<close> and the read loop\<close>

text \<open>
  The connection coroutine and the end of the read loop run on different threads and meet in two
  atomics, \<^verbatim>\<open>closed_\<close> and \<^verbatim>\<open>close_waiter_addr_\<close>. Each step is one atomic operation. A failed write may
  set \<^verbatim>\<open>closed_\<close> at any time before. \<^verbatim>\<open>resumes\<close> counts how often the waiting coroutine goes on.
\<close>

datatype waiter_pc = WaitStart | WaitReady | WaitStore | WaitCheck | WaitClaim | WaitSuspended | WaitReturned
datatype loop_pc = LoopRunning | LoopExchange | LoopResume | LoopEnded

record handover =
  h_closed :: bool
  waiter_addr :: bool
  waiter :: waiter_pc
  loop :: loop_pc
  resumes :: nat

definition handover_start :: handover where
  "handover_start = \<lparr>h_closed = False, waiter_addr = False, waiter = WaitStart, loop = LoopRunning, resumes = 0\<rparr>"

inductive handover_step :: "handover \<Rightarrow> handover \<Rightarrow> bool" where
  wait_closed: "waiter h = WaitStart \<Longrightarrow> h_closed h \<Longrightarrow>
    handover_step h (h\<lparr>waiter := WaitReturned, resumes := resumes h + 1\<rparr>)"
| wait_open: "waiter h = WaitStart \<Longrightarrow> \<not> h_closed h \<Longrightarrow> handover_step h (h\<lparr>waiter := WaitReady\<rparr>)"
| ready_closed: "waiter h = WaitReady \<Longrightarrow> h_closed h \<Longrightarrow>
    handover_step h (h\<lparr>waiter := WaitReturned, resumes := resumes h + 1\<rparr>)"
| ready_open: "waiter h = WaitReady \<Longrightarrow> \<not> h_closed h \<Longrightarrow> handover_step h (h\<lparr>waiter := WaitStore\<rparr>)"
| suspend_store: "waiter h = WaitStore \<Longrightarrow> handover_step h (h\<lparr>waiter := WaitCheck, waiter_addr := True\<rparr>)"
| suspend_open: "waiter h = WaitCheck \<Longrightarrow> \<not> h_closed h \<Longrightarrow> handover_step h (h\<lparr>waiter := WaitSuspended\<rparr>)"
| suspend_closed: "waiter h = WaitCheck \<Longrightarrow> h_closed h \<Longrightarrow> handover_step h (h\<lparr>waiter := WaitClaim\<rparr>)"
| claim_won: "waiter h = WaitClaim \<Longrightarrow> waiter_addr h \<Longrightarrow>
    handover_step h (h\<lparr>waiter := WaitReturned, waiter_addr := False, resumes := resumes h + 1\<rparr>)"
| claim_lost: "waiter h = WaitClaim \<Longrightarrow> \<not> waiter_addr h \<Longrightarrow> handover_step h (h\<lparr>waiter := WaitSuspended\<rparr>)"
| write_failed: "handover_step h (h\<lparr>h_closed := True\<rparr>)"
| loop_store: "loop h = LoopRunning \<Longrightarrow> handover_step h (h\<lparr>h_closed := True, loop := LoopExchange\<rparr>)"
| loop_exchange: "loop h = LoopExchange \<Longrightarrow>
    handover_step h (h\<lparr>waiter_addr := False, loop := (if waiter_addr h then LoopResume else LoopEnded)\<rparr>)"
| loop_resume: "loop h = LoopResume \<Longrightarrow>
    handover_step h (h\<lparr>loop := LoopEnded, resumes := resumes h + 1\<rparr>)"

inductive handover_reach :: "handover \<Rightarrow> bool" where
  handover_init: "handover_reach handover_start"
| handover_next: "handover_reach h \<Longrightarrow> handover_step h h' \<Longrightarrow> handover_reach h'"

definition handover_inv :: "handover \<Rightarrow> bool" where
  "handover_inv h \<longleftrightarrow>
     (loop h \<noteq> LoopRunning \<longrightarrow> h_closed h)
     \<and> (waiter_addr h \<longrightarrow> waiter h \<in> {WaitCheck, WaitClaim, WaitSuspended} \<and> loop h \<in> {LoopRunning, LoopExchange} \<and> resumes h = 0
          \<or> waiter h \<in> {WaitCheck, WaitClaim} \<and> loop h = LoopEnded \<and> resumes h = 0)
     \<and> (\<not> waiter_addr h \<longrightarrow>
          waiter h \<in> {WaitStart, WaitReady, WaitStore} \<and> loop h \<noteq> LoopResume \<and> resumes h = 0
          \<or> waiter h = WaitReturned \<and> loop h \<noteq> LoopResume \<and> resumes h = 1
          \<or> waiter h \<in> {WaitCheck, WaitClaim, WaitSuspended} \<and> loop h = LoopResume \<and> resumes h = 0
          \<or> waiter h \<in> {WaitCheck, WaitClaim, WaitSuspended} \<and> loop h = LoopEnded \<and> resumes h = 1)"

lemma handover_step_inv: "handover_step h h' \<Longrightarrow> handover_inv h \<Longrightarrow> handover_inv h'"
  by (erule handover_step.cases; cases "loop h"; auto simp: handover_inv_def)

lemma handover_reach_inv: "handover_reach h \<Longrightarrow> handover_inv h"
  by (induction rule: handover_reach.induct)
    (simp add: handover_inv_def handover_start_def, rule handover_step_inv)

text \<open>
  Claim C8. The hand-over loses no wake-up and never resumes twice: in every reachable state the
  waiting coroutine has gone on at most once; and once the read loop has ended and the waiter is
  suspended or has returned, it has gone on exactly once.
\<close>

theorem handover_resumes_once:
  assumes "handover_reach h"
  shows "resumes h \<le> 1
    \<and> (loop h = LoopEnded \<and> waiter h \<in> {WaitSuspended, WaitReturned} \<longrightarrow> resumes h = 1)"
  using handover_reach_inv [OF assms] by (auto simp: handover_inv_def)

text \<open>The read loop ends before the handler waits.\<close>

lemma early_end_reach:
  "handover_reach \<lparr>h_closed = True, waiter_addr = False, waiter = WaitReturned, loop = LoopEnded, resumes = 1\<rparr>"
proof -
  have 1: "handover_reach \<lparr>h_closed = True, waiter_addr = False, waiter = WaitStart, loop = LoopExchange, resumes = 0\<rparr>"
    using handover_next [OF handover_init loop_store] by (simp add: handover_start_def)
  have 2: "handover_reach \<lparr>h_closed = True, waiter_addr = False, waiter = WaitStart, loop = LoopEnded, resumes = 0\<rparr>"
    using handover_next [OF 1 loop_exchange] by simp
  show ?thesis using handover_next [OF 2 wait_closed] by simp
qed

theorem handover_resumes_once_witness:
  "resumes \<lparr>h_closed = True, waiter_addr = False, waiter = WaitReturned, loop = LoopEnded, resumes = 1\<rparr> = (1 :: nat)"
  using handover_resumes_once [OF early_end_reach] by simp

text \<open>
  The loop can resume the coroutine while its \<^verbatim>\<open>await_suspend\<close> is still running on the other thread,
  between its store and its second read of \<^verbatim>\<open>closed_\<close>, which goes through the awaitable in the
  resumed frame.
\<close>

lemma resumed_while_suspending:
  "\<exists>h. handover_reach h \<and> waiter h = WaitCheck \<and> resumes h = 1"
proof -
  have 1: "handover_reach \<lparr>h_closed = False, waiter_addr = False, waiter = WaitReady, loop = LoopRunning, resumes = 0\<rparr>"
    using handover_next [OF handover_init wait_open] by (simp add: handover_start_def)
  have 2: "handover_reach \<lparr>h_closed = False, waiter_addr = False, waiter = WaitStore, loop = LoopRunning, resumes = 0\<rparr>"
    using handover_next [OF 1 ready_open] by simp
  have 3: "handover_reach \<lparr>h_closed = False, waiter_addr = True, waiter = WaitCheck, loop = LoopRunning, resumes = 0\<rparr>"
    using handover_next [OF 2 suspend_store] by simp
  have 4: "handover_reach \<lparr>h_closed = True, waiter_addr = True, waiter = WaitCheck, loop = LoopExchange, resumes = 0\<rparr>"
    using handover_next [OF 3 loop_store] by simp
  have 5: "handover_reach \<lparr>h_closed = True, waiter_addr = False, waiter = WaitCheck, loop = LoopResume, resumes = 0\<rparr>"
    using handover_next [OF 4 loop_exchange] by simp
  have "handover_reach \<lparr>h_closed = True, waiter_addr = False, waiter = WaitCheck, loop = LoopEnded, resumes = 1\<rparr>"
    using handover_next [OF 5 loop_resume] by simp
  then show ?thesis by (intro exI conjI) (assumption, simp_all)
qed
end
