(* ===== verification/Ws_Hub.thy ===== *)
theory Ws_Hub
  imports Ws_Session Topic_Bus Request
begin

text \<open>
  The WebSocket handles a program holds (\<^verbatim>\<open>src/net/websocket.cpp\<close>) over the sessions they share and the
  topic bus: creation and destruction of a session, its subscriptions, and what the handle answers
  once it was moved from.
\<close>

record ws_member =
  m_session :: session
  m_topic :: string
  m_remote :: string
  m_max_payload :: nat
  m_has_bus :: bool

text \<open>The live sessions by identity, and the bus of the application. Identities are not used twice.\<close>

record hub =
  hub_members :: "nat \<Rightarrow> ws_member option"
  hub_next :: nat
  hub_bus :: topic_bus

definition hub_start :: hub where
  "hub_start = \<lparr>hub_members = Map.empty, hub_next = 0, hub_bus = Map.empty\<rparr>"

definition hub_alive :: "hub \<Rightarrow> nat set" where
  "hub_alive h = dom (hub_members h)"

subsection \<open>Sessions\<close>

definition session_create :: "session_args \<Rightarrow> hub \<Rightarrow> nat \<times> hub" where
  "session_create args h = (hub_next h,
     h\<lparr>hub_members := (hub_members h)(hub_next h \<mapsto> \<lparr>m_session = new_session, m_topic = sa_initial_topic args,
         m_remote = sa_remote_addr args, m_max_payload = sa_max_payload args, m_has_bus = sa_has_bus args\<rparr>),
       hub_next := hub_next h + 1\<rparr>)"

text \<open>The destructor runs when the last owner is gone, so the bus sees the session as dead.\<close>

definition session_destroy :: "nat \<Rightarrow> hub \<Rightarrow> hub" where
  "session_destroy i h = (case hub_members h i of
       None \<Rightarrow> h
     | Some w \<Rightarrow>
         (let h' = h\<lparr>hub_members := (hub_members h)(i := None)\<rparr> in
          if m_has_bus w then h'\<lparr>hub_bus := bus_unsubscribe (hub_alive h') i (hub_bus h')\<rparr> else h'))"

definition set_session :: "nat \<Rightarrow> session \<Rightarrow> hub \<Rightarrow> hub" where
  "set_session i s h = h\<lparr>hub_members := (hub_members h)(i := map_option (m_session_update (\<lambda>_. s)) (hub_members h i))\<rparr>"

definition session_subscribe :: "nat \<Rightarrow> ws_member \<Rightarrow> string \<Rightarrow> hub \<Rightarrow> hub" where
  "session_subscribe i w topic h =
     (let h' = h\<lparr>hub_members := (hub_members h)(i \<mapsto> w\<lparr>m_topic := topic\<rparr>)\<rparr> in
      if m_has_bus w then h'\<lparr>hub_bus := bus_subscribe (hub_alive h') topic i (hub_bus h')\<rparr> else h')"

text \<open>The bus calls \<^verbatim>\<open>send_from_bus\<close> of each receiver in turn.\<close>

definition deliver_to :: "string \<Rightarrow> nat \<Rightarrow> hub \<Rightarrow> hub" where
  "deliver_to message j h = (case hub_members h j of
       None \<Rightarrow> h
     | Some w \<Rightarrow> set_session j (send_from_bus message (m_session w)) h)"

definition session_publish :: "nat \<Rightarrow> ws_member \<Rightarrow> string \<Rightarrow> string \<Rightarrow> hub \<Rightarrow> hub" where
  "session_publish i w topic message h =
     (if m_has_bus w then
        (case bus_publish (hub_alive h) topic (Some i) (hub_bus h) of
           (receivers, bus') \<Rightarrow> fold (deliver_to message) receivers (h\<lparr>hub_bus := bus'\<rparr>))
      else h)"

subsection \<open>Handles\<close>

text \<open>A handle owns a session; one that was moved from has none.\<close>

type_synonym ws_handle = "nat option"

definition make_handle :: "nat \<Rightarrow> ws_handle" where
  "make_handle i = Some i"

definition handle_move :: "ws_handle \<Rightarrow> ws_handle \<times> ws_handle" where
  "handle_move wsh = (wsh, None)"

definition handle_member :: "ws_handle \<Rightarrow> hub \<Rightarrow> (nat \<times> ws_member) option" where
  "handle_member wsh h = Option.bind wsh (\<lambda>i. map_option (Pair i) (hub_members h i))"

definition moved_from_error :: ws_error where
  "moved_from_error = closed_error ''moved-from''"

definition ws_send :: "ws_handle \<Rightarrow> string \<Rightarrow> hub \<Rightarrow> (ws_error + unit) \<times> hub" where
  "ws_send wsh message h = (case handle_member wsh h of
       None \<Rightarrow> (Inl moved_from_error, h)
     | Some (i, w) \<Rightarrow> (case send_text message (m_session w) of (r, s) \<Rightarrow> (r, set_session i s h)))"

definition ws_send_binary :: "ws_handle \<Rightarrow> octets \<Rightarrow> hub \<Rightarrow> (ws_error + unit) \<times> hub" where
  "ws_send_binary wsh data h = (case handle_member wsh h of
       None \<Rightarrow> (Inl moved_from_error, h)
     | Some (i, w) \<Rightarrow> (case send_binary data (m_session w) of (r, s) \<Rightarrow> (r, set_session i s h)))"

definition ws_send_nowait :: "ws_handle \<Rightarrow> string \<Rightarrow> hub \<Rightarrow> hub" where
  "ws_send_nowait wsh message h = (case handle_member wsh h of
       None \<Rightarrow> h
     | Some (i, w) \<Rightarrow> (case send_text message (m_session w) of (_, s) \<Rightarrow> set_session i s h))"

definition ws_close :: "ws_handle \<Rightarrow> 16 word \<Rightarrow> string \<Rightarrow> hub \<Rightarrow> (ws_error + unit) \<times> hub" where
  "ws_close wsh code reason h = (case handle_member wsh h of
       None \<Rightarrow> (Inl moved_from_error, h)
     | Some (i, w) \<Rightarrow> (case close_graceful code reason (m_session w) of (r, s) \<Rightarrow> (r, set_session i s h)))"

definition ws_subscribe :: "ws_handle \<Rightarrow> string \<Rightarrow> hub \<Rightarrow> hub" where
  "ws_subscribe wsh topic h = (case handle_member wsh h of
       None \<Rightarrow> h | Some (i, w) \<Rightarrow> session_subscribe i w topic h)"

definition ws_publish :: "ws_handle \<Rightarrow> string \<Rightarrow> string \<Rightarrow> hub \<Rightarrow> hub" where
  "ws_publish wsh topic message h = (case handle_member wsh h of
       None \<Rightarrow> h | Some (i, w) \<Rightarrow> session_publish i w topic message h)"

definition ws_topic :: "ws_handle \<Rightarrow> hub \<Rightarrow> string" where
  "ws_topic wsh h = (case handle_member wsh h of None \<Rightarrow> [] | Some (i, w) \<Rightarrow> m_topic w)"

definition ws_remote_address :: "ws_handle \<Rightarrow> hub \<Rightarrow> string" where
  "ws_remote_address wsh h = (case handle_member wsh h of None \<Rightarrow> ''unknown'' | Some (i, w) \<Rightarrow> m_remote w)"

subsection \<open>Histories\<close>

text \<open>
  What can happen to a hub: the calls on handles, the life of sessions, and the steps of a session
  on its own (its strand, its writes, its read loop). The set is the subscriptions in force.
\<close>

inductive hub_run :: "(string \<times> nat) set \<Rightarrow> hub \<Rightarrow> bool" where
  hub_init: "hub_run {} hub_start"
| hub_create: "hub_run R h \<Longrightarrow> hub_run R (snd (session_create args h))"
| hub_destroy: "hub_run R h \<Longrightarrow> hub_run {(t, j) \<in> R. j \<noteq> i} (session_destroy i h)"
| hub_session: "hub_run R h \<Longrightarrow> hub_members h i = Some w \<Longrightarrow> session_step (m_session w) s \<Longrightarrow> hub_run R (set_session i s h)"
| hub_subscribe: "hub_run R h \<Longrightarrow> handle_member wsh h = Some (i, w) \<Longrightarrow>
    hub_run (if m_has_bus w then insert (topic, i) R else R) (ws_subscribe wsh topic h)"
| hub_publish: "hub_run R h \<Longrightarrow> hub_run R (ws_publish wsh topic message h)"

definition hub_inv :: "(string \<times> nat) set \<Rightarrow> hub \<Rightarrow> bool" where
  "hub_inv R h \<longleftrightarrow> (\<forall>t. bus_members (hub_alive h) (hub_bus h) t = {i. (t, i) \<in> R}) \<and> bus_ok (hub_bus h)
     \<and> (\<forall>i \<ge> hub_next h. hub_members h i = None) \<and> (\<forall>t. set (case hub_bus h t of None \<Rightarrow> [] | Some v \<Rightarrow> v) \<subseteq> {..<hub_next h})
     \<and> (\<forall>(t, i) \<in> R. \<exists>w. hub_members h i = Some w \<and> m_has_bus w)"


lemma handle_member_Some [simp]: "handle_member wsh h = Some (i, w) \<longleftrightarrow> wsh = Some i \<and> hub_members h i = Some w"
  by (auto simp: handle_member_def bind_eq_Some_conv)

lemma hub_set_session [simp]:
  "hub_bus (set_session i s h) = hub_bus h" "hub_next (set_session i s h) = hub_next h"
  "hub_alive (set_session i s h) = hub_alive h"
  "hub_members (set_session i s h) j = (if j = i then map_option (m_session_update (\<lambda>_. s)) (hub_members h i) else hub_members h j)"
  by (auto simp: set_session_def hub_alive_def)

lemma hub_alive_None: "hub_alive h' = hub_alive h \<Longrightarrow> hub_members h' i = None \<longleftrightarrow> hub_members h i = None"
  unfolding hub_alive_def by (metis domIff)

lemma hub_inv_cong:
  assumes "hub_inv R h" "hub_bus h' = hub_bus h" "hub_next h' = hub_next h" "hub_alive h' = hub_alive h"
    "\<And>i w. hub_members h i = Some w \<Longrightarrow> \<exists>w'. hub_members h' i = Some w' \<and> m_has_bus w' = m_has_bus w"
  shows "hub_inv R h'"
proof -
  have "\<exists>w. hub_members h' i = Some w \<and> m_has_bus w" if "(t, i) \<in> R" for t i
    using assms(1,5) that unfolding hub_inv_def by fastforce
  then show ?thesis using assms(1-3) hub_alive_None [OF assms(4)] by (auto simp: hub_inv_def assms(4))
qed

lemma hub_inv_set_session: "hub_inv R h \<Longrightarrow> hub_inv R (set_session i s h)"
proof (erule hub_inv_cong)
  show "\<exists>w'. hub_members (set_session i s h) j = Some w' \<and> m_has_bus w' = m_has_bus w" if "hub_members h j = Some w" for j w
    using that by (cases "j = i") auto
qed simp_all

text \<open>Delivering a message to distinct sessions changes exactly these.\<close>

lemma deliver_to_simps [simp]:
  "hub_bus (deliver_to m j h) = hub_bus h" "hub_next (deliver_to m j h) = hub_next h" "hub_alive (deliver_to m j h) = hub_alive h"
  "hub_members (deliver_to m j h) k = (if k = j then map_option (\<lambda>w. w\<lparr>m_session := send_from_bus m (m_session w)\<rparr>) (hub_members h j) else hub_members h k)"
  by (auto simp: deliver_to_def split: option.split)

lemma fold_deliver:
  "hub_bus (fold (deliver_to m) js h) = hub_bus h \<and> hub_next (fold (deliver_to m) js h) = hub_next h
     \<and> hub_alive (fold (deliver_to m) js h) = hub_alive h
     \<and> (distinct js \<longrightarrow> hub_members (fold (deliver_to m) js h) k =
          (if k \<in> set js then map_option (\<lambda>w. w\<lparr>m_session := send_from_bus m (m_session w)\<rparr>) (hub_members h k) else hub_members h k))"
  by (induction js arbitrary: h) auto

lemma fold_deliver_has_bus:
  "hub_members h k = Some w \<Longrightarrow> \<exists>w'. hub_members (fold (deliver_to m) js h) k = Some w' \<and> m_has_bus w' = m_has_bus w"
proof (induction js arbitrary: h w)
  case (Cons j js)
  obtain v where "hub_members (deliver_to m j h) k = Some v" "m_has_bus v = m_has_bus w" using Cons.prems by (cases "k = j") auto
  with Cons.IH show ?case by fastforce
qed simp

text \<open>The receivers of a publication.\<close>

lemma bus_publish_receivers:
  assumes "bus_ok bus" "bus_publish alive topic sender bus = (receivers, bus')"
  shows "set receivers = bus_members alive bus topic - set_option sender" "distinct receivers"
    "bus_members alive bus' = bus_members alive bus" "bus_ok bus'"
    "set (case bus' t of None \<Rightarrow> [] | Some v \<Rightarrow> v) \<subseteq> set (case bus t of None \<Rightarrow> [] | Some v \<Rightarrow> v)"
proof -
  have p: "bus_members alive (publish_prune alive topic bus) = bus_members alive bus"
    by (rule ext) (rule bus.members_prune)
  show "set receivers = bus_members alive bus topic - set_option sender" "distinct receivers"
    "bus_members alive bus' = bus_members alive bus" "bus_ok bus'"
    "set (case bus' t of None \<Rightarrow> [] | Some v \<Rightarrow> v) \<subseteq> set (case bus t of None \<Rightarrow> [] | Some v \<Rightarrow> v)"
    using assms p
    by (auto simp: bus_publish_def publish_snapshot_def publish_deliver_def publish_prune_def bus_members_def bus_ok_def
        split: option.splits if_splits)
qed

lemma hub_inv_create:
  assumes i: "hub_inv R h"
  shows "hub_inv R (snd (session_create args h))"
proof -
  let ?h = "snd (session_create args h)"
  have d: "hub_bus ?h = hub_bus h" "hub_next ?h = hub_next h + 1" "hub_alive ?h = insert (hub_next h) (hub_alive h)"
    "hub_members ?h j = hub_members h j" if "j \<noteq> hub_next h" for j
    using that by (simp_all add: session_create_def hub_alive_def)
  have b: "set (case hub_bus h t of None \<Rightarrow> [] | Some v \<Rightarrow> v) \<subseteq> {..<hub_next h}" for t using i by (simp add: hub_inv_def)
  have f: "\<forall>j \<ge> hub_next h. hub_members h j = None" using i by (simp add: hub_inv_def)
  have "bus_members (insert (hub_next h) (hub_alive h)) (hub_bus h) t = bus_members (hub_alive h) (hub_bus h) t" for t
    using b [of t] by (cases "hub_bus h t") (auto simp: bus_members_def)
  moreover have "\<exists>v. hub_members ?h j = Some v \<and> m_has_bus v" if "(t, j) \<in> R" for t j
  proof -
    from i that obtain v where "hub_members h j = Some v" "m_has_bus v" unfolding hub_inv_def by blast
    moreover from this(1) f have "j \<noteq> hub_next h" by auto
    ultimately show ?thesis using d(4) by simp
  qed
  moreover have "set (case hub_bus h t of None \<Rightarrow> [] | Some v \<Rightarrow> v) \<subseteq> {..<hub_next h + 1}" for t
    using b [of t] by (meson le_add1 lessThan_subset_iff subset_trans)
  moreover have "hub_members ?h j = None" if "hub_next h + 1 \<le> j" for j using f d(4) [of j] that by simp
  moreover have "hub_bus ?h = hub_bus h" "hub_next ?h = hub_next h + 1" "hub_alive ?h = insert (hub_next h) (hub_alive h)"
    by (simp_all add: session_create_def hub_alive_def)
  ultimately show ?thesis using i unfolding hub_inv_def by auto
qed

lemma hub_inv_destroy:
  assumes "hub_inv R h"
  shows "hub_inv {(t, j) \<in> R. j \<noteq> i} (session_destroy i h)"
proof (cases "hub_members h i")
  case None
  then have "(t, i) \<notin> R" for t using assms by (auto simp: hub_inv_def)
  then have "{(t, j) \<in> R. j \<noteq> i} = R" by auto
  then show ?thesis using assms None by (simp add: session_destroy_def)
next
  case (Some w)
  let ?a = "hub_alive h - {i}"
  have d: "hub_alive (session_destroy i h) = ?a" "hub_next (session_destroy i h) = hub_next h"
    "hub_members (session_destroy i h) = (hub_members h)(i := None)"
    "hub_bus (session_destroy i h) = (if m_has_bus w then bus_unsubscribe ?a i (hub_bus h) else hub_bus h)"
    using Some by (simp_all add: session_destroy_def hub_alive_def Let_def)
  have "bus_members ?a (hub_bus (session_destroy i h)) t = bus_members (hub_alive h) (hub_bus h) t - {i}" for t
    using bus.members_unsubscribe [of ?a i "hub_bus h" t] bus.members_death [of "hub_alive h" "{i}" "hub_bus h" t] by (simp add: d(4))
  moreover have "bus_ok (hub_bus (session_destroy i h))" using assms
    by (auto simp: hub_inv_def d(4) bus_ok_def bus_unsubscribe_def)
  moreover have "set (case hub_bus (session_destroy i h) t of None \<Rightarrow> [] | Some v \<Rightarrow> v) \<subseteq> {..<hub_next h}" for t
    using assms by (cases "hub_bus h t") (auto simp: hub_inv_def d(4) bus_unsubscribe_def dest!: spec [of _ t])
  ultimately show ?thesis using assms by (auto simp: hub_inv_def d(1-3))
qed

lemma hub_inv_subscribe:
  assumes "hub_inv R h" "handle_member wsh h = Some (i, w)"
  shows "hub_inv (if m_has_bus w then insert (topic, i) R else R) (ws_subscribe wsh topic h)"
proof -
  define g where "g = ws_subscribe wsh topic h"
  have m: "wsh = Some i" "hub_members h i = Some w" using assms(2) by simp_all
  have d: "hub_alive g = hub_alive h" "hub_next g = hub_next h" "hub_members g = (hub_members h)(i \<mapsto> w\<lparr>m_topic := topic\<rparr>)"
    "hub_bus g = (if m_has_bus w then bus_subscribe (hub_alive h) topic i (hub_bus h) else hub_bus h)"
    using m by (auto simp: g_def ws_subscribe_def handle_member_def session_subscribe_def Let_def hub_alive_def insert_absorb domIff)
  have "\<forall>j \<ge> hub_next h. hub_members h j = None" using assms(1) by (simp add: hub_inv_def)
  then have a: "i \<in> hub_alive h" "i < hub_next h" using m by (auto simp: hub_alive_def simp flip: not_le)
  have "bus_members (hub_alive h) (hub_bus g) t = bus_members (hub_alive h) (hub_bus h) t \<union> (if m_has_bus w \<and> t = topic then {i} else {})" for t
    using bus.members_subscribe [OF a(1)] by (simp add: d(4))
  moreover have "bus_ok (hub_bus g)" using assms(1) a
    by (auto simp: hub_inv_def d(4) bus_ok_def bus_subscribe_def Let_def list_ex_iff split: option.splits)
  moreover have "set (case hub_bus g t of None \<Rightarrow> [] | Some v \<Rightarrow> v) \<subseteq> {..<hub_next h}" for t
  proof -
    have "set (case hub_bus h u of None \<Rightarrow> [] | Some v \<Rightarrow> v) \<subseteq> {..<hub_next h}" for u using assms(1) by (simp add: hub_inv_def)
    from this [of t] this [of topic] show ?thesis using a
      by (auto simp: d(4) bus_subscribe_def Let_def split: option.splits if_splits)
  qed
  ultimately show ?thesis using assms(1) m unfolding g_def [symmetric] hub_inv_def d(1-3) by auto
qed

lemma ws_publish_eq:
  assumes "hub_members h i = Some w" "m_has_bus w" "bus_publish (hub_alive h) topic (Some i) (hub_bus h) = (receivers, bus')"
  shows "ws_publish (Some i) topic message h = fold (deliver_to message) receivers (h\<lparr>hub_bus := bus'\<rparr>)"
  using assms by (simp add: ws_publish_def handle_member_def session_publish_def)

lemma hub_inv_publish:
  assumes "hub_inv R h"
  shows "hub_inv R (ws_publish wsh topic message h)"
proof (cases "handle_member wsh h")
  case None
  then show ?thesis using assms by (simp add: ws_publish_def)
next
  case (Some iw)
  then obtain i w where m: "wsh = Some i" "hub_members h i = Some w" "handle_member wsh h = Some (i, w)" by (cases iw) auto
  show ?thesis
  proof (cases "m_has_bus w")
    case False
    then show ?thesis using assms m by (simp add: ws_publish_def handle_member_def session_publish_def)
  next
    case True
    obtain receivers bus' where p: "bus_publish (hub_alive h) topic (Some i) (hub_bus h) = (receivers, bus')" by fastforce
    have ok: "bus_ok (hub_bus h)" using assms by (simp add: hub_inv_def)
    let ?g = "h\<lparr>hub_bus := bus'\<rparr>"
    have "set (case bus' t of None \<Rightarrow> [] | Some v \<Rightarrow> v) \<subseteq> {..<hub_next h}" for t
      using bus_publish_receivers(5) [OF ok p, of t] assms unfolding hub_inv_def by blast
    then have "hub_inv R ?g" using assms bus_publish_receivers(3,4) [OF ok p] by (simp add: hub_inv_def hub_alive_def)
    then show ?thesis unfolding m(1) ws_publish_eq [OF m(2) True p]
      by (rule hub_inv_cong) (simp_all add: fold_deliver fold_deliver_has_bus)
  qed
qed

lemma hub_run_inv: "hub_run R h \<Longrightarrow> hub_inv R h"
proof (induction rule: hub_run.induct)
  case hub_init
  show ?case by (simp add: hub_inv_def hub_start_def bus_members_def bus_ok_def)
qed (simp_all add: hub_inv_create hub_inv_destroy hub_inv_set_session hub_inv_subscribe hub_inv_publish)


lemma publish_delivers:
  fixes topic message :: string
  assumes "hub_run R h" "hub_members h i = Some w" "m_has_bus w"
  defines "h' \<equiv> ws_publish (Some i) topic message h"
  shows "hub_members h' j = (case hub_members h j of
       None \<Rightarrow> None
     | Some v \<Rightarrow> Some (if (topic, j) \<in> R \<and> j \<noteq> i \<and> \<not> closed (m_session v)
         then v\<lparr>m_session := post (BusMessage message) (m_session v)\<rparr> else v))
    \<and> hub_run R h' \<and> (\<forall>t. bus_members (hub_alive h') (hub_bus h') t = {k. (t, k) \<in> R})"
proof -
  note inv = hub_run_inv [OF assms(1)]
  obtain receivers bus' where p: "bus_publish (hub_alive h) topic (Some i) (hub_bus h) = (receivers, bus')" by fastforce
  have ok: "bus_ok (hub_bus h)" using inv by (simp add: hub_inv_def)
  have r: "set receivers = {k. (topic, k) \<in> R} - {i}" "distinct receivers"
    using bus_publish_receivers(1,2) [OF ok p] inv by (simp_all add: hub_inv_def)
  have run: "hub_run R h'" unfolding h'_def by (rule hub_publish [OF assms(1)])
  have m: "hub_members h' j = (if j \<in> set receivers
      then map_option (\<lambda>w. w\<lparr>m_session := send_from_bus message (m_session w)\<rparr>) (hub_members h j) else hub_members h j)"
    using fold_deliver [of message receivers "h\<lparr>hub_bus := bus'\<rparr>" j] r(2)
    by (simp add: h'_def ws_publish_eq [OF assms(2,3) p])
  have "\<forall>t. bus_members (hub_alive h') (hub_bus h') t = {k. (t, k) \<in> R}" using hub_run_inv [OF run] by (simp add: hub_inv_def)
  with m run show ?thesis by (cases "hub_members h j") (simp_all add: r(1) send_from_bus_def)
qed


definition two_sessions :: hub where
  "two_sessions = ws_subscribe (Some 1) ''news''
     (snd (session_create \<lparr>sa_max_payload = 64, sa_has_bus = True, sa_remote_addr = ''b'', sa_initial_topic = []\<rparr>
       (snd (session_create \<lparr>sa_max_payload = 64, sa_has_bus = True, sa_remote_addr = ''a'', sa_initial_topic = []\<rparr> hub_start))))"

lemma two_sessions_run: "hub_run {(''news'', 1)} two_sessions"
proof -
  let ?h = "snd (session_create \<lparr>sa_max_payload = 64, sa_has_bus = True, sa_remote_addr = ''b'', sa_initial_topic = []\<rparr>
       (snd (session_create \<lparr>sa_max_payload = 64, sa_has_bus = True, sa_remote_addr = ''a'', sa_initial_topic = []\<rparr> hub_start)))"
  have "hub_run {} ?h" by (intro hub_create hub_init)
  moreover obtain w where "handle_member (Some 1) ?h = Some (1, w)" "m_has_bus w"
    by (simp add: session_create_def hub_start_def)
  ultimately show ?thesis unfolding two_sessions_def
    using hub_subscribe [of "{}" ?h "Some 1" 1 w "''news''"] by simp
qed


text \<open>A handle that was moved from answers without a session, and changes nothing.\<close>

lemma moved_from_handle:
  "ws_send None m h = (Inl moved_from_error, h)" "ws_send_binary None d h = (Inl moved_from_error, h)"
  "ws_close None code reason h = (Inl moved_from_error, h)" "ws_send_nowait None m h = h"
  "ws_subscribe None t h = h" "ws_publish None t m h = h" "ws_topic None h = []" "ws_remote_address None h = ''unknown''"
  by (simp_all add: ws_send_def ws_send_binary_def ws_close_def ws_send_nowait_def ws_subscribe_def ws_publish_def
      ws_topic_def ws_remote_address_def handle_member_def)

text \<open>
  The initial topic of a session is a name only: it is not a subscription until the program subscribes.
\<close>

lemma initial_topic_not_subscribed:
  "hub_run R h \<Longrightarrow> (t, fst (session_create args h)) \<notin> R"
  using hub_run_inv [of R h] by (auto simp: session_create_def hub_inv_def)

end
