(* ===== verification/Grpc_Envelope.thy ===== *)
theory Grpc_Envelope
  imports Errors
begin

text \<open>
  The envelope of a unary gRPC message, \<^verbatim>\<open>src/plugins/grpc/grpc_envelope.cpp\<close>: one flag octet, the
  length as four big-endian octets, and the payload. The length is computed at 32 bits, as in the code.
\<close>

unbundle bit_operations_syntax

definition kEnvelopeSize :: nat where "kEnvelopeSize = 5"

definition read_big_endian_u32 :: "octets \<Rightarrow> 32 word" where
  "read_big_endian_u32 bytes =
     (let b0 = ucast (bytes ! 0); b1 = ucast (bytes ! 1); b2 = ucast (bytes ! 2); b3 = ucast (bytes ! 3)
      in push_bit 24 b0 OR push_bit 16 b1 OR push_bit 8 b2 OR b3)"

definition append_big_endian_u32 :: "octets \<Rightarrow> 32 word \<Rightarrow> octets" where
  "append_big_endian_u32 out v =
     out @ [ucast (drop_bit 24 v AND 0xFF)] @ [ucast (drop_bit 16 v AND 0xFF)]
       @ [ucast (drop_bit 8 v AND 0xFF)] @ [ucast (v AND 0xFF)]"

definition decode_unary_message :: "octets \<Rightarrow> nat \<Rightarrow> GrpcError + octets" where
  "decode_unary_message bytes max_message_size =
     (if length bytes < kEnvelopeSize then Inl GProtocolError
      else if hd bytes \<noteq> 0 then Inl GCompressionUnsupported
      else (let len = read_big_endian_u32 (take 4 (drop 1 bytes)) in
        if unat len > max_message_size then Inl GMessageTooLarge
        else (let payload_size = unat len in
          if length bytes < kEnvelopeSize + payload_size then Inl GProtocolError
          else if length bytes \<noteq> kEnvelopeSize + payload_size then Inl GProtocolError
          else Inr (drop kEnvelopeSize bytes))))"

definition encode_unary_message :: "octets \<Rightarrow> nat \<Rightarrow> GrpcError + octets" where
  "encode_unary_message payload max_message_size =
     (if length payload > max_message_size then Inl GMessageTooLarge
      else Inr (append_big_endian_u32 [0] (word_of_nat (length payload)) @ payload))"

lemma octet_bit: "bit (b :: octet) n \<Longrightarrow> n < 8"
  using bit_imp_le_length [of b n] by simp

lemma u32_octets:
  "append_big_endian_u32 out (push_bit 24 (ucast a) OR push_bit 16 (ucast b) OR push_bit 8 (ucast c) OR ucast d)
     = out @ [a, b, c, d]"
proof -
  have m: "(0xFF :: 32 word) = mask 8" by (simp add: mask_eq_exp_minus_1)
  show ?thesis unfolding append_big_endian_u32_def m
    by (simp, intro conjI; rule bit_word_eqI) (auto simp: bit_simps dest: octet_bit)
qed

lemma u32_bytes:
  fixes v :: "32 word"
  shows "push_bit 24 (ucast (ucast (drop_bit 24 v AND mask 8) :: octet))
     OR push_bit 16 (ucast (ucast (drop_bit 16 v AND mask 8) :: octet))
     OR push_bit 8 (ucast (ucast (drop_bit 8 v AND mask 8) :: octet))
     OR ucast (ucast (v AND mask 8) :: octet) = v" (is "?l = v")
proof (rule bit_word_eqI)
  fix n assume "n < LENGTH(32)"
  then consider "n < 8" | "8 \<le> n" "n < 16" | "16 \<le> n" "n < 24" | "24 \<le> n" "n < 32" by fastforce
  then show "bit ?l n = bit v n" by cases (auto simp: bit_simps)
qed

lemma u32_value: "read_big_endian_u32 (append_big_endian_u32 [] v) = v"
proof -
  have m: "(0xFF :: 32 word) = mask 8" by (simp add: mask_eq_exp_minus_1)
  show ?thesis unfolding read_big_endian_u32_def append_big_endian_u32_def m
    using u32_bytes [of v] by (simp add: Let_def)
qed

lemma length_u32 [simp]: "length (append_big_endian_u32 out v) = length out + 4"
  by (simp add: append_big_endian_u32_def)

lemma read_append_u32:
  "length bs = 4 \<Longrightarrow> append_big_endian_u32 [] (read_big_endian_u32 bs) = bs"
proof -
  assume "length bs = 4"
  then obtain a b c d where "bs = [a, b, c, d]"
    by (auto simp: length_Suc_conv numeral_eq_Suc)
  then show ?thesis using u32_octets [of "[]" a b c d] by (simp add: read_big_endian_u32_def)
qed

lemma encode_shape: "append_big_endian_u32 [0] v = 0 # append_big_endian_u32 [] v"
  by (simp add: append_big_endian_u32_def)

text \<open>The shape of a message: flag, length, payload.\<close>

definition envelope :: "octets \<Rightarrow> octets" where
  "envelope payload = 0 # append_big_endian_u32 [] (word_of_nat (length payload)) @ payload"

lemma decode_Inr:
  assumes "decode_unary_message bytes m = Inr payload"
  shows "5 \<le> length bytes \<and> hd bytes = 0 \<and> unat (read_big_endian_u32 (take 4 (drop 1 bytes))) \<le> m
    \<and> length bytes = 5 + unat (read_big_endian_u32 (take 4 (drop 1 bytes))) \<and> payload = drop 5 bytes"
proof -
  define n where "n = unat (read_big_endian_u32 (take 4 (drop 1 bytes)))"
  show ?thesis using assms unfolding decode_unary_message_def kEnvelopeSize_def Let_def n_def [symmetric]
    by (simp split: if_splits)
qed

lemma decode_envelope_iff:
  "decode_unary_message bytes m = Inr payload \<longleftrightarrow>
     length payload \<le> m \<and> length payload < 2 ^ 32 \<and> bytes = envelope payload"
proof
  assume d: "decode_unary_message bytes m = Inr payload"
  note d = decode_Inr [OF d]
  then have len: "5 \<le> length bytes" and h: "hd bytes = 0" by blast+
  define lb where "lb = take 4 (drop 1 bytes)"
  have b: "bytes = 0 # lb @ drop 5 bytes"
    using len h append_take_drop_id [of 4 "tl bytes"] unfolding lb_def
    by (cases bytes) (simp_all add: numeral_eq_Suc)
  have l4: "length lb = 4" using len by (simp add: lb_def)
  have pd: "payload = drop 5 bytes" using d by blast
  have b5: "bytes = 0 # lb @ payload" unfolding pd by (rule b)
  have p: "unat (read_big_endian_u32 lb) \<le> m" "length payload = unat (read_big_endian_u32 lb)"
    using d unfolding lb_def pd length_drop by (blast, linarith)
  have lt: "unat (read_big_endian_u32 lb) < 2 ^ 32" by (rule order.strict_trans2 [OF unsigned_less]) simp
  from p have "word_of_nat (length payload) = read_big_endian_u32 lb" by simp
  then have "append_big_endian_u32 [] (word_of_nat (length payload)) = lb" using read_append_u32 [OF l4] by simp
  then show "length payload \<le> m \<and> length payload < 2 ^ 32 \<and> bytes = envelope payload"
    using b5 p lt unfolding envelope_def by simp
next
  assume a: "length payload \<le> m \<and> length payload < 2 ^ 32 \<and> bytes = envelope payload"
  then have "unat (word_of_nat (length payload) :: 32 word) = length payload"
    by (simp add: unat_of_nat)
  then show "decode_unary_message bytes m = Inr payload"
    using a u32_value [of "word_of_nat (length payload)"]
    by (simp add: decode_unary_message_def kEnvelopeSize_def envelope_def)
qed

text \<open>
  The decoder accepts exactly the well-formed messages: a byte sequence decodes to a payload
  if and only if it is the uncompressed envelope of that payload, of the declared length to the
  octet, within the size limit; and the encoder produces that envelope for every payload shorter than
  \<^verbatim>\<open>2^32\<close> octets, which decodes back to it.
\<close>

lemma grpc_envelope_roundtrip:
  "(decode_unary_message bytes m = Inr payload) =
     (length payload \<le> m \<and> length payload < 2 ^ 32 \<and>
      encode_unary_message payload m = Inr bytes)"
  unfolding decode_envelope_iff by (auto simp: encode_unary_message_def encode_shape envelope_def)

text \<open>A larger payload is encoded with its length modulo \<^verbatim>\<open>2^32\<close>, and the result is not decodable.\<close>

lemma encode_truncates:
  assumes "2 ^ 32 \<le> length payload" "length payload \<le> m"
  shows "\<exists>bytes. encode_unary_message payload m = Inr bytes \<and> (\<forall>k q. decode_unary_message bytes k \<noteq> Inr q)"
proof (intro exI conjI allI notI)
  let ?b = "append_big_endian_u32 [0] (word_of_nat (length payload)) @ payload"
  show "encode_unary_message payload m = Inr ?b" using assms by (simp add: encode_unary_message_def)
  fix k q assume "decode_unary_message ?b k = Inr q"
  then have "?b = envelope q" "length q < 2 ^ 32" by (simp_all add: decode_envelope_iff)
  then have "length ?b < 5 + 2 ^ 32" by (simp add: envelope_def)
  then show False using assms by simp
qed
end
