(* ===== verification/Grpc_Session.thy ===== *)
theory Grpc_Session
  imports Grpc_Envelope
begin

text \<open>
  The HTTP/2 side of a gRPC connection, \<^verbatim>\<open>src/plugins/grpc/grpc_http2_session.cpp\<close>: the callbacks
  that collect the streams of a connection, the loop that answers the complete ones, and the data
  source that sends an answer and its trailers. nghttp2 is not modelled: its calls into the session
  are a list of events per read, and what the session submits to it is a log. A user's handler is a
  function from the request to its outcome. Header names and values are strings here and octet
  vectors in the code, and \<^verbatim>\<open>trailer_headers\<close>, pointers into \<^verbatim>\<open>response_trailers\<close>, is left out.
\<close>

datatype StatusCode = SOk | SCancelled | SUnknown | SInvalidArgument | SDeadlineExceeded | SNotFound
  | SAlreadyExists | SPermissionDenied | SResourceExhausted | SFailedPrecondition | SAborted
  | SOutOfRange | SUnimplemented | SInternal | SUnavailable | SDataLoss | SUnauthenticated

fun status_value :: "StatusCode \<Rightarrow> nat" where
  "status_value SOk = 0" | "status_value SCancelled = 1" | "status_value SUnknown = 2"
| "status_value SInvalidArgument = 3" | "status_value SDeadlineExceeded = 4" | "status_value SNotFound = 5"
| "status_value SAlreadyExists = 6" | "status_value SPermissionDenied = 7"
| "status_value SResourceExhausted = 8" | "status_value SFailedPrecondition = 9" | "status_value SAborted = 10"
| "status_value SOutOfRange = 11" | "status_value SUnimplemented = 12" | "status_value SInternal = 13"
| "status_value SUnavailable = 14" | "status_value SDataLoss = 15" | "status_value SUnauthenticated = 16"

type_synonym grpc_metadata = "string \<times> string"

record grpc_status =
  gs_code :: StatusCode
  gs_message :: string

definition grpc_ok :: grpc_status where "grpc_ok = \<lparr>gs_code = SOk, gs_message = []\<rparr>"

definition grpc_status_error :: "StatusCode \<Rightarrow> string \<Rightarrow> grpc_status" where
  "grpc_status_error c m = \<lparr>gs_code = c, gs_message = m\<rparr>"

record unary_request =
  ur_method :: string
  ur_payload :: octets
  ur_metadata :: "grpc_metadata list"

record unary_response =
  us_payload :: octets
  us_trailing :: "grpc_metadata list"

datatype handler_outcome = Responded unary_response | Failed grpc_status | Threw

type_synonym method_map = "string \<Rightarrow> (unary_request \<Rightarrow> handler_outcome) option"

definition kGrpcEnvelopeSize :: nat where "kGrpcEnvelopeSize = 5"
definition kContentType :: string where "kContentType = ''application/grpc''"

definition to_lower_ascii :: "string \<Rightarrow> string" where "to_lower_ascii s = map ascii_lower s"

definition starts_with_grpc_content_type :: "string \<Rightarrow> bool" where
  "starts_with_grpc_content_type v = starts_with v kContentType"

definition is_reserved_metadata :: "string \<Rightarrow> bool" where
  "is_reserved_metadata n \<longleftrightarrow> n = ''content-type'' \<or> n = ''te'' \<or> n = ''grpc-timeout''
     \<or> n = ''grpc-encoding'' \<or> n = ''grpc-accept-encoding''"

definition is_reserved_trailer :: "string \<Rightarrow> bool" where
  "is_reserved_trailer n \<longleftrightarrow> n = ''grpc-status'' \<or> n = ''grpc-message''"

definition status_code_text :: "StatusCode \<Rightarrow> string" where
  "status_code_text c = dec_string (status_value c)"

definition sanitize_grpc_message :: "string \<Rightarrow> string" where
  "sanitize_grpc_message m = map (\<lambda>ch. if ch = CHR 0x0D \<or> ch = CHR 0x0A then CHR '' '' else ch) m"

record stream_state =
  stream_id :: int
  http_method :: string
  ss_method :: string
  content_type :: string
  ss_payload :: octets
  ss_metadata :: "grpc_metadata list"
  early_status :: "grpc_status option"
  response_bytes :: octets
  response_offset :: nat
  response_trailers :: "grpc_metadata list"
  end_stream :: bool
  submitted :: bool
  trailers_submitted :: bool

definition new_stream :: "int \<Rightarrow> stream_state" where
  "new_stream i = \<lparr>stream_id = i, http_method = [], ss_method = [], content_type = [], ss_payload = [],
     ss_metadata = [], early_status = None, response_bytes = [], response_offset = 0,
     response_trailers = [], end_stream = False, submitted = False, trailers_submitted = False\<rparr>"

text \<open>What a \<^verbatim>\<open>nghttp2_submit_response\<close> is given: the stream, the headers, and the state it reads from.\<close>

record submission =
  sub_stream :: int
  sub_headers :: "grpc_metadata list"
  sub_state :: stream_state

record grpc_session =
  streams :: "int \<Rightarrow> stream_state option"
  ready_streams :: "int list"
  submissions :: "submission list"

definition new_grpc_session :: grpc_session where
  "new_grpc_session = \<lparr>streams = Map.empty, ready_streams = [], submissions = []\<rparr>"

subsection \<open>The callbacks\<close>

record h2_frame =
  is_headers :: bool
  cat_request :: bool
  flag_end_stream :: bool
  frame_stream :: int

definition on_begin_headers :: "h2_frame \<Rightarrow> grpc_session \<Rightarrow> grpc_session" where
  "on_begin_headers frame s =
     (if \<not> is_headers frame \<or> \<not> cat_request frame then s
      else s\<lparr>streams := (streams s)(frame_stream frame \<mapsto> new_stream (frame_stream frame))\<rparr>)"

definition add_header :: "string \<Rightarrow> string \<Rightarrow> stream_state \<Rightarrow> stream_state" where
  "add_header header_name header_value st =
     (if header_name = '':method'' then st\<lparr>http_method := header_value\<rparr>
      else if header_name = '':path'' then st\<lparr>ss_method := header_value\<rparr>
      else if header_name = ''content-type'' then st\<lparr>content_type := header_value\<rparr>
      else if \<not> starts_with header_name '':'' \<and> \<not> is_reserved_metadata header_name
        then st\<lparr>ss_metadata := ss_metadata st @ [(header_name, header_value)]\<rparr>
      else st)"

definition on_header :: "h2_frame \<Rightarrow> octets \<Rightarrow> octets \<Rightarrow> grpc_session \<Rightarrow> grpc_session" where
  "on_header frame name val s =
     (if \<not> is_headers frame \<or> \<not> cat_request frame then s
      else case streams s (frame_stream frame) of
        None \<Rightarrow> s
      | Some st \<Rightarrow>
          s\<lparr>streams := (streams s)(frame_stream frame \<mapsto>
             add_header (to_lower_ascii (map char_of_octet name)) (map char_of_octet val) st)\<rparr>)"

text \<open>The largest accepted message with its envelope; the sum is one of \<^verbatim>\<open>std::size_t\<close>, so it wraps around.\<close>

definition message_limit :: "nat \<Rightarrow> nat" where
  "message_limit max_message_size = (max_message_size + kGrpcEnvelopeSize) mod 2 ^ 64"

definition on_data_chunk_recv :: "nat \<Rightarrow> int \<Rightarrow> octets \<Rightarrow> grpc_session \<Rightarrow> grpc_session" where
  "on_data_chunk_recv max_message_size i chunk s =
     (case streams s i of
        None \<Rightarrow> s
      | Some st \<Rightarrow>
          (if length (ss_payload st) + length chunk > message_limit max_message_size
           then s\<lparr>streams := (streams s)(i \<mapsto> st\<lparr>early_status :=
                  Some (grpc_status_error SResourceExhausted ''message too large'')\<rparr>)\<rparr>
           else s\<lparr>streams := (streams s)(i \<mapsto> st\<lparr>ss_payload := ss_payload st @ chunk\<rparr>)\<rparr>))"

definition on_frame_recv :: "h2_frame \<Rightarrow> grpc_session \<Rightarrow> grpc_session" where
  "on_frame_recv frame s =
     (if \<not> flag_end_stream frame then s
      else case streams s (frame_stream frame) of
        None \<Rightarrow> s
      | Some st \<Rightarrow> s\<lparr>streams := (streams s)(frame_stream frame \<mapsto> st\<lparr>end_stream := True\<rparr>),
                     ready_streams := ready_streams s @ [frame_stream frame]\<rparr>)"

datatype h2_event =
    BeginHeaders h2_frame
  | Header h2_frame octets octets
  | DataChunk int octets
  | FrameRecv h2_frame

fun on_event :: "nat \<Rightarrow> h2_event \<Rightarrow> grpc_session \<Rightarrow> grpc_session" where
  "on_event m (BeginHeaders f) s = on_begin_headers f s"
| "on_event m (Header f n v) s = on_header f n v s"
| "on_event m (DataChunk i c) s = on_data_chunk_recv m i c s"
| "on_event m (FrameRecv f) s = on_frame_recv f s"

subsection \<open>Answering the complete streams\<close>

definition status_for_decode_error :: "GrpcError \<Rightarrow> grpc_status" where
  "status_for_decode_error e = (case e of
      GMessageTooLarge \<Rightarrow> grpc_status_error SResourceExhausted ''message too large''
    | GCompressionUnsupported \<Rightarrow> grpc_status_error SUnimplemented ''compression unsupported''
    | _ \<Rightarrow> grpc_status_error SInternal ''protocol error'')"

text \<open>Names and values go to nghttp2 as octets, one for each character.\<close>

definition to_octets :: "string \<Rightarrow> octets" where
  "to_octets text = map octet_of_char text"

definition make_header :: "string \<Rightarrow> string \<Rightarrow> octets \<times> octets" where
  "make_header name val = (to_octets name, to_octets val)"

text \<open>A peer that reads octets as the session itself does gets the header back, its name in lower case.\<close>

lemma make_header_read:
  "on_header frame (fst (make_header n v)) (snd (make_header n v)) s =
     (if \<not> is_headers frame \<or> \<not> cat_request frame then s
      else case streams s (frame_stream frame) of None \<Rightarrow> s
        | Some st \<Rightarrow> s\<lparr>streams := (streams s)(frame_stream frame \<mapsto> add_header (to_lower_ascii n) v st)\<rparr>)"
  by (simp add: on_header_def make_header_def to_octets_def split: option.split)

definition trailers_of :: "grpc_status \<Rightarrow> grpc_metadata list \<Rightarrow> grpc_metadata list" where
  "trailers_of status trailing =
     (let status_msg = sanitize_grpc_message (gs_message status) in
      map (\<lambda>(n, v). (to_lower_ascii n, v)) trailing
        @ [(''grpc-status'', status_code_text (gs_code status))]
        @ (if status_msg \<noteq> [] then [(''grpc-message'', status_msg)] else []))"

definition submit_response :: "stream_state \<Rightarrow> grpc_status \<Rightarrow> grpc_metadata list \<Rightarrow> grpc_session \<Rightarrow> grpc_session" where
  "submit_response st status trailing s =
     (let st' = st\<lparr>response_trailers := trailers_of status trailing, trailers_submitted := False\<rparr> in
      s\<lparr>streams := (streams s)(stream_id st \<mapsto> st'),
        submissions := submissions s @ [\<lparr>sub_stream = stream_id st,
          sub_headers = [('':status'', ''200''), (''content-type'', kContentType)], sub_state = st'\<rparr>]\<rparr>)"

definition submit_status :: "stream_state \<Rightarrow> grpc_status \<Rightarrow> grpc_session \<Rightarrow> grpc_session" where
  "submit_status st status s = submit_response (st\<lparr>response_bytes := [], response_offset := 0\<rparr>) status [] s"

text \<open>The body of the \<^verbatim>\<open>try\<close> block, after the handler returned.\<close>

definition submit_outcome :: "nat \<Rightarrow> stream_state \<Rightarrow> handler_outcome \<Rightarrow> grpc_session \<Rightarrow> grpc_session" where
  "submit_outcome max_message_size st outcome s = (case outcome of
      Failed status \<Rightarrow> submit_status st status s
    | Threw \<Rightarrow> submit_status st (grpc_status_error SUnknown ''handler failed'') s
    | Responded response \<Rightarrow>
        if list_ex (\<lambda>(n, v). is_reserved_trailer (to_lower_ascii n)) (us_trailing response)
        then submit_status st (grpc_status_error SInternal ''reserved trailer metadata'') s
        else case encode_unary_message (us_payload response) max_message_size of
          Inl e \<Rightarrow> submit_status st (status_for_decode_error e) s
        | Inr encoded \<Rightarrow> submit_response (st\<lparr>response_bytes := encoded\<rparr>) grpc_ok (us_trailing response) s)"

definition answer_stream :: "nat \<Rightarrow> method_map \<Rightarrow> stream_state \<Rightarrow> grpc_session \<Rightarrow> grpc_session" where
  "answer_stream max_message_size methods st s =
     (case early_status st of
        Some status \<Rightarrow> submit_status st status s
      | None \<Rightarrow>
        if http_method st \<noteq> ''POST'' then submit_status st (grpc_status_error SInternal ''invalid method'') s
        else if \<not> starts_with_grpc_content_type (content_type st)
          then submit_status st (grpc_status_error SInternal ''invalid content-type'') s
        else case methods (ss_method st) of
          None \<Rightarrow> submit_status st (grpc_status_error SUnimplemented ''method not found'') s
        | Some handler \<Rightarrow>
            (case decode_unary_message (ss_payload st) max_message_size of
               Inl e \<Rightarrow> submit_status st (status_for_decode_error e) s
             | Inr decoded \<Rightarrow>
                 submit_outcome max_message_size st
                   (handler \<lparr>ur_method = ss_method st, ur_payload = decoded, ur_metadata = ss_metadata st\<rparr>) s))"

definition process_stream :: "nat \<Rightarrow> method_map \<Rightarrow> int \<Rightarrow> grpc_session \<Rightarrow> grpc_session" where
  "process_stream m methods i s = (case streams s i of
      None \<Rightarrow> s
    | Some st \<Rightarrow>
        if submitted st then s
        else if \<not> end_stream st then s
        else answer_stream m methods (st\<lparr>submitted := True\<rparr>) s)"

text \<open>
  \<^verbatim>\<open>process_ready_streams\<close>: the front of the ready list is removed, then its stream is answered. Answering
  does not add to the list, so the recursion is over the list the loop started with.
\<close>

primrec process_list :: "nat \<Rightarrow> method_map \<Rightarrow> int list \<Rightarrow> grpc_session \<Rightarrow> grpc_session" where
  "process_list m methods [] s = s"
| "process_list m methods (i # rest) s =
     process_list m methods rest (process_stream m methods i (s\<lparr>ready_streams := rest\<rparr>))"

definition process_ready_streams :: "nat \<Rightarrow> method_map \<Rightarrow> grpc_session \<Rightarrow> grpc_session" where
  "process_ready_streams m methods s = process_list m methods (ready_streams s) s"

text \<open>\<^verbatim>\<open>run\<close>: each read gives nghttp2 its bytes, which calls back, then the complete streams are answered.\<close>

primrec grpc_run :: "nat \<Rightarrow> method_map \<Rightarrow> h2_event list list \<Rightarrow> grpc_session \<Rightarrow> grpc_session" where
  "grpc_run m methods [] s = s"
| "grpc_run m methods (evs # rounds) s =
     grpc_run m methods rounds (process_ready_streams m methods (fold (on_event m) evs s))"

subsection \<open>Sending an answer\<close>

record data_chunk =
  dc_bytes :: octets
  dc_eof :: bool
  dc_no_end_stream :: bool
  dc_trailer :: "grpc_metadata list option"

text \<open>One call of the data source with a buffer of the given length.\<close>

definition on_data_read :: "nat \<Rightarrow> stream_state \<Rightarrow> data_chunk \<times> stream_state" where
  "on_data_read len st =
     (let remaining = length (response_bytes st) - response_offset st;
          to_copy = min len remaining;
          bytes = take to_copy (drop (response_offset st) (response_bytes st));
          st = st\<lparr>response_offset := response_offset st + to_copy\<rparr>
      in if response_offset st \<ge> length (response_bytes st)
         then (\<lparr>dc_bytes = bytes, dc_eof = True, dc_no_end_stream = True,
                 dc_trailer = (if \<not> trailers_submitted st then Some (response_trailers st) else None)\<rparr>,
               st\<lparr>trailers_submitted := True\<rparr>)
         else (\<lparr>dc_bytes = bytes, dc_eof = False, dc_no_end_stream = False, dc_trailer = None\<rparr>, st))"

text \<open>nghttp2 asks with buffers of the given lengths until it is told the data ended.\<close>

fun pull_data :: "nat list \<Rightarrow> stream_state \<Rightarrow> data_chunk list" where
  "pull_data [] st = []"
| "pull_data (len # lens) st =
     (let (c, st') = on_data_read len st in if dc_eof c then [c] else c # pull_data lens st')"

subsection \<open>The answer of a stream\<close>

text \<open>What a collected request is answered with: the state with its body bytes, the status, the trailing metadata.\<close>

definition status_answer :: "stream_state \<Rightarrow> grpc_status \<Rightarrow> stream_state \<times> grpc_status \<times> grpc_metadata list" where
  "status_answer st status = (st\<lparr>response_bytes := [], response_offset := 0\<rparr>, status, [])"

definition outcome_answer :: "nat \<Rightarrow> stream_state \<Rightarrow> handler_outcome \<Rightarrow> stream_state \<times> grpc_status \<times> grpc_metadata list" where
  "outcome_answer m st outcome = (case outcome of
      Failed status \<Rightarrow> status_answer st status
    | Threw \<Rightarrow> status_answer st (grpc_status_error SUnknown ''handler failed'')
    | Responded r \<Rightarrow>
        if \<exists>(n, v) \<in> set (us_trailing r). is_reserved_trailer (to_lower_ascii n)
        then status_answer st (grpc_status_error SInternal ''reserved trailer metadata'')
        else if length (us_payload r) > m
        then status_answer st (grpc_status_error SResourceExhausted ''message too large'')
        else (st\<lparr>response_bytes := envelope (us_payload r)\<rparr>, grpc_ok, us_trailing r))"

definition stream_answer :: "nat \<Rightarrow> method_map \<Rightarrow> stream_state \<Rightarrow> stream_state \<times> grpc_status \<times> grpc_metadata list" where
  "stream_answer m methods st = (case early_status st of
      Some status \<Rightarrow> status_answer st status
    | None \<Rightarrow>
      if http_method st \<noteq> ''POST'' then status_answer st (grpc_status_error SInternal ''invalid method'')
      else if \<not> starts_with_grpc_content_type (content_type st)
        then status_answer st (grpc_status_error SInternal ''invalid content-type'')
      else case methods (ss_method st) of
        None \<Rightarrow> status_answer st (grpc_status_error SUnimplemented ''method not found'')
      | Some handler \<Rightarrow> (case decode_unary_message (ss_payload st) m of
            Inl e \<Rightarrow> status_answer st (status_for_decode_error e)
          | Inr decoded \<Rightarrow> outcome_answer m st
              (handler \<lparr>ur_method = ss_method st, ur_payload = decoded, ur_metadata = ss_metadata st\<rparr>)))"

definition submit_answer :: "stream_state \<times> grpc_status \<times> grpc_metadata list \<Rightarrow> grpc_session \<Rightarrow> grpc_session" where
  "submit_answer a s = (case a of (st, status, trailing) \<Rightarrow> submit_response st status trailing s)"

lemma submit_status_answer: "submit_status st status s = submit_answer (status_answer st status) s"
  by (simp add: submit_status_def submit_answer_def status_answer_def)

lemma submit_outcome_answer: "submit_outcome m st out s = submit_answer (outcome_answer m st out) s"
proof (cases out)
  case (Responded r)
  show ?thesis
    by (cases "length (us_payload r) > m")
       (simp_all add: Responded submit_outcome_def outcome_answer_def submit_status_answer encode_unary_message_def
         status_for_decode_error_def encode_shape envelope_def list_ex_iff, simp_all add: submit_answer_def)
qed (simp_all add: submit_outcome_def outcome_answer_def submit_status_answer)

lemma answer_stream_answer: "answer_stream m methods st s = submit_answer (stream_answer m methods st) s"
  unfolding answer_stream_def stream_answer_def submit_status_answer submit_outcome_answer
  by (simp split: option.split sum.split)

lemma stream_answer_fields:
  assumes "stream_answer m methods st = (st', status, trailing)"
  shows "stream_id st' = stream_id st" "submitted st' = submitted st" "end_stream st' = end_stream st"
proof -
  have "P (stream_answer m methods st)"
    if "\<And>status. P (status_answer st status)" "\<And>out. P (outcome_answer m st out)" for P
    using that unfolding stream_answer_def by (simp split: option.split sum.split)
  moreover have "P (outcome_answer m st out)"
    if "\<And>status. P (status_answer st status)" "\<And>b t. P (st\<lparr>response_bytes := b\<rparr>, grpc_ok, t)" for P out
    using that unfolding outcome_answer_def by (simp split: handler_outcome.split)
  ultimately have "P (stream_answer m methods st)"
    if "\<And>status. P (status_answer st status)" "\<And>b t. P (st\<lparr>response_bytes := b\<rparr>, grpc_ok, t)" for P
    using that by blast
  from this [of "\<lambda>a. stream_id (fst a) = stream_id st \<and> submitted (fst a) = submitted st \<and> end_stream (fst a) = end_stream st"] assms
  show "stream_id st' = stream_id st" "submitted st' = submitted st" "end_stream st' = end_stream st"
    by (simp_all add: status_answer_def)
qed
subsection \<open>Streams are independent\<close>

definition ids_ok :: "grpc_session \<Rightarrow> bool" where
  "ids_ok s \<longleftrightarrow> (\<forall>i st. streams s i = Some st \<longrightarrow> stream_id st = i)"

definition answered :: "nat \<Rightarrow> method_map \<Rightarrow> stream_state \<Rightarrow> stream_state" where
  "answered m methods st = (case stream_answer m methods (st\<lparr>submitted := True\<rparr>) of (st', status, trailing) \<Rightarrow>
     st'\<lparr>response_trailers := trailers_of status trailing, trailers_submitted := False\<rparr>)"

definition submission_of :: "nat \<Rightarrow> method_map \<Rightarrow> int \<Rightarrow> stream_state \<Rightarrow> submission" where
  "submission_of m methods i st = \<lparr>sub_stream = i,
     sub_headers = [('':status'', ''200''), (''content-type'', kContentType)], sub_state = answered m methods st\<rparr>"

lemma answered_fields [simp]:
  "stream_id (answered m methods st) = stream_id st" "submitted (answered m methods st)"
  "end_stream (answered m methods st) = end_stream st"
proof -
  obtain st' status trailing where a: "stream_answer m methods (st\<lparr>submitted := True\<rparr>) = (st', status, trailing)"
    by (rule prod_cases3)
  from stream_answer_fields [OF a] show "stream_id (answered m methods st) = stream_id st"
    "submitted (answered m methods st)" "end_stream (answered m methods st) = end_stream st"
    by (simp_all add: answered_def a)
qed

lemma process_stream_eq:
  assumes "ids_ok s"
  shows "process_stream m methods i s = (case streams s i of None \<Rightarrow> s
    | Some st \<Rightarrow> if submitted st \<or> \<not> end_stream st then s
        else s\<lparr>streams := (streams s)(i \<mapsto> answered m methods st),
               submissions := submissions s @ [submission_of m methods i st]\<rparr>)"
proof (cases "streams s i")
  case (Some st)
  obtain st' status trailing where a: "stream_answer m methods (st\<lparr>submitted := True\<rparr>) = (st', status, trailing)"
    by (rule prod_cases3)
  have "stream_id st' = i" using stream_answer_fields(1) [OF a] assms Some by (simp add: ids_ok_def)
  then show ?thesis
    by (simp add: Some process_stream_def answer_stream_answer a submit_answer_def submit_response_def
      submission_of_def answered_def Let_def)
qed (simp add: process_stream_def)

lemma process_stream_ids: "ids_ok s \<Longrightarrow> ids_ok (process_stream m methods i s)"
  by (subst process_stream_eq) (auto simp: ids_ok_def split: option.split)

lemma process_stream_ready [simp]: "ids_ok s \<Longrightarrow> ready_streams (process_stream m methods i s) = ready_streams s"
  by (simp add: process_stream_eq split: option.split)

lemma add_header_id [simp]: "stream_id (add_header n v st) = stream_id st"
  by (simp add: add_header_def)

lemmas event_defs = on_begin_headers_def on_header_def on_data_chunk_recv_def on_frame_recv_def

lemma on_event_ids: "ids_ok s \<Longrightarrow> ids_ok (on_event m ev s)"
  by (cases ev) (auto simp: event_defs ids_ok_def new_stream_def split: option.split)

fun event_stream :: "h2_event \<Rightarrow> int" where
  "event_stream (BeginHeaders f) = frame_stream f"
| "event_stream (Header f n v) = frame_stream f"
| "event_stream (DataChunk i c) = i"
| "event_stream (FrameRecv f) = frame_stream f"

text \<open>The session seen from one stream.\<close>

definition seen_by :: "int \<Rightarrow> grpc_session \<Rightarrow> grpc_session \<Rightarrow> bool" where
  "seen_by i s t \<longleftrightarrow> ids_ok s \<and> ids_ok t \<and> streams s i = streams t i
     \<and> filter (\<lambda>j. j = i) (ready_streams s) = ready_streams t
     \<and> filter (\<lambda>sb. sub_stream sb = i) (submissions s) = submissions t"

lemma seen_by_event:
  assumes "seen_by i s t"
  shows "event_stream ev = i \<Longrightarrow> seen_by i (on_event m ev s) (on_event m ev t)"
    and "event_stream ev \<noteq> i \<Longrightarrow> seen_by i (on_event m ev s) t"
  using assms on_event_ids [of s m ev] on_event_ids [of t m ev]
  by (cases ev; auto simp: seen_by_def event_defs split: option.splits if_splits)+

lemma seen_by_events:
  "seen_by i s t \<Longrightarrow> seen_by i (fold (on_event m) evs s) (fold (on_event m) (filter (\<lambda>e. event_stream e = i) evs) t)"
  by (induction evs arbitrary: s t) (auto intro: seen_by_event)

lemma seen_by_process:
  assumes "seen_by i s t"
  shows "seen_by i (process_stream m methods i s) (process_stream m methods i t)"
    and "j \<noteq> i \<Longrightarrow> seen_by i (process_stream m methods j s) t"
proof -
  have ids: "ids_ok s" "ids_ok t" using assms by (simp_all add: seen_by_def)
  note ids' = process_stream_ids [OF ids(1)] process_stream_ids [OF ids(2)]
  show "seen_by i (process_stream m methods i s) (process_stream m methods i t)"
    unfolding seen_by_def
  proof (intro conjI ids')
  qed (use assms in \<open>auto simp: seen_by_def process_stream_eq submission_of_def split: option.split\<close>)
  show "seen_by i (process_stream m methods j s) t" if "j \<noteq> i"
    unfolding seen_by_def
  proof (intro conjI ids' ids)
  qed (use assms that in \<open>auto simp: seen_by_def process_stream_eq submission_of_def split: option.split\<close>)
qed

lemma seen_by_list:
  "seen_by i s t \<Longrightarrow> ready_streams s = rs \<Longrightarrow> ready_streams t = filter (\<lambda>j. j = i) rs \<Longrightarrow>
     seen_by i (process_list m methods rs s) (process_list m methods (filter (\<lambda>j. j = i) rs) t)"
proof (induction rs arbitrary: s t)
  case (Cons j rs)
  have ids: "ids_ok s" "ids_ok t" using Cons.prems by (simp_all add: seen_by_def)
  have ids': "ids_ok (s\<lparr>ready_streams := r\<rparr>)" "ids_ok (t\<lparr>ready_streams := r\<rparr>)" for r
    using ids by (simp_all add: ids_ok_def)
  show ?case
  proof (cases "j = i")
    case True
    have "seen_by i (s\<lparr>ready_streams := rs\<rparr>) (t\<lparr>ready_streams := filter (\<lambda>j. j = i) rs\<rparr>)"
      using Cons.prems(1) ids' by (simp add: seen_by_def)
    from seen_by_process(1) [OF this, of m methods] True ids' show ?thesis
      by (auto intro!: Cons.IH)
  next
    case False
    have "seen_by i (s\<lparr>ready_streams := rs\<rparr>) t"
      using Cons.prems False ids' by (auto simp: seen_by_def)
    from seen_by_process(2) [OF this False, of m methods] False ids' Cons.prems show ?thesis
      by (auto intro!: Cons.IH)
  qed
qed simp

lemma seen_by_run:
  "seen_by i s t \<Longrightarrow>
     seen_by i (grpc_run m methods rounds s) (grpc_run m methods (map (filter (\<lambda>e. event_stream e = i)) rounds) t)"
proof (induction rounds arbitrary: s t)
  case (Cons evs rounds)
  let ?s = "fold (on_event m) evs s" and ?t = "fold (on_event m) (filter (\<lambda>e. event_stream e = i) evs) t"
  have e: "seen_by i ?s ?t" by (rule seen_by_events [OF Cons.prems])
  then have "ready_streams ?t = filter (\<lambda>j. j = i) (ready_streams ?s)" by (simp add: seen_by_def)
  with seen_by_list [OF e refl this, of m methods] show ?case
    by (simp add: process_ready_streams_def Cons.IH)
qed simp

lemma seen_by_new: "seen_by i new_grpc_session new_grpc_session"
  by (simp add: seen_by_def new_grpc_session_def ids_ok_def)

text \<open>
  The streams of a connection do not influence each other: whatever the client interleaves
  and however nghttp2 batches it, the state of a stream and what is submitted for it are those of a
  connection that carries this stream alone.
\<close>

lemma grpc_streams_independent:
  "let whole = grpc_run m methods rounds new_grpc_session;
       alone = grpc_run m methods (map (filter (\<lambda>e. event_stream e = i)) rounds) new_grpc_session
   in streams whole i = streams alone i
      \<and> filter (\<lambda>sb. sub_stream sb = i) (submissions whole) = submissions alone"
  using seen_by_run [OF seen_by_new] by (simp add: Let_def seen_by_def)
subsection \<open>The answer to a complete request\<close>

text \<open>Events nghttp2 reports that a stream reacts to: request headers, data, and the frame that ends it.\<close>

fun effective :: "h2_event \<Rightarrow> bool" where
  "effective (BeginHeaders f) \<longleftrightarrow> is_headers f \<and> cat_request f"
| "effective (Header f n v) \<longleftrightarrow> is_headers f \<and> cat_request f"
| "effective (DataChunk i c) \<longleftrightarrow> True"
| "effective (FrameRecv f) \<longleftrightarrow> flag_end_stream f"

definition request_frame :: "int \<Rightarrow> h2_frame" where
  "request_frame i = \<lparr>is_headers = True, cat_request = True, flag_end_stream = True, frame_stream = i\<rparr>"

definition call_events :: "h2_frame \<Rightarrow> h2_frame \<Rightarrow> (octets \<times> octets) list \<Rightarrow> octets list \<Rightarrow> h2_event list" where
  "call_events f e hs chunks = BeginHeaders f # map (\<lambda>(n, v). Header f n v) hs
     @ map (DataChunk (frame_stream f)) chunks @ [FrameRecv e]"

text \<open>The headers of a request by name, and its application metadata.\<close>

definition header_strings :: "(octets \<times> octets) list \<Rightarrow> grpc_metadata list" where
  "header_strings hs = map (\<lambda>(n, v). (to_lower_ascii (map char_of_octet n), map char_of_octet v)) hs"

definition last_header :: "string \<Rightarrow> grpc_metadata list \<Rightarrow> string" where
  "last_header name hs = (let found = filter (\<lambda>(n, v). n = name) hs in if found = [] then [] else snd (last found))"

definition app_metadata :: "grpc_metadata list \<Rightarrow> grpc_metadata list" where
  "app_metadata hs = filter (\<lambda>(n, v). \<not> starts_with n '':'' \<and> \<not> is_reserved_metadata n) hs"

text \<open>What the caller is owed: body, status and trailing metadata, from headers and body of the request.\<close>

definition unary_reply :: "nat \<Rightarrow> method_map \<Rightarrow> grpc_metadata list \<Rightarrow> octets \<Rightarrow> octets \<times> grpc_status \<times> grpc_metadata list" where
  "unary_reply m methods hs payload =
     (let failed = (\<lambda>code msg. ([], grpc_status_error code msg, [])) in
      if length payload > message_limit m then failed SResourceExhausted ''message too large''
      else if last_header '':method'' hs \<noteq> ''POST'' then failed SInternal ''invalid method''
      else if \<not> starts_with (last_header ''content-type'' hs) ''application/grpc''
        then failed SInternal ''invalid content-type''
      else case methods (last_header '':path'' hs) of
        None \<Rightarrow> failed SUnimplemented ''method not found''
      | Some handler \<Rightarrow>
        (case decode_unary_message payload m of
           Inl e \<Rightarrow> ([], status_for_decode_error e, [])
         | Inr message \<Rightarrow>
           (case handler \<lparr>ur_method = last_header '':path'' hs, ur_payload = message, ur_metadata = app_metadata hs\<rparr> of
              Threw \<Rightarrow> failed SUnknown ''handler failed''
            | Failed status \<Rightarrow> ([], status, [])
            | Responded r \<Rightarrow>
                if \<exists>(n, v) \<in> set (us_trailing r). is_reserved_trailer (to_lower_ascii n)
                then failed SInternal ''reserved trailer metadata''
                else if length (us_payload r) > m then failed SResourceExhausted ''message too large''
                else (envelope (us_payload r), grpc_ok, us_trailing r))))"

lemma last_header_snoc [simp]: "last_header name (hs @ [(n, v)]) = (if n = name then v else last_header name hs)"
  by (simp add: last_header_def Let_def)

lemma header_strings_snoc [simp]:
  "header_strings (hs @ [(n, v)]) = header_strings hs @ [(to_lower_ascii (map char_of_octet n), map char_of_octet v)]"
  by (simp add: header_strings_def)

text \<open>A stream that has collected these headers and chunks.\<close>

definition collected :: "nat \<Rightarrow> (octets \<times> octets) list \<Rightarrow> octets list \<Rightarrow> stream_state \<Rightarrow> bool" where
  "collected m hs chunks st \<longleftrightarrow>
     http_method st = last_header '':method'' (header_strings hs)
     \<and> ss_method st = last_header '':path'' (header_strings hs)
     \<and> content_type st = last_header ''content-type'' (header_strings hs)
     \<and> ss_metadata st = app_metadata (header_strings hs)
     \<and> response_offset st = 0 \<and> response_bytes st = [] \<and> \<not> submitted st \<and> \<not> end_stream st
     \<and> (if length (concat chunks) > message_limit m
        then early_status st = Some (grpc_status_error SResourceExhausted ''message too large'')
          \<and> length (ss_payload st) \<le> message_limit m
        else early_status st = None \<and> ss_payload st = concat chunks)"

lemma collect_headers:
  assumes "is_headers f" "cat_request f" "frame_stream f = i"
  shows "\<exists>st. fold (on_event m) (BeginHeaders f # map (\<lambda>(n, v). Header f n v) hs) new_grpc_session
      = new_grpc_session\<lparr>streams := [i \<mapsto> st]\<rparr> \<and> stream_id st = i \<and> collected m hs [] st"
proof (induction hs rule: rev_induct)
  case Nil
  show ?case using assms
    by (intro exI [of _ "new_stream i"]) (simp add: on_begin_headers_def collected_def new_stream_def new_grpc_session_def
        header_strings_def last_header_def app_metadata_def del: fun_upd_apply)
next
  case (snoc h hs)
  obtain n v where h: "h = (n, v)" by fastforce
  from snoc obtain st where st: "fold (on_event m) (BeginHeaders f # map (\<lambda>(n, v). Header f n v) hs) new_grpc_session
      = new_grpc_session\<lparr>streams := [i \<mapsto> st]\<rparr>" "stream_id st = i" "collected m hs [] st" by blast
  let ?n = "to_lower_ascii (map char_of_octet n)"
  have "collected m (hs @ [(n, v)]) [] (add_header ?n (map char_of_octet v) st)"
    using st(3) by (simp add: collected_def add_header_def app_metadata_def is_reserved_metadata_def starts_with_def)
  moreover have "fold (on_event m) (BeginHeaders f # map (\<lambda>(n, v). Header f n v) (hs @ [h])) new_grpc_session
      = on_header f n v (new_grpc_session\<lparr>streams := [i \<mapsto> st]\<rparr>)"
    using st(1) by (simp add: h)
  then have "fold (on_event m) (BeginHeaders f # map (\<lambda>(n, v). Header f n v) (hs @ [h])) new_grpc_session
      = new_grpc_session\<lparr>streams := [i \<mapsto> add_header ?n (map char_of_octet v) st]\<rparr>"
    using assms by (simp add: on_header_def)
  moreover have "stream_id (add_header ?n (map char_of_octet v) st) = i" using st(2) by simp
  ultimately show ?case unfolding h by blast
qed

lemma collect_chunks:
  assumes "collected m hs [] st" "stream_id st = i"
  shows "\<exists>st'. fold (on_event m) (map (DataChunk i) chunks) (s\<lparr>streams := [i \<mapsto> st]\<rparr>)
      = s\<lparr>streams := [i \<mapsto> st']\<rparr> \<and> stream_id st' = i \<and> collected m hs chunks st'"
proof (induction chunks rule: rev_induct)
  case Nil
  show ?case using assms by auto
next
  case (snoc c chunks)
  then obtain st' where st': "fold (on_event m) (map (DataChunk i) chunks) (s\<lparr>streams := [i \<mapsto> st]\<rparr>)
      = s\<lparr>streams := [i \<mapsto> st']\<rparr>" "stream_id st' = i" "collected m hs chunks st'" by blast
  let ?st = "if length (ss_payload st') + length c > message_limit m
    then st'\<lparr>early_status := Some (grpc_status_error SResourceExhausted ''message too large'')\<rparr>
    else st'\<lparr>ss_payload := ss_payload st' @ c\<rparr>"
  have "fold (on_event m) (map (DataChunk i) (chunks @ [c])) (s\<lparr>streams := [i \<mapsto> st]\<rparr>)
      = on_data_chunk_recv m i c (s\<lparr>streams := [i \<mapsto> st']\<rparr>)"
    using st'(1) by (simp del: fun_upd_apply)
  also have "\<dots> = s\<lparr>streams := [i \<mapsto> ?st]\<rparr>"
    by (simp add: on_data_chunk_recv_def)
  finally have "fold (on_event m) (map (DataChunk i) (chunks @ [c])) (s\<lparr>streams := [i \<mapsto> st]\<rparr>)
      = s\<lparr>streams := [i \<mapsto> ?st]\<rparr>" .
  moreover have "collected m hs (chunks @ [c]) ?st"
    using st'(3) by (cases "length (concat chunks) > message_limit m") (auto simp: collected_def)
  moreover have "stream_id ?st = i" using st'(2) by simp
  ultimately show ?case by blast
qed

lemma answered_collected:
  assumes "collected m hs chunks st" "unary_reply m methods (header_strings hs) (concat chunks) = (body, status, trailing)"
  shows "response_bytes (answered m methods (st\<lparr>end_stream := True\<rparr>)) = body
    \<and> response_offset (answered m methods (st\<lparr>end_stream := True\<rparr>)) = 0
    \<and> response_trailers (answered m methods (st\<lparr>end_stream := True\<rparr>)) = trailers_of status trailing"
proof -
  let ?st = "st\<lparr>end_stream := True, submitted := True\<rparr>"
  have reply: "\<exists>st'. stream_answer m methods ?st = (st', status, trailing) \<and> response_bytes st' = body \<and> response_offset st' = 0"
  proof (cases "length (concat chunks) > message_limit m")
    case True
    then show ?thesis using assms
      by (simp add: collected_def stream_answer_def status_answer_def unary_reply_def)
  next
    case False
    then have u: "early_status ?st = None" "http_method ?st = last_header '':method'' (header_strings hs)"
      "content_type ?st = last_header ''content-type'' (header_strings hs)"
      "ss_method ?st = last_header '':path'' (header_strings hs)" "ss_payload ?st = concat chunks"
      "ss_metadata ?st = app_metadata (header_strings hs)" "response_offset ?st = 0"
      using assms(1) by (simp_all add: collected_def)
    show ?thesis
      using assms(2) False unfolding stream_answer_def unary_reply_def u outcome_answer_def
      by (auto simp: Let_def status_answer_def starts_with_grpc_content_type_def kContentType_def u
          split: if_split_asm option.split_asm sum.split_asm handler_outcome.split_asm) (use u in simp)
  qed
  then show ?thesis by (auto simp: answered_def)
qed

lemma process_keeps_ready: "ready_streams (process_stream m methods i s) = ready_streams s"
  by (simp add: process_stream_def answer_stream_answer submit_answer_def submit_response_def Let_def
      split: option.split prod.split)

lemma process_list_ready: "ready_streams s = rs \<Longrightarrow> ready_streams (process_list m methods rs s) = []"
  by (induction rs arbitrary: s) (simp_all add: process_keeps_ready)

lemma process_none: "ready_streams s = [] \<Longrightarrow> process_ready_streams m methods s = s"
  by (simp add: process_ready_streams_def)

fun is_frame_recv :: "h2_event \<Rightarrow> bool" where
  "is_frame_recv (FrameRecv f) = True"
| "is_frame_recv ev = False"

lemma collecting_ready:
  "list_all (\<lambda>ev. \<not> is_frame_recv ev) evs \<Longrightarrow> ready_streams (fold (on_event m) evs s) = ready_streams s"
proof (induction evs arbitrary: s)
  case (Cons ev evs)
  then show ?case by (cases ev) (simp_all add: event_defs split: option.split)
qed simp

lemma run_empty_rounds: "concat rounds = [] \<Longrightarrow> ready_streams s = [] \<Longrightarrow> grpc_run m methods rounds s = s"
  by (induction rounds) (simp_all add: process_none)

lemma run_until_end:
  assumes "concat rounds = E @ [last_ev]" "ready_streams s = []" "list_all (\<lambda>ev. \<not> is_frame_recv ev) E"
  shows "grpc_run m methods rounds s
    = process_ready_streams m methods (on_event m last_ev (fold (on_event m) E s))"
  using assms
proof (induction rounds arbitrary: E s)
  case (Cons evs rounds)
  show ?case
  proof (cases "concat rounds = []")
    case True
    with Cons.prems have e: "evs = E @ [last_ev]" by simp
    let ?t = "process_ready_streams m methods (on_event m last_ev (fold (on_event m) E s))"
    have "ready_streams ?t = []" unfolding process_ready_streams_def by (rule process_list_ready) simp
    from run_empty_rounds [OF True this, of m methods] e show ?thesis by simp
  next
    case False
    then obtain E' x where x: "concat rounds = E' @ [x]" by (metis rev_exhaust)
    with Cons.prems(1) have E: "E = evs @ E'" "x = last_ev" by simp_all
    let ?s = "fold (on_event m) evs s"
    have r: "ready_streams ?s = []" using Cons.prems(2,3) E collecting_ready [of evs m s] by simp
    have "grpc_run m methods rounds ?s
        = process_ready_streams m methods (on_event m last_ev (fold (on_event m) E' ?s))"
      using Cons.prems(3) E x r by (intro Cons.IH) simp_all
    then show ?thesis using r by (simp add: process_none E)
  qed
qed simp

lemma ineffective: "\<not> effective ev \<Longrightarrow> on_event m ev s = s"
  by (cases ev) (auto simp: event_defs)

lemma effective_events: "fold (on_event m) (filter effective evs) s = fold (on_event m) evs s"
  by (induction evs arbitrary: s) (simp_all add: ineffective)

lemma run_effective: "grpc_run m methods (map (filter effective) rounds) s = grpc_run m methods rounds s"
  by (induction rounds arbitrary: s) (simp_all add: effective_events)

lemma run_alone:
  assumes f: "is_headers f" "cat_request f" "frame_stream f = i" and e: "flag_end_stream e" "frame_stream e = i"
    and ev: "concat rounds = call_events f e hs chunks"
  shows "\<exists>st. submissions (grpc_run m methods rounds new_grpc_session) = [submission_of m methods i (st\<lparr>end_stream := True\<rparr>)]
    \<and> collected m hs chunks st"
proof -
  let ?E = "(BeginHeaders f # map (\<lambda>(n, v). Header f n v) hs) @ map (DataChunk i) chunks"
  obtain st where st: "fold (on_event m) (BeginHeaders f # map (\<lambda>(n, v). Header f n v) hs) new_grpc_session
      = new_grpc_session\<lparr>streams := [i \<mapsto> st]\<rparr>" "stream_id st = i" "collected m hs [] st"
    using collect_headers [OF f] by blast
  obtain st' where st': "fold (on_event m) (map (DataChunk i) chunks) (new_grpc_session\<lparr>streams := [i \<mapsto> st]\<rparr>)
      = new_grpc_session\<lparr>streams := [i \<mapsto> st']\<rparr>" "stream_id st' = i" "collected m hs chunks st'"
    using collect_chunks [OF st(3,2)] by blast
  have "concat rounds = ?E @ [FrameRecv e]" using ev f by (simp add: call_events_def)
  moreover have "list_all (\<lambda>ev. \<not> is_frame_recv ev) ?E" by (auto simp: list_all_iff)
  ultimately have "grpc_run m methods rounds new_grpc_session
      = process_ready_streams m methods (on_event m (FrameRecv e) (fold (on_event m) ?E new_grpc_session))"
    by (intro run_until_end) (simp_all add: new_grpc_session_def)
  also have "fold (on_event m) ?E new_grpc_session = new_grpc_session\<lparr>streams := [i \<mapsto> st']\<rparr>"
    unfolding fold_append comp_def st(1) st'(1) ..
  also have "on_event m (FrameRecv e) \<dots> = new_grpc_session\<lparr>streams := [i \<mapsto> st'\<lparr>end_stream := True\<rparr>], ready_streams := [i]\<rparr>"
    using e by (simp add: on_frame_recv_def new_grpc_session_def)
  finally have run: "grpc_run m methods rounds new_grpc_session
      = process_stream m methods i (new_grpc_session\<lparr>streams := [i \<mapsto> st'\<lparr>end_stream := True\<rparr>], ready_streams := []\<rparr>)"
    by (simp add: process_ready_streams_def)
  have "ids_ok (new_grpc_session\<lparr>streams := [i \<mapsto> st'\<lparr>end_stream := True\<rparr>], ready_streams := []\<rparr>)"
    using st'(2) by (simp add: ids_ok_def)
  from process_stream_eq [OF this, of m methods i] run st'(3)
  have "submissions (grpc_run m methods rounds new_grpc_session) = [submission_of m methods i (st'\<lparr>end_stream := True\<rparr>)]"
    by (simp add: collected_def new_grpc_session_def)
  with st'(3) show ?thesis by blast
qed

text \<open>
  Claim C10. Every complete call is answered exactly once and as its request demands: if, among whatever
  else happens on the connection, the effective events of a stream are request headers, data chunks
  and the end of the stream, then exactly one response is submitted for it, whose body is the
  envelope of the handler's reply (the handler called with the unwrapped message and the application
  metadata) and whose trailers carry the status; and each failure (size, HTTP method, content type,
  unknown method, bad envelope, failing or throwing handler, reserved trailer, reply too large) yields
  an empty body with its status.
\<close>

theorem grpc_call_answered:
  assumes "is_headers f" "cat_request f" "frame_stream f = i" "flag_end_stream e" "frame_stream e = i"
    and "filter (\<lambda>ev. event_stream ev = i \<and> effective ev) (concat rounds) = call_events f e hs chunks"
  shows "\<exists>sb. filter (\<lambda>sb. sub_stream sb = i) (submissions (grpc_run m methods rounds new_grpc_session)) = [sb]
    \<and> sub_headers sb = [('':status'', ''200''), (''content-type'', ''application/grpc'')]
    \<and> (case unary_reply m methods (header_strings hs) (concat chunks) of (body, status, trailing) \<Rightarrow>
        response_bytes (sub_state sb) = body \<and> response_offset (sub_state sb) = 0
        \<and> response_trailers (sub_state sb) = trailers_of status trailing)"
proof -
  let ?rounds = "map (filter effective) (map (filter (\<lambda>e. event_stream e = i)) rounds)"
  have "concat ?rounds = filter (\<lambda>ev. event_stream ev = i \<and> effective ev) (concat rounds)"
    by (induction rounds) (simp_all add: conj_commute)
  with assms(6) have "concat ?rounds = call_events f e hs chunks" by simp
  from run_alone [OF assms(1-5) this, of m methods] obtain st where
    st: "submissions (grpc_run m methods ?rounds new_grpc_session) = [submission_of m methods i (st\<lparr>end_stream := True\<rparr>)]"
      "collected m hs chunks st" by blast
  obtain body status trailing where u: "unary_reply m methods (header_strings hs) (concat chunks) = (body, status, trailing)"
    by (rule prod_cases3)
  have "filter (\<lambda>sb. sub_stream sb = i) (submissions (grpc_run m methods rounds new_grpc_session))
      = submissions (grpc_run m methods ?rounds new_grpc_session)"
    using seen_by_run [OF seen_by_new, of i m methods rounds] unfolding run_effective by (simp add: seen_by_def)
  with st answered_collected [OF st(2) u] show ?thesis
    by (simp add: u submission_of_def kContentType_def)
qed

text \<open>An echo service with one method, called over two reads with a ping of another stream in between.\<close>

text \<open>With the largest possible limit, meant as none, no message is accepted at all.\<close>

lemma message_limit_wraps: "unary_reply 0xFFFFFFFFFFFFFFFF methods hs (envelope p) = ([], grpc_status_error SResourceExhausted ''message too large'', [])"
proof -
  have "message_limit 0xFFFFFFFFFFFFFFFF = 4" by (simp add: message_limit_def kGrpcEnvelopeSize_def)
  moreover have "4 < length (envelope p)" by (simp add: envelope_def length_u32)
  ultimately show ?thesis by (simp add: unary_reply_def Let_def)
qed

definition echo_methods :: method_map where
  "echo_methods p = (if p = ''/t.Echo/Say'' then Some (\<lambda>r. Responded \<lparr>us_payload = ur_payload r, us_trailing = []\<rparr>) else None)"

definition echo_headers :: "(octets \<times> octets) list" where
  "echo_headers = map (\<lambda>(n, v). (map octet_of_char n, map octet_of_char v))
     [('':method'', ''POST''), ('':path'', ''/t.Echo/Say''), (''Content-Type'', ''application/grpc+proto''), (''k'', ''v'')]"

definition echo_begin :: h2_frame where
  "echo_begin = \<lparr>is_headers = True, cat_request = True, flag_end_stream = False, frame_stream = 1\<rparr>"

definition echo_end :: h2_frame where
  "echo_end = \<lparr>is_headers = False, cat_request = False, flag_end_stream = True, frame_stream = 1\<rparr>"

definition echo_rounds :: "h2_event list list" where
  "echo_rounds = [BeginHeaders echo_begin # map (\<lambda>(n, v). Header echo_begin n v) echo_headers,
     [DataChunk 3 [9], DataChunk 1 [0, 0, 0], DataChunk 1 [0, 1, 42], FrameRecv echo_end]]"

lemma echo_names: "to_lower_ascii '':method'' = '':method''" "to_lower_ascii '':path'' = '':path''"
  "to_lower_ascii ''Content-Type'' = ''content-type''" "to_lower_ascii ''k'' = ''k''"
  by code_simp+

lemma echo_header_strings:
  "header_strings echo_headers = [('':method'', ''POST''), ('':path'', ''/t.Echo/Say''), (''content-type'', ''application/grpc+proto''), (''k'', ''v'')]"
  by (simp add: header_strings_def echo_headers_def echo_names)

lemma echo_header_values:
  "last_header '':method'' (header_strings echo_headers) = ''POST''"
  "last_header '':path'' (header_strings echo_headers) = ''/t.Echo/Say''"
  "starts_with (last_header ''content-type'' (header_strings echo_headers)) ''application/grpc''"
  by (simp_all add: echo_header_strings last_header_def starts_with_iff)

lemma echo_message: "decode_unary_message [0, 0, 0, 0, 1, 42] 100 = Inr [42]" "envelope [42] = [0, 0, 0, 0, 1, 42]"
  by code_simp+

lemma echo_limit: "message_limit 100 = 105"
  by (simp add: message_limit_def kGrpcEnvelopeSize_def)

lemma echo_reply:
  "unary_reply 100 echo_methods (header_strings echo_headers) (concat [[0, 0, 0], [0, 1, 42]])
     = ([0, 0, 0, 0, 1, 42], grpc_ok, [])"
  by (simp add: unary_reply_def echo_header_values echo_message echo_limit echo_methods_def)

theorem grpc_call_answered_witness:
  "\<exists>sb. filter (\<lambda>sb. sub_stream sb = 1) (submissions (grpc_run 100 echo_methods echo_rounds new_grpc_session)) = [sb]
     \<and> response_bytes (sub_state sb) = [0, 0, 0, 0, 1, 42] \<and> response_trailers (sub_state sb) = [(''grpc-status'', ''0'')]"
proof -
  have t: "trailers_of grpc_ok [] = [(''grpc-status'', ''0'')]" by code_simp
  have "filter (\<lambda>ev. event_stream ev = 1 \<and> effective ev) (concat echo_rounds)
      = call_events echo_begin echo_end echo_headers [[0, 0, 0], [0, 1, 42]]"
    by (simp add: echo_rounds_def call_events_def echo_begin_def echo_end_def echo_headers_def)
  from grpc_call_answered [OF _ _ _ _ _ this, of 100 echo_methods] show ?thesis
    unfolding echo_reply by (auto simp: echo_begin_def echo_end_def t)
qed

subsection \<open>Sending the body and the trailers\<close>

lemma on_data_read_step:
  assumes "response_offset st \<le> length (response_bytes st)" "on_data_read len st = (c, st')"
  shows "dc_bytes c @ drop (response_offset st') (response_bytes st) = drop (response_offset st) (response_bytes st)"
    and "response_bytes st' = response_bytes st" "response_trailers st' = response_trailers st"
    and "response_offset st' = min (response_offset st + len) (length (response_bytes st))"
    and "dc_eof c \<longleftrightarrow> response_offset st' = length (response_bytes st)"
    and "dc_trailer c = (if dc_eof c \<and> \<not> trailers_submitted st then Some (response_trailers st) else None)"
    and "\<not> dc_eof c \<Longrightarrow> trailers_submitted st' = trailers_submitted st"
proof -
  have d: "take k (drop a xs) @ drop (a + k) xs = drop a xs" for k a :: nat and xs :: octets
    by (metis append_take_drop_id drop_drop add.commute)
  show "dc_bytes c @ drop (response_offset st') (response_bytes st) = drop (response_offset st) (response_bytes st)"
    using assms(2) d [of _ "response_offset st" "response_bytes st"]
    by (auto simp: on_data_read_def Let_def split: if_splits)
qed (use assms in \<open>auto simp: on_data_read_def Let_def split: if_splits\<close>)

lemma pull_data_spec:
  assumes "list_all (\<lambda>n. 0 < n) lens" "response_offset st \<le> length (response_bytes st)"
    and "length (response_bytes st) - response_offset st < length lens" "\<not> trailers_submitted st"
  shows "concat (map dc_bytes (pull_data lens st)) = drop (response_offset st) (response_bytes st)
    \<and> (\<exists>front c. pull_data lens st = front @ [c] \<and> dc_eof c \<and> dc_no_end_stream c \<and> dc_trailer c = Some (response_trailers st)
        \<and> list_all (\<lambda>c. \<not> dc_eof c \<and> dc_trailer c = None) front)"
  using assms
proof (induction lens arbitrary: st)
  case (Cons len lens)
  obtain c st' where r: "on_data_read len st = (c, st')" by fastforce
  note step = on_data_read_step [OF Cons.prems(2) r]
  show ?case
  proof (cases "dc_eof c")
    case True
    then have "dc_no_end_stream c" using r by (auto simp: on_data_read_def Let_def split: if_splits)
    moreover have "dc_bytes c = drop (response_offset st) (response_bytes st)"
      using step(1,5) True by simp
    moreover have "dc_trailer c = Some (response_trailers st)" using step(6) True Cons.prems(4) by simp
    moreover have "pull_data (len # lens) st = [] @ [c]" using True r by simp
    ultimately show ?thesis using True by (intro conjI exI [of _ "[]"] exI [of _ c]) simp_all
  next
    case False
    have IH: "concat (map dc_bytes (pull_data lens st')) = drop (response_offset st') (response_bytes st')
      \<and> (\<exists>front c. pull_data lens st' = front @ [c] \<and> dc_eof c \<and> dc_no_end_stream c \<and> dc_trailer c = Some (response_trailers st')
        \<and> list_all (\<lambda>c. \<not> dc_eof c \<and> dc_trailer c = None) front)"
    proof (intro Cons.IH)
      show "response_offset st' \<le> length (response_bytes st')" using step(2,4) by simp
      show "\<not> trailers_submitted st'" using step(7) False Cons.prems(4) by simp
      show "list_all (\<lambda>n. 0 < n) lens" using Cons.prems(1) by simp
      show "length (response_bytes st') - response_offset st' < length lens"
        using step(2,4,5) False Cons.prems(1,3) by (auto simp: min_def split: if_splits)
    qed
    then obtain front c' where fr: "pull_data lens st' = front @ [c']" "dc_eof c'" "dc_no_end_stream c'"
      "dc_trailer c' = Some (response_trailers st')" "list_all (\<lambda>c. \<not> dc_eof c \<and> dc_trailer c = None) front" by blast
    have "pull_data (len # lens) st = (c # front) @ [c']" using r False fr(1) by simp
    moreover have "list_all (\<lambda>c. \<not> dc_eof c \<and> dc_trailer c = None) (c # front)" using fr(5) False step(6) by simp
    moreover have "concat (map dc_bytes (pull_data (len # lens) st)) = drop (response_offset st) (response_bytes st)"
      using IH r False step(1,2) by simp
    ultimately show ?thesis using fr(2-4) step(3) by (intro conjI exI [of _ "c # front"] exI [of _ c']) simp_all
  qed
qed simp

text \<open>
  Claim C24. Whatever buffer sizes nghttp2 asks with, the data source delivers the bytes of the response
  completely and in order, submits the trailers exactly once, with the last piece, and marks that
  piece as the end of the data but not of the stream.
\<close>

theorem grpc_body_then_trailers:
  assumes "list_all (\<lambda>n. 0 < n) lens" "length (response_bytes st) < length lens"
    and "response_offset st = 0" "\<not> trailers_submitted st"
  shows "concat (map dc_bytes (pull_data lens st)) = response_bytes st
    \<and> (\<exists>front c. pull_data lens st = front @ [c] \<and> dc_eof c \<and> dc_no_end_stream c \<and> dc_trailer c = Some (response_trailers st)
        \<and> list_all (\<lambda>c. \<not> dc_eof c \<and> dc_trailer c = None) front)"
  using pull_data_spec [of lens st] assms by simp

theorem grpc_body_then_trailers_witness:
  "concat (map dc_bytes (pull_data [2, 2, 1, 1] ((new_stream 1)\<lparr>response_bytes := [1, 2, 3]\<rparr>))) = [1, 2, 3]"
  using grpc_body_then_trailers [of "[2, 2, 1, 1]" "(new_stream 1)\<lparr>response_bytes := [1, 2, 3]\<rparr>"]
  by (simp add: new_stream_def)

subsection \<open>Trailers of every response\<close>

lemma sanitized: "CHR 0x0D \<notin> set (sanitize_grpc_message m)" "CHR 0x0A \<notin> set (sanitize_grpc_message m)"
  by (auto simp: sanitize_grpc_message_def split: if_splits)

definition good_trailers :: "grpc_metadata list \<Rightarrow> bool" where
  "good_trailers ts \<longleftrightarrow> length (filter (\<lambda>(n, v). n = ''grpc-status'') ts) = 1
     \<and> length (filter (\<lambda>(n, v). n = ''grpc-message'') ts) \<le> 1
     \<and> list_all (\<lambda>(n, v). n \<noteq> ''grpc-message'' \<or> CHR 0x0D \<notin> set v \<and> CHR 0x0A \<notin> set v) ts"

lemma trailers_good:
  assumes "\<not> (\<exists>(n, v) \<in> set trailing. is_reserved_trailer (to_lower_ascii n))"
  shows "good_trailers (trailers_of status trailing)"
proof -
  have "filter (\<lambda>(n, v). n = ''grpc-status'') (map (\<lambda>(n, v). (to_lower_ascii n, v)) trailing) = []"
    "filter (\<lambda>(n, v). n = ''grpc-message'') (map (\<lambda>(n, v). (to_lower_ascii n, v)) trailing) = []"
    "list_all (\<lambda>(n, v). n \<noteq> ''grpc-message'') (map (\<lambda>(n, v). (to_lower_ascii n, v)) trailing)"
    using assms by (auto simp: filter_empty_conv list_all_iff is_reserved_trailer_def)
  then show ?thesis using sanitized
    by (auto simp: good_trailers_def trailers_of_def Let_def list_all_iff)
qed

lemma answer_not_reserved:
  assumes "stream_answer m methods st = (st', status, trailing)"
  shows "\<not> (\<exists>(n, v) \<in> set trailing. is_reserved_trailer (to_lower_ascii n))"
  using assms
  by (auto simp: stream_answer_def status_answer_def outcome_answer_def
      split: option.splits if_splits sum.splits handler_outcome.splits)

lemma answered_good: "good_trailers (response_trailers (answered m methods st))"
  using trailers_good answer_not_reserved by (auto simp: answered_def split: prod.split)

definition subs_ok :: "grpc_session \<Rightarrow> bool" where
  "subs_ok s \<longleftrightarrow> ids_ok s \<and> list_all (\<lambda>sb. good_trailers (response_trailers (sub_state sb))) (submissions s)"

lemma subs_ok_process: "subs_ok s \<Longrightarrow> subs_ok (process_stream m methods i s)"
  using process_stream_ids [of s m methods i]
  by (auto simp: subs_ok_def process_stream_eq submission_of_def answered_good split: option.splits if_splits)

lemma subs_ok_list: "subs_ok s \<Longrightarrow> subs_ok (process_list m methods rs s)"
proof (induction rs arbitrary: s)
  case (Cons r rs)
  have "subs_ok (s\<lparr>ready_streams := rs\<rparr>)" using Cons.prems by (simp add: subs_ok_def ids_ok_def)
  from Cons.IH [OF subs_ok_process [OF this]] show ?case by simp
qed simp

lemma submissions_event [simp]: "submissions (on_event m ev s) = submissions s"
  by (cases ev) (simp_all add: event_defs split: option.split)

lemma subs_ok_event: "subs_ok s \<Longrightarrow> subs_ok (on_event m ev s)"
  using on_event_ids by (simp add: subs_ok_def)

lemma subs_ok_run: "subs_ok s \<Longrightarrow> subs_ok (grpc_run m methods rounds s)"
proof (induction rounds arbitrary: s)
  case (Cons evs rounds)
  have "subs_ok (fold (on_event m) evs s)" using Cons.prems
    by (induction evs arbitrary: s) (simp_all add: subs_ok_event)
  then show ?case by (simp add: process_ready_streams_def Cons.IH subs_ok_list)
qed simp

text \<open>
  Every response the session ever submits carries exactly one \<^verbatim>\<open>grpc-status\<close> trailer, at most one
  \<^verbatim>\<open>grpc-message\<close>, and no line break in it, whatever the handlers return or throw.
\<close>

theorem grpc_trailers_well_formed:
  "list_all (\<lambda>sb. good_trailers (response_trailers (sub_state sb))) (submissions (grpc_run m methods rounds new_grpc_session))"
  using subs_ok_run [of new_grpc_session m methods rounds]
  by (simp add: subs_ok_def ids_ok_def new_grpc_session_def)
end
