(* ===== verification/Executor.thy ===== *)
theory Executor
  imports Errors
begin

text \<open>
  The executor of \<^verbatim>\<open>src/net/asio_executor.cpp\<close>: \<^verbatim>\<open>listen\<close>, \<^verbatim>\<open>run\<close> and \<^verbatim>\<open>stop\<close> over the atomic state, and the
  I/O context they share, as a step relation. Any number of threads may call \<^verbatim>\<open>run\<close>; each call is a
  program counter, and each of its steps one access to the shared state. asio is modelled by what
  the code relies on: a worker leaves \<^verbatim>\<open>io_context::run\<close> when the context is stopped or has no work
  left, and running out of work stops the context; it can do neither while it is inside a handler.
  Sockets are open or closed acceptors, a connection handler is a unit of work that a worker enters and
  leaves and that may or may not finish, and the drain timer is a thread that is armed, fired or told to end.
\<close>

datatype exec_phase = Idle | Configured | Running | Draining | Stopped

record executor_config =
  thread_count :: nat
  cpu_pool_threads :: nat
  drain_timeout :: int

text \<open>\<^verbatim>\<open>make_executor\<close> resolves a thread count of 0 to the number of cores, at least one.\<close>

definition make_executor_config :: "nat \<Rightarrow> executor_config \<Rightarrow> executor_config" where
  "make_executor_config hardware_concurrency cfg =
     (if thread_count cfg = 0 then cfg\<lparr>thread_count := max 1 hardware_concurrency\<rparr> else cfg)"

text \<open>The pool that \<^verbatim>\<open>tl_post_to_cpu\<close> is bound to in a worker.\<close>

datatype pool = IoPool | CpuPool

definition cpu_pool_of :: "executor_config \<Rightarrow> pool" where
  "cpu_pool_of cfg = (if cpu_pool_threads cfg > 0 then CpuPool else IoPool)"

datatype drain_timer = NoTimer | TimerArmed | TimerFired

datatype run_result = RunOk | RunFailed ExecutorError

datatype run_pc =
    RunUncalled
  | RunLoaded exec_phase
  | RunGuarded exec_phase
  | RunSpawning nat
  | RunJoining
  | RunSignal
  | RunReturned run_result

datatype stop_pc = StopNone | StopPost | StopGuard | StopTimer | StopDone

record executor =
  ex_config :: executor_config
  ex_state :: exec_phase
  work_guard :: bool
  acceptors :: "bool list"
  close_posted :: bool
  spawned :: bool
  in_flight :: nat
  busy :: nat
  io_stopped :: bool
  threads :: nat
  next_conn_id :: nat
  timer :: drain_timer
  runner :: "nat \<Rightarrow> run_pc"
  stopper :: stop_pc

definition new_executor :: "executor_config \<Rightarrow> executor" where
  "new_executor cfg = \<lparr>ex_config = cfg, ex_state = Idle, work_guard = False, acceptors = [],
     close_posted = False, spawned = False, in_flight = 0, busy = 0, io_stopped = False, threads = 0,
     next_conn_id = 0, timer = NoTimer, runner = (\<lambda>_. RunUncalled), stopper = StopNone\<rparr>"

subsection \<open>\<^verbatim>\<open>listen\<close>\<close>

text \<open>What opening, binding and listening on the socket ended with.\<close>

datatype bind_outcome = Bound | AddressInUse | AccessDenied | OtherFailure

definition exec_listen :: "bind_outcome \<Rightarrow> executor \<Rightarrow> (ExecutorError + unit) \<times> executor" where
  "exec_listen outcome e =
     (if ex_state e \<noteq> Idle \<and> ex_state e \<noteq> Configured then (Inl AlreadyRunning, e)
      else case outcome of
        Bound \<Rightarrow> (Inr (), e\<lparr>acceptors := acceptors e @ [True],
                    ex_state := (if ex_state e = Idle then Configured else ex_state e)\<rparr>)
      | AddressInUse \<Rightarrow> (Inl BindFailed, e)
      | AccessDenied \<Rightarrow> (Inl BindFailed, e)
      | OtherFailure \<Rightarrow> (Inl ListenFailed, e))"

subsection \<open>\<^verbatim>\<open>run\<close>\<close>

definition set_runner :: "nat \<Rightarrow> run_pc \<Rightarrow> executor \<Rightarrow> executor" where
  "set_runner r pc e = e\<lparr>runner := (runner e)(r := pc)\<rparr>"

text \<open>The first load of the state.\<close>

definition run_load :: "nat \<Rightarrow> executor \<Rightarrow> executor" where
  "run_load r e =
     (if ex_state e = Draining \<or> ex_state e = Stopped then set_runner r (RunReturned RunOk) (e\<lparr>ex_state := Stopped\<rparr>)
      else if ex_state e \<noteq> Configured \<and> ex_state e \<noteq> Idle then set_runner r (RunReturned (RunFailed AlreadyRunning)) e
      else set_runner r (RunLoaded (ex_state e)) e)"

definition run_guard :: "nat \<Rightarrow> exec_phase \<Rightarrow> executor \<Rightarrow> executor" where
  "run_guard r current e = set_runner r (RunGuarded current) (e\<lparr>work_guard := True\<rparr>)"

text \<open>The compare-and-exchange, and the branch taken when it fails.\<close>

definition run_exchange :: "nat \<Rightarrow> exec_phase \<Rightarrow> executor \<Rightarrow> executor" where
  "run_exchange r current e =
     (if ex_state e = current then set_runner r (RunSpawning 0) (e\<lparr>ex_state := Running\<rparr>)
      else if ex_state e = Draining \<or> ex_state e = Stopped
        then set_runner r (RunReturned RunOk) (e\<lparr>work_guard := False, ex_state := Stopped\<rparr>)
      else set_runner r (RunReturned (RunFailed AlreadyRunning)) (e\<lparr>work_guard := False\<rparr>))"

text \<open>One more worker thread, or, when all run, the accept loops.\<close>

definition run_spawn :: "nat \<Rightarrow> nat \<Rightarrow> executor \<Rightarrow> executor" where
  "run_spawn r n e =
     (if n < thread_count (ex_config e) then set_runner r (RunSpawning (n + 1)) (e\<lparr>threads := threads e + 1\<rparr>)
      else set_runner r RunJoining (e\<lparr>spawned := True\<rparr>))"

text \<open>The end of \<^verbatim>\<open>run\<close>: the drain thread is told to end and joined, if there is one.\<close>

definition run_finish :: "nat \<Rightarrow> executor \<Rightarrow> executor" where
  "run_finish r e = set_runner r (RunReturned RunOk) (e\<lparr>timer := NoTimer, ex_state := Stopped\<rparr>)"

subsection \<open>\<^verbatim>\<open>stop\<close>\<close>

definition close_all :: "executor \<Rightarrow> executor" where
  "close_all e = e\<lparr>acceptors := map (\<lambda>_. False) (acceptors e)\<rparr>"

text \<open>The two exchanges at the start; the winner of the first goes on with the steps below.\<close>

definition stop_exchange :: "executor \<Rightarrow> executor" where
  "stop_exchange e =
     (if ex_state e = Running then e\<lparr>ex_state := Draining, stopper := StopPost\<rparr>
      else if ex_state e = Configured then (close_all (e\<lparr>ex_state := Stopped\<rparr>))\<lparr>io_stopped := True\<rparr>
      else e)"

text \<open>
  The destructor: stop the context, join the workers, which leave it when no handler holds them, and end
  the drain thread. The work guard goes with the other members.
\<close>

definition exec_destroy :: "executor \<Rightarrow> executor" where
  "exec_destroy e = e\<lparr>io_stopped := True, threads := 0, timer := NoTimer, work_guard := False\<rparr>"

subsection \<open>The shared I/O context\<close>

definition has_work :: "executor \<Rightarrow> bool" where
  "has_work e \<longleftrightarrow> work_guard e \<or> close_posted e \<or> (spawned e \<and> True \<in> set (acceptors e)) \<or> in_flight e > 0"

text \<open>
  Steps of the executor once it was told to do something: they need nothing from outside. \<open>busy\<close> counts the
  workers that are inside a handler, so what the context does itself needs a worker that is not.
\<close>

inductive internal_step :: "executor \<Rightarrow> executor \<Rightarrow> bool" where
  int_guard: "runner e r = RunLoaded c \<Longrightarrow> internal_step e (run_guard r c e)"
| int_exchange: "runner e r = RunGuarded c \<Longrightarrow> internal_step e (run_exchange r c e)"
| int_spawn: "runner e r = RunSpawning n \<Longrightarrow> internal_step e (run_spawn r n e)"
| int_join: "runner e r = RunJoining \<Longrightarrow> threads e = 0 \<Longrightarrow> internal_step e (set_runner r RunSignal e)"
| int_finish: "runner e r = RunSignal \<Longrightarrow> internal_step e (run_finish r e)"
| int_post: "stopper e = StopPost \<Longrightarrow> internal_step e (e\<lparr>close_posted := True, stopper := StopGuard\<rparr>)"
| int_unguard: "stopper e = StopGuard \<Longrightarrow> internal_step e (e\<lparr>work_guard := False, stopper := StopTimer\<rparr>)"
| int_arm: "stopper e = StopTimer \<Longrightarrow> internal_step e (e\<lparr>timer := TimerArmed, stopper := StopDone\<rparr>)"
| int_close: "close_posted e \<Longrightarrow> busy e < threads e \<Longrightarrow> \<not> io_stopped e \<Longrightarrow>
    internal_step e ((close_all e)\<lparr>close_posted := False\<rparr>)"
| int_leave: "busy e < threads e \<Longrightarrow> io_stopped e \<or> \<not> has_work e \<Longrightarrow>
    internal_step e (e\<lparr>threads := threads e - 1, io_stopped := True\<rparr>)"
| int_timeout: "timer e = TimerArmed \<Longrightarrow> internal_step e (e\<lparr>timer := TimerFired, io_stopped := True\<rparr>)"

text \<open>
  Steps from outside: calls, connections that an open acceptor accepts, and handlers. A worker enters a
  handler only while the context is not stopped; the handler's code decides when the worker comes back,
  with the handler suspended or at its end, and a stopped context does not change that.
\<close>

inductive external_step :: "executor \<Rightarrow> executor \<Rightarrow> bool" where
  ext_listen: "external_step e (snd (exec_listen outcome e))"
| ext_run: "runner e r = RunUncalled \<Longrightarrow> external_step e (run_load r e)"
| ext_stop: "external_step e (stop_exchange e)"
| ext_accept: "spawned e \<Longrightarrow> True \<in> set (acceptors e) \<Longrightarrow> busy e < threads e \<Longrightarrow> \<not> io_stopped e \<Longrightarrow>
    external_step e (e\<lparr>in_flight := in_flight e + 1, next_conn_id := next_conn_id e + 1\<rparr>)"
| ext_enter: "busy e < threads e \<Longrightarrow> busy e < in_flight e \<Longrightarrow> \<not> io_stopped e \<Longrightarrow> external_step e (e\<lparr>busy := busy e + 1\<rparr>)"
| ext_suspend: "busy e > 0 \<Longrightarrow> external_step e (e\<lparr>busy := busy e - 1\<rparr>)"
| ext_end: "busy e > 0 \<Longrightarrow> external_step e (e\<lparr>busy := busy e - 1, in_flight := in_flight e - 1\<rparr>)"

inductive exec_reach :: "executor_config \<Rightarrow> executor \<Rightarrow> bool" for cfg where
  reach_new: "exec_reach cfg (new_executor cfg)"
| reach_internal: "exec_reach cfg e \<Longrightarrow> internal_step e e' \<Longrightarrow> exec_reach cfg e'"
| reach_external: "exec_reach cfg e \<Longrightarrow> external_step e e' \<Longrightarrow> exec_reach cfg e'"

text \<open>A runner that won the exchange and has not returned.\<close>

fun owner_pc :: "run_pc \<Rightarrow> bool" where
  "owner_pc (RunSpawning n) = True"
| "owner_pc RunJoining = True"
| "owner_pc RunSignal = True"
| "owner_pc pc = False"
subsection \<open>One owner\<close>

definition owners :: "executor \<Rightarrow> nat set" where
  "owners e = {r. owner_pc (runner e r)}"

definition called :: "executor \<Rightarrow> nat set" where
  "called e = {r. runner e r \<noteq> RunUncalled}"

definition early :: "exec_phase \<Rightarrow> bool" where
  "early p \<longleftrightarrow> p = Idle \<or> p = Configured"

definition late :: "exec_phase \<Rightarrow> bool" where
  "late p \<longleftrightarrow> p = Draining \<or> p = Stopped"

fun awaited_ok :: "run_pc \<Rightarrow> bool" where
  "awaited_ok (RunLoaded c) = early c"
| "awaited_ok (RunGuarded c) = early c"
| "awaited_ok pc = True"

definition runners_inv :: "executor \<Rightarrow> bool" where
  "runners_inv e \<longleftrightarrow> busy e \<le> threads e \<and> finite (called e) \<and> (\<forall>r. awaited_ok (runner e r)) \<and> (\<exists>r. owners e \<subseteq> {r})
     \<and> (threads e > 0 \<longrightarrow> owners e \<noteq> {} \<and> RunSignal \<notin> runner e ` owners e)"

definition phases_inv :: "executor \<Rightarrow> bool" where
  "phases_inv e \<longleftrightarrow>
     (early (ex_state e) \<longrightarrow> owners e = {})
     \<and> (late (ex_state e) \<longrightarrow> stopper e = StopNone \<longrightarrow> owners e = {})
     \<and> (ex_state e = Running \<or> ex_state e = Draining \<longrightarrow> owners e \<noteq> {})
     \<and> (stopper e \<noteq> StopNone \<longrightarrow> late (ex_state e))
     \<and> (timer e = TimerFired \<longrightarrow> io_stopped e)
     \<and> (stopper e = StopDone \<longrightarrow> timer e = NoTimer \<longrightarrow> owners e = {})"

definition exec_inv :: "executor_config \<Rightarrow> executor \<Rightarrow> bool" where
  "exec_inv cfg e \<longleftrightarrow> ex_config e = cfg \<and> runners_inv e \<and> phases_inv e"

lemma set_runner_fields [simp]:
  "ex_config (set_runner r pc e) = ex_config e" "ex_state (set_runner r pc e) = ex_state e"
  "stopper (set_runner r pc e) = stopper e" "threads (set_runner r pc e) = threads e"
  "timer (set_runner r pc e) = timer e" "io_stopped (set_runner r pc e) = io_stopped e"
  "close_posted (set_runner r pc e) = close_posted e" "in_flight (set_runner r pc e) = in_flight e"
  "busy (set_runner r pc e) = busy e"
  "runner (set_runner r pc e) = (runner e)(r := pc)"
  by (simp_all add: set_runner_def)

lemma owners_set: "owners (set_runner r pc e) = (if owner_pc pc then insert r (owners e) else owners e - {r})"
  by (auto simp: owners_def)

lemma called_set: "finite (called e) \<Longrightarrow> finite (called (set_runner r pc e))"
  by (rule finite_subset [of _ "insert r (called e)"]) (auto simp: called_def split: if_splits)

text \<open>A runner that is no owner and does not become one changes nothing that matters.\<close>

lemma set_bystander:
  assumes "\<not> owner_pc (runner e r)" "\<not> owner_pc pc"
  shows "owners (set_runner r pc e) = owners e" "runner (set_runner r pc e) ` owners e = runner e ` owners e"
  using assms by (auto simp: owners_set) (auto simp: owners_def)

lemma inv_bystander:
  assumes "exec_inv cfg e" "\<not> owner_pc (runner e r)" "\<not> owner_pc pc" "awaited_ok pc"
  shows "exec_inv cfg (set_runner r pc e)"
  using assms called_set [of e r pc] set_bystander [OF assms(2,3)]
  unfolding exec_inv_def runners_inv_def phases_inv_def by (simp only: set_runner_fields fun_upd_apply) auto

text \<open>The owner moves on.\<close>

lemma inv_owner:
  assumes "exec_inv cfg e" "owner_pc (runner e r)" "owner_pc pc" "pc = RunSignal \<longrightarrow> threads e = 0"
  shows "exec_inv cfg (set_runner r pc e)"
proof -
  have r: "r \<in> owners e" using assms(2) by (simp add: owners_def)
  have o: "owners (set_runner r pc e) = owners e" using assms(3) r by (auto simp: owners_set)
  have one: "owners e = {r}" using assms(1) r by (auto simp: exec_inv_def runners_inv_def)
  have p: "awaited_ok pc" using assms(3) by (cases pc) simp_all
  have ph: "phases_inv e" "ex_config e = cfg" and "finite (called e)" and aw: "\<forall>q. awaited_ok (runner e q)"
    and b: "busy (set_runner r pc e) \<le> threads (set_runner r pc e)"
    using assms(1) by (simp_all add: exec_inv_def runners_inv_def)
  then have "finite (called (set_runner r pc e))" by (intro called_set)
  moreover have "\<forall>q. awaited_ok (runner (set_runner r pc e) q)" using aw p by simp
  moreover have "owners (set_runner r pc e) \<subseteq> {r}" using o one by simp
  moreover have "threads (set_runner r pc e) > 0 \<longrightarrow>
      owners (set_runner r pc e) \<noteq> {} \<and> RunSignal \<notin> runner (set_runner r pc e) ` owners (set_runner r pc e)"
    unfolding o one using assms(4) by auto
  ultimately have "runners_inv (set_runner r pc e)" using b unfolding runners_inv_def by blast
  moreover have "phases_inv (set_runner r pc e)"
    using ph(1) unfolding phases_inv_def o by simp
  ultimately show ?thesis using ph(2) by (simp add: exec_inv_def)
qed

text \<open>Changes that leave the runners alone.\<close>

lemma inv_fields:
  assumes "exec_inv cfg e" "runner e' = runner e" "ex_config e' = ex_config e"
    and "threads e' \<le> threads e \<or> (\<exists>r n. runner e r = RunSpawning n)" "phases_inv e'" "busy e' \<le> threads e'"
  shows "exec_inv cfg e'"
proof -
  have o: "owners e' = owners e" "called e' = called e" using assms(2) by (simp_all add: owners_def called_def)
  have r: "runners_inv e" "ex_config e = cfg" using assms(1) by (simp_all add: exec_inv_def)
  have "owners e \<noteq> {} \<and> RunSignal \<notin> runner e ` owners e" if t: "threads e' > 0"
  proof (cases "threads e > 0")
    case False
    with t assms(4) obtain r n where rn: "runner e r = RunSpawning n" by auto
    then have "r \<in> owners e" by (simp add: owners_def)
    with r(1) have "owners e = {r}" by (auto simp: runners_inv_def)
    with rn show ?thesis by simp
  qed (use r(1) in \<open>simp add: runners_inv_def\<close>)
  then have "runners_inv e'" using r(1) assms(6) unfolding runners_inv_def o assms(2) by blast
  with assms(3,5) r(2) show ?thesis by (simp add: exec_inv_def)
qed

lemma phases_same:
  assumes "phases_inv e" "runner e' = runner e" "ex_state e' = ex_state e" "stopper e' = stopper e"
    and "timer e' = timer e" "io_stopped e \<longrightarrow> io_stopped e'"
  shows "phases_inv e'"
proof -
  have "owners e' = owners e" using assms(2) by (simp add: owners_def)
  with assms show ?thesis unfolding phases_inv_def by simp
qed

lemma phases_stopper:
  assumes "phases_inv e" "runner e' = runner e" "ex_state e' = ex_state e" "stopper e \<noteq> StopNone"
    and "stopper e' \<noteq> StopNone" "stopper e' = StopDone \<longrightarrow> timer e' \<noteq> NoTimer"
    and "timer e' = TimerFired \<longrightarrow> io_stopped e'"
  shows "phases_inv e'"
proof -
  have "owners e' = owners e" using assms(2) by (simp add: owners_def)
  with assms show ?thesis unfolding phases_inv_def by simp
qed

lemma exec_inv_phases: "exec_inv cfg e \<Longrightarrow> phases_inv e"
  by (simp add: exec_inv_def)

lemma exec_inv_fired: "exec_inv cfg e \<Longrightarrow> timer e = TimerFired \<longrightarrow> io_stopped e"
  by (simp add: exec_inv_def phases_inv_def)

lemma exec_inv_busy [intro]: "exec_inv cfg e \<Longrightarrow> busy e \<le> threads e"
  by (simp add: exec_inv_def runners_inv_def)

lemma exec_inv_new: "exec_inv cfg (new_executor cfg)"
  by (simp add: exec_inv_def runners_inv_def phases_inv_def new_executor_def owners_def called_def late_def)

lemma exec_inv_early: "exec_inv cfg e \<Longrightarrow> runner e r = RunLoaded c \<or> runner e r = RunGuarded c \<Longrightarrow> early c"
  by (metis awaited_ok.simps(1,2) exec_inv_def runners_inv_def)

lemma inv_win:
  assumes "exec_inv cfg e" "runner e r = RunGuarded (ex_state e)"
  shows "exec_inv cfg (set_runner r (RunSpawning 0) (e\<lparr>ex_state := Running\<rparr>))"
proof -
  let ?e = "set_runner r (RunSpawning 0) (e\<lparr>ex_state := Running\<rparr>)"
  have "early (ex_state e)" using assms by (rule exec_inv_early [OF _ disjI2])
  then have no: "owners e = {}" "threads e = 0" "busy e = 0" "stopper e = StopNone" "timer e = TimerFired \<longrightarrow> io_stopped e"
    using assms(1) by (auto simp: exec_inv_def runners_inv_def phases_inv_def early_def late_def)
  have "owners (e\<lparr>ex_state := Running\<rparr>) = {}" using no(1) by (simp add: owners_def)
  then have o: "owners ?e = {r}" by (simp add: owners_set)
  have "finite (called (e\<lparr>ex_state := Running\<rparr>))" "\<forall>q. awaited_ok (runner e q)"
    using assms(1) by (simp_all add: exec_inv_def runners_inv_def called_def)
  then have "runners_inv ?e" using no(2,3) called_set unfolding runners_inv_def o by auto
  moreover have "phases_inv ?e" using no unfolding phases_inv_def o by (simp add: early_def late_def)
  ultimately show ?thesis using assms(1) by (simp add: exec_inv_def)
qed

lemma inv_late_store:
  assumes "exec_inv cfg e" "late (ex_state e)" "\<not> owner_pc (runner e r)"
  shows "exec_inv cfg (set_runner r (RunReturned RunOk) (e\<lparr>work_guard := g, ex_state := Stopped\<rparr>))"
proof (rule inv_bystander)
  have o: "owners (e\<lparr>work_guard := g, ex_state := Stopped\<rparr>) = owners e"
    "called (e\<lparr>work_guard := g, ex_state := Stopped\<rparr>) = called e" by (simp_all add: owners_def called_def)
  show "exec_inv cfg (e\<lparr>work_guard := g, ex_state := Stopped\<rparr>)"
    using assms(1,2) unfolding exec_inv_def runners_inv_def phases_inv_def o
    by (auto simp: late_def early_def)
qed (use assms(3) in simp_all)

lemma inv_finish:
  assumes "exec_inv cfg e" "runner e r = RunSignal"
  shows "exec_inv cfg (run_finish r e)"
proof -
  have r: "r \<in> owners e" using assms(2) by (simp add: owners_def)
  then have "RunSignal \<in> runner e ` owners e" using assms(2) by (metis imageI)
  moreover have "owners e = {r}" using assms(1) r by (auto simp: exec_inv_def runners_inv_def)
  ultimately have t: "threads e = 0" "busy e = 0" "owners (e\<lparr>timer := NoTimer, ex_state := Stopped\<rparr>) = {r}"
    using assms(1) by (auto simp: exec_inv_def runners_inv_def owners_def)
  from t(3) have o: "owners (run_finish r e) = {}" by (simp add: run_finish_def owners_set)
  have "finite (called (e\<lparr>timer := NoTimer, ex_state := Stopped\<rparr>))" "\<forall>q. awaited_ok (runner e q)"
    using assms(1) by (simp_all add: exec_inv_def runners_inv_def called_def)
  then have "finite (called (run_finish r e))" "\<forall>q. awaited_ok (runner (run_finish r e) q)"
    using called_set [of "e\<lparr>timer := NoTimer, ex_state := Stopped\<rparr>" r] by (simp_all add: run_finish_def)
  then have "runners_inv (run_finish r e)" using t unfolding runners_inv_def o by (simp add: run_finish_def)
  moreover have "phases_inv (run_finish r e)" unfolding phases_inv_def o by (simp add: run_finish_def early_def late_def)
  ultimately show ?thesis using assms(1) by (simp add: exec_inv_def run_finish_def)
qed

lemma internal_step_inv:
  assumes "internal_step e e'" "exec_inv cfg e"
  shows "exec_inv cfg e'"
  using assms(1)
proof cases
  case (int_guard r c)
  have "exec_inv cfg (e\<lparr>work_guard := True\<rparr>)"
    by (rule inv_fields [OF assms(2)])
      (use exec_inv_busy [OF assms(2)] in \<open>auto intro: phases_same [OF exec_inv_phases [OF assms(2)]]\<close>)
  moreover have "early c" using exec_inv_early [OF assms(2)] int_guard(2) by blast
  ultimately have "exec_inv cfg (set_runner r (RunGuarded c) (e\<lparr>work_guard := True\<rparr>))"
    by (intro inv_bystander) (simp_all add: int_guard(2))
  then show ?thesis using int_guard(1) by (simp add: run_guard_def)
next
  case (int_exchange r c)
  have w: "exec_inv cfg (e\<lparr>work_guard := False\<rparr>)"
    by (rule inv_fields [OF assms(2)])
      (use exec_inv_busy [OF assms(2)] in \<open>auto intro: phases_same [OF exec_inv_phases [OF assms(2)]]\<close>)
  have "exec_inv cfg (run_exchange r c e)"
  proof (cases "ex_state e = c")
    case True
    then show ?thesis using inv_win [OF assms(2)] int_exchange(2) by (simp add: run_exchange_def)
  next
    case False
    show ?thesis
    proof (cases "late (ex_state e)")
      case True
      with False inv_late_store [OF assms(2) True, of r False] int_exchange(2) show ?thesis
        by (simp add: run_exchange_def late_def)
    next
      case nl: False
      with False inv_bystander [OF w, of r "RunReturned (RunFailed AlreadyRunning)"] int_exchange(2) show ?thesis
        by (simp add: run_exchange_def late_def)
    qed
  qed
  then show ?thesis using int_exchange(1) by simp
next
  case (int_spawn r n)
  have "exec_inv cfg (e\<lparr>threads := threads e + 1\<rparr>)" "exec_inv cfg (e\<lparr>spawned := True\<rparr>)"
    by (rule inv_fields [OF assms(2)]; use int_spawn(2) exec_inv_busy [OF assms(2)] in \<open>auto intro: phases_same [OF exec_inv_phases [OF assms(2)]]\<close>)+
  then show ?thesis using int_spawn by (auto simp: run_spawn_def intro!: inv_owner)
next
  case (int_join r)
  then show ?thesis using assms(2) by (auto intro!: inv_owner)
next
  case (int_finish r)
  then show ?thesis using inv_finish [OF assms(2)] by simp
next
  case int_post
  have "phases_inv e'"
    by (rule phases_stopper [OF exec_inv_phases [OF assms(2)]]) (use exec_inv_fired [OF assms(2)] in \<open>simp_all add: int_post\<close>)
  then show ?thesis using exec_inv_busy [OF assms(2)] by (intro inv_fields [OF assms(2)]) (simp_all add: int_post)
next
  case int_unguard
  have "phases_inv e'"
    by (rule phases_stopper [OF exec_inv_phases [OF assms(2)]]) (use exec_inv_fired [OF assms(2)] in \<open>simp_all add: int_unguard\<close>)
  then show ?thesis using exec_inv_busy [OF assms(2)] by (intro inv_fields [OF assms(2)]) (simp_all add: int_unguard)
next
  case int_arm
  have "phases_inv e'"
    by (rule phases_stopper [OF exec_inv_phases [OF assms(2)]]) (use exec_inv_fired [OF assms(2)] in \<open>simp_all add: int_arm\<close>)
  then show ?thesis using exec_inv_busy [OF assms(2)] by (intro inv_fields [OF assms(2)]) (simp_all add: int_arm)
next
  case int_timeout
  have o: "owners e' = owners e" using int_timeout by (simp add: owners_def)
  have "phases_inv e'" using exec_inv_phases [OF assms(2)] int_timeout(1,2) unfolding phases_inv_def o by auto
  with int_timeout exec_inv_busy [OF assms(2)] show ?thesis by (intro inv_fields [OF assms(2)]) auto
next
  case int_close
  have "phases_inv e'" by (rule phases_same [OF exec_inv_phases [OF assms(2)]]) (simp_all add: int_close close_all_def)
  then show ?thesis using exec_inv_busy [OF assms(2)]
    by (intro inv_fields [OF assms(2)]) (simp_all add: int_close close_all_def)
next
  case int_leave
  have "phases_inv e'" by (rule phases_same [OF exec_inv_phases [OF assms(2)]]) (simp_all add: int_leave)
  then show ?thesis using int_leave(2) by (intro inv_fields [OF assms(2)]) (auto simp: int_leave(1))
qed

lemma external_step_inv:
  assumes "external_step e e'" "exec_inv cfg e"
  shows "exec_inv cfg e'"
  using assms(1)
proof cases
  case (ext_listen outcome)
  have o: "owners (e\<lparr>acceptors := a, ex_state := Configured\<rparr>) = owners e" for a by (simp add: owners_def)
  have "phases_inv (e\<lparr>acceptors := a, ex_state := Configured\<rparr>)" if "ex_state e = Idle \<or> ex_state e = Configured" for a
    using exec_inv_phases [OF assms(2)] that unfolding phases_inv_def o by (auto simp: early_def late_def)
  then have "exec_inv cfg (e\<lparr>acceptors := a, ex_state := Configured\<rparr>)" if "ex_state e = Idle \<or> ex_state e = Configured" for a
    using that exec_inv_busy [OF assms(2)] by (intro inv_fields [OF assms(2)]) auto
  moreover have "exec_inv cfg (snd (exec_listen outcome e)) \<or> (\<exists>a. snd (exec_listen outcome e) = e\<lparr>acceptors := a, ex_state := Configured\<rparr>
      \<and> (ex_state e = Idle \<or> ex_state e = Configured))"
    using assms(2) by (cases outcome) (auto simp: exec_listen_def)
  ultimately show ?thesis using ext_listen by auto
next
  case (ext_run r)
  show ?thesis
  proof (cases "late (ex_state e)")
    case True
    have "run_load r e = set_runner r (RunReturned RunOk) (e\<lparr>work_guard := work_guard e, ex_state := Stopped\<rparr>)"
      using True by (auto simp: run_load_def late_def)
    with inv_late_store [OF assms(2) True, of r "work_guard e"] ext_run show ?thesis by simp
  next
    case False
    with ext_run inv_bystander [OF assms(2), of r] show ?thesis
      by (auto simp: run_load_def late_def early_def)
  qed
next
  case ext_stop
  show ?thesis
  proof (cases "ex_state e = Running")
    case True
    have o: "owners (e\<lparr>ex_state := Draining, stopper := StopPost\<rparr>) = owners e" by (simp add: owners_def)
    have "phases_inv (e\<lparr>ex_state := Draining, stopper := StopPost\<rparr>)"
      using exec_inv_phases [OF assms(2)] True unfolding phases_inv_def o by (auto simp: early_def late_def)
    with True ext_stop show ?thesis by (simp add: stop_exchange_def) (rule inv_fields [OF assms(2)], use exec_inv_busy [OF assms(2)] in auto)
  next
    case False
    let ?s = "(close_all (e\<lparr>ex_state := Stopped\<rparr>))\<lparr>io_stopped := True\<rparr>"
    have o: "owners ?s = owners e" by (simp add: owners_def close_all_def)
    have "phases_inv ?s" if "ex_state e = Configured"
      using exec_inv_phases [OF assms(2)] that unfolding phases_inv_def o by (auto simp: early_def late_def close_all_def)
    then have "exec_inv cfg ?s" if "ex_state e = Configured"
      using that exec_inv_busy [OF assms(2)] by (intro inv_fields [OF assms(2)]) (auto simp: close_all_def)
    with False ext_stop assms(2) show ?thesis by (auto simp: stop_exchange_def)
  qed
next
  case ext_accept
  then show ?thesis using exec_inv_busy [OF assms(2)]
    by (intro inv_fields [OF assms(2)]) (auto intro: phases_same [OF exec_inv_phases [OF assms(2)]])
next
  case ext_enter
  then show ?thesis
    by (intro inv_fields [OF assms(2)]) (auto intro: phases_same [OF exec_inv_phases [OF assms(2)]])
next
  case ext_suspend
  then show ?thesis using exec_inv_busy [OF assms(2)]
    by (intro inv_fields [OF assms(2)]) (auto intro: phases_same [OF exec_inv_phases [OF assms(2)]])
next
  case ext_end
  then show ?thesis using exec_inv_busy [OF assms(2)]
    by (intro inv_fields [OF assms(2)]) (auto intro: phases_same [OF exec_inv_phases [OF assms(2)]])
qed

lemma exec_reach_inv: "exec_reach cfg e \<Longrightarrow> exec_inv cfg e"
  by (induction rule: exec_reach.induct) (auto intro: exec_inv_new internal_step_inv external_step_inv)
fun phase_rank :: "exec_phase \<Rightarrow> nat" where
  "phase_rank Idle = 0" | "phase_rank Configured = 1" | "phase_rank Running = 2"
| "phase_rank Draining = 3" | "phase_rank Stopped = 4"

lemma internal_rank:
  assumes "internal_step e e'" "exec_inv cfg e"
  shows "phase_rank (ex_state e) \<le> phase_rank (ex_state e')"
  using assms(1)
proof cases
  case (int_exchange r c)
  then have "early c" using exec_inv_early [OF assms(2)] by blast
  with int_exchange show ?thesis by (auto simp: run_exchange_def early_def)
qed (auto simp: run_guard_def run_spawn_def run_finish_def close_all_def intro: phase_rank.elims [of "ex_state e"])

lemma external_rank: "external_step e e' \<Longrightarrow> phase_rank (ex_state e) \<le> phase_rank (ex_state e')"
  by (erule external_step.cases; cases "ex_state e")
    (auto simp: exec_listen_def run_load_def stop_exchange_def close_all_def split: bind_outcome.split)

text \<open>
  Claim C36. However \<^verbatim>\<open>listen\<close>, any number of \<^verbatim>\<open>run\<close> calls, \<^verbatim>\<open>stop\<close>, the workers and the handlers interleave,
  at most one call of \<^verbatim>\<open>run\<close> ever drives the executor, none before the state says so, and no step takes
  the state of the executor backwards. Worker threads run only while it does: as long as there is a worker,
  one call of \<^verbatim>\<open>run\<close> is starting or joining them, so none outlives the call that started it.
\<close>

theorem executor_single_owner:
  assumes "exec_reach cfg e"
  shows "(\<exists>r. owners e \<subseteq> {r})
    \<and> (ex_state e = Idle \<or> ex_state e = Configured \<longrightarrow> owners e = {} \<and> threads e = 0)
    \<and> (threads e > 0 \<longrightarrow> (\<exists>r. owners e = {r} \<and> (runner e r = RunJoining \<or> (\<exists>n. runner e r = RunSpawning n))))
    \<and> busy e \<le> threads e
    \<and> (\<forall>e'. internal_step e e' \<or> external_step e e' \<longrightarrow> phase_rank (ex_state e) \<le> phase_rank (ex_state e'))"
proof -
  have i: "exec_inv cfg e" by (rule exec_reach_inv [OF assms])
  then have "ex_state e = Idle \<or> ex_state e = Configured \<longrightarrow> owners e = {} \<and> threads e = 0"
    by (auto simp: exec_inv_def runners_inv_def phases_inv_def early_def)
  moreover have "\<exists>r. owners e \<subseteq> {r}" "busy e \<le> threads e" using i by (simp_all add: exec_inv_def runners_inv_def)
  moreover have "\<exists>r. owners e = {r} \<and> (runner e r = RunJoining \<or> (\<exists>n. runner e r = RunSpawning n))" if "threads e > 0"
  proof -
    from that i obtain r where r: "owners e = {r}" "RunSignal \<notin> runner e ` owners e"
      by (auto simp: exec_inv_def runners_inv_def)
    then have "r \<in> owners e" by simp
    then have "owner_pc (runner e r)" by (simp add: owners_def)
    with r show ?thesis by (cases "runner e r") auto
  qed
  ultimately show ?thesis using internal_rank [OF _ i] external_rank by blast
qed

text \<open>A call of \<^verbatim>\<open>run\<close> up to its first worker, and the same up to the wait for it.\<close>

abbreviation (input) one_thread :: executor_config where
  "one_thread \<equiv> \<lparr>thread_count = 1, cpu_pool_threads = 0, drain_timeout = 30\<rparr>"

definition one_worker :: executor where
  "one_worker = run_spawn 5 0 (run_exchange 5 Configured (run_guard 5 Configured
     (run_load 5 (snd (exec_listen Bound (new_executor one_thread))))))"

lemma one_worker_eq:
  "one_worker = \<lparr>ex_config = one_thread, ex_state = Running, work_guard = True, acceptors = [True],
     close_posted = False, spawned = False, in_flight = 0, busy = 0, io_stopped = False, threads = 1,
     next_conn_id = 0, timer = NoTimer, runner = (\<lambda>_. RunUncalled)(5 := RunSpawning 1), stopper = StopNone\<rparr>"
  by (simp add: one_worker_def exec_listen_def new_executor_def run_load_def run_guard_def run_exchange_def
      run_spawn_def set_runner_def)

lemma one_worker_reach: "exec_reach one_thread one_worker"
proof -
  let ?e1 = "snd (exec_listen Bound (new_executor one_thread))"
  let ?e2 = "run_load 5 ?e1" let ?e3 = "run_guard 5 Configured ?e2" let ?e4 = "run_exchange 5 Configured ?e3"
  note defs = exec_listen_def new_executor_def run_load_def run_guard_def run_exchange_def set_runner_def
  have r: "runner ?e1 5 = RunUncalled" "runner ?e2 5 = RunLoaded Configured" "runner ?e3 5 = RunGuarded Configured"
    "runner ?e4 5 = RunSpawning 0" by (simp_all add: defs)
  show ?thesis unfolding one_worker_def
    by (intro reach_internal [OF _ int_spawn [OF r(4)]] reach_internal [OF _ int_exchange [OF r(3)]]
        reach_internal [OF _ int_guard [OF r(2)]] reach_external [OF _ ext_run [OF r(1)]] reach_external [OF _ ext_listen] reach_new)
qed

theorem executor_single_owner_witness:
  "threads one_worker = 1 \<and> (\<exists>r. owners one_worker = {r} \<and> runner one_worker r = RunSpawning 1) \<and> ex_state one_worker = Running"
proof -
  have "\<exists>r. owners one_worker = {r}" using executor_single_owner [OF one_worker_reach] by (auto simp: one_worker_eq)
  moreover have "5 \<in> owners one_worker" by (simp add: owners_def one_worker_eq)
  ultimately have "owners one_worker = {5}" by auto
  then show ?thesis by (simp add: one_worker_eq)
qed

subsection \<open>Shutdown ends\<close>

fun pc_weight :: "nat \<Rightarrow> run_pc \<Rightarrow> nat" where
  "pc_weight n (RunLoaded c) = 2 * n + 5"
| "pc_weight n (RunGuarded c) = 2 * n + 4"
| "pc_weight n (RunSpawning k) = 2 * (n - k) + 3"
| "pc_weight n RunJoining = 2"
| "pc_weight n RunSignal = 1"
| "pc_weight n (RunReturned res) = 0"
| "pc_weight n RunUncalled = 0"

fun stop_weight :: "stop_pc \<Rightarrow> nat" where
  "stop_weight StopPost = 5" | "stop_weight StopGuard = 3" | "stop_weight StopTimer = 2"
| "stop_weight StopDone = 0" | "stop_weight StopNone = 0"

definition runners_weight :: "executor \<Rightarrow> nat" where
  "runners_weight e = (\<Sum>r \<in> called e. pc_weight (thread_count (ex_config e)) (runner e r))"

definition exec_weight :: "executor \<Rightarrow> nat" where
  "exec_weight e = runners_weight e + stop_weight (stopper e) + (if close_posted e then 1 else 0)
     + threads e + (if timer e = TimerArmed then 1 else 0)"

lemma runners_weight_set:
  assumes "finite (called e)" "runner e r \<noteq> RunUncalled" "pc \<noteq> RunUncalled"
  shows "runners_weight (set_runner r pc e) + pc_weight (thread_count (ex_config e)) (runner e r)
    = runners_weight e + pc_weight (thread_count (ex_config e)) pc"
proof -
  have c: "called (set_runner r pc e) = called e" "r \<in> called e" using assms by (auto simp: called_def)
  have "runners_weight e = pc_weight (thread_count (ex_config e)) (runner e r)
      + (\<Sum>q \<in> called e - {r}. pc_weight (thread_count (ex_config e)) (runner e q))"
    unfolding runners_weight_def using assms(1) c(2) by (rule sum.remove)
  moreover have "runners_weight (set_runner r pc e) = pc_weight (thread_count (ex_config e)) pc
      + (\<Sum>q \<in> called e - {r}. pc_weight (thread_count (ex_config e)) (runner e q))"
    unfolding runners_weight_def c(1)
    using sum.remove [OF assms(1) c(2), of "\<lambda>q. pc_weight (thread_count (ex_config e)) (if q = r then pc else runner e q)"]
    by (simp cong: sum.cong_simp)
  ultimately show ?thesis by simp
qed

lemma runners_weight_same:
  "runner e' = runner e \<Longrightarrow> ex_config e' = ex_config e \<Longrightarrow> runners_weight e' = runners_weight e"
  by (simp add: runners_weight_def called_def)

lemma internal_weight:
  assumes "internal_step e e'" "exec_inv cfg e"
  shows "exec_weight e' < exec_weight e"
proof -
  have f: "finite (called e)" using assms(2) by (simp add: exec_inv_def runners_inv_def)
  have fin: "finite (called (e\<lparr>work_guard := g, ex_state := p, timer := t, threads := n, spawned := b\<rparr>))" for g p t n b
    using f by (simp add: called_def)
  have set: "runners_weight (set_runner r pc e2) + pc_weight (thread_count (ex_config e)) (runner e r)
      = runners_weight e + pc_weight (thread_count (ex_config e)) pc"
    if "runner e r \<noteq> RunUncalled" "pc \<noteq> RunUncalled" "runner e2 = runner e" "ex_config e2 = ex_config e" for r pc e2
    using runners_weight_set [of e2 r pc] runners_weight_same [of e2 e] f that by (simp add: called_def)
  show ?thesis
    using assms(1)
  proof cases
    case (int_guard r c)
    with set [of r "RunGuarded c" "e\<lparr>work_guard := True\<rparr>"] show ?thesis
      by (simp add: run_guard_def exec_weight_def)
  next
    case (int_exchange r c)
    have "runners_weight (run_exchange r c e) < runners_weight e"
      using set [of r "RunSpawning 0" "e\<lparr>ex_state := Running\<rparr>"] int_exchange(2)
        set [of r "RunReturned RunOk" "e\<lparr>work_guard := False, ex_state := Stopped\<rparr>"]
        set [of r "RunReturned (RunFailed AlreadyRunning)" "e\<lparr>work_guard := False\<rparr>"]
      by (simp add: run_exchange_def)
    moreover have "stopper (run_exchange r c e) = stopper e" "close_posted (run_exchange r c e) = close_posted e"
      "threads (run_exchange r c e) = threads e" "in_flight (run_exchange r c e) = in_flight e"
      "timer (run_exchange r c e) = timer e" by (simp_all add: run_exchange_def)
    ultimately show ?thesis by (simp add: exec_weight_def int_exchange(1))
  next
    case (int_spawn r n)
    with set [of r "RunSpawning (n + 1)" "e\<lparr>threads := threads e + 1\<rparr>"] set [of r RunJoining "e\<lparr>spawned := True\<rparr>"]
    show ?thesis by (auto simp: run_spawn_def exec_weight_def)
  next
    case (int_join r)
    with set [of r RunSignal e] show ?thesis by (simp add: exec_weight_def)
  next
    case (int_finish r)
    with set [of r "RunReturned RunOk" "e\<lparr>timer := NoTimer, ex_state := Stopped\<rparr>"] show ?thesis
      by (simp add: run_finish_def exec_weight_def)
  next
    case int_post
    then show ?thesis using runners_weight_same [of e' e] by (simp add: exec_weight_def)
  next
    case int_unguard
    then show ?thesis using runners_weight_same [of e' e] by (simp add: exec_weight_def)
  next
    case int_arm
    then show ?thesis using runners_weight_same [of e' e] by (simp add: exec_weight_def)
  next
    case int_close
    then show ?thesis using runners_weight_same [of e' e] by (simp add: exec_weight_def close_all_def)
  next
    case int_leave
    then show ?thesis using runners_weight_same [of e' e] by (simp add: exec_weight_def)
  next
    case int_timeout
    then show ?thesis using runners_weight_same [of e' e] by (simp add: exec_weight_def)
  qed
qed

text \<open>
  When nothing internal can happen any more after a stop and no worker is held by a handler, every call of
  \<^verbatim>\<open>run\<close> has returned.
\<close>

fun has_returned :: "run_pc \<Rightarrow> bool" where
  "has_returned RunUncalled = True"
| "has_returned (RunReturned res) = True"
| "has_returned pc = False"

lemma quiescent_returned:
  assumes "exec_inv cfg e" "late (ex_state e)" "\<And>e'. \<not> internal_step e e'" "busy e = 0"
  shows "has_returned (runner e r) \<and> ex_state e = Stopped"
proof -
  note stuck = assms(3)
  have joining: "runner e q = RunJoining \<and> threads e > 0" if "q \<in> owners e" for q
  proof -
    have "\<And>n. runner e q \<noteq> RunSpawning n" "runner e q \<noteq> RunSignal" "runner e q = RunJoining \<longrightarrow> threads e \<noteq> 0"
      using stuck int_spawn int_finish int_join by blast+
    with that show ?thesis by (cases "runner e q") (auto simp: owners_def)
  qed
  have none: "owners e = {}"
  proof (rule ccontr)
    assume o: "owners e \<noteq> {}"
    then have t: "threads e > 0" using joining by blast
    have "stopper e \<noteq> StopNone" using assms(1,2) o by (auto simp: exec_inv_def phases_inv_def)
    moreover have "stopper e \<noteq> StopPost" "stopper e \<noteq> StopGuard" "stopper e \<noteq> StopTimer"
      using stuck int_post int_unguard int_arm by blast+
    ultimately have "stopper e = StopDone" by (cases "stopper e") simp_all
    then have "timer e \<noteq> NoTimer" using assms(1) o by (auto simp: exec_inv_def phases_inv_def)
    moreover have "timer e \<noteq> TimerArmed" using stuck int_timeout by blast
    ultimately have "io_stopped e" using exec_inv_fired [OF assms(1)] by (cases "timer e") simp_all
    then show False using stuck int_leave [of e] t assms(4) by auto
  qed
  then have "ex_state e \<noteq> Draining" using assms(1) by (auto simp: exec_inv_def phases_inv_def)
  moreover have "\<And>c. runner e r \<noteq> RunLoaded c" "\<And>c. runner e r \<noteq> RunGuarded c"
    using stuck int_guard int_exchange by blast+
  moreover have "\<not> owner_pc (runner e r)" using none by (auto simp: owners_def)
  ultimately have "has_returned (runner e r)" "ex_state e \<noteq> Draining" by (cases "runner e r"; simp)+
  then show ?thesis using assms(2) by (simp add: late_def)
qed

lemma internal_late: "internal_step e e' \<Longrightarrow> exec_inv cfg e \<Longrightarrow> late (ex_state e) \<Longrightarrow> late (ex_state e')"
  using internal_rank [of e e' cfg] by (cases "ex_state e'") (auto simp: late_def)

text \<open>After \<^verbatim>\<open>stop\<close> took effect the steps of the executor come to an end.\<close>

interpretation shutdown: terminating_system internal_step "\<lambda>e. exec_inv cfg e \<and> late (ex_state e)" exec_weight for cfg
  by unfold_locales (auto intro: internal_step_inv internal_late internal_weight)

text \<open>What comes from outside after a stop neither undoes it nor gives the executor more to do.\<close>

lemma external_late:
  assumes "external_step e e'" "exec_inv cfg e" "late (ex_state e)"
  shows "late (ex_state e') \<and> exec_weight e' = exec_weight e"
proof -
  have l: "late (ex_state e')" using external_rank [OF assms(1)] assms(3) by (cases "ex_state e'") (auto simp: late_def)
  have f: "finite (called e)" using assms(2) by (simp add: exec_inv_def runners_inv_def)
  have "exec_weight e' = exec_weight e"
    using assms(1)
  proof cases
    case (ext_listen outcome)
    then show ?thesis using assms(3) by (auto simp: exec_listen_def late_def)
  next
    case (ext_run r)
    let ?e = "set_runner r (RunReturned RunOk) (e\<lparr>ex_state := Stopped\<rparr>)"
    have e: "e' = ?e" using ext_run assms(3) by (auto simp: run_load_def late_def)
    have c: "called ?e = insert r (called e)" "r \<notin> called e" using ext_run by (auto simp: called_def)
    have "runners_weight ?e = runners_weight e"
      unfolding runners_weight_def c(1) using f c(2) by (auto intro!: sum.cong)
    then show ?thesis by (simp add: e exec_weight_def)
  next
    case ext_stop
    then show ?thesis using assms(3) by (auto simp: stop_exchange_def late_def)
  next
    case ext_accept
    then show ?thesis using runners_weight_same [of e' e] by (simp add: exec_weight_def)
  next
    case ext_enter
    then show ?thesis using runners_weight_same [of e' e] by (simp add: exec_weight_def)
  next
    case ext_suspend
    then show ?thesis using runners_weight_same [of e' e] by (simp add: exec_weight_def)
  next
    case ext_end
    then show ?thesis using runners_weight_same [of e' e] by (simp add: exec_weight_def)
  qed
  with l show ?thesis by simp
qed

text \<open>\<open>n\<close> steps of the executor's own with anything from outside in between.\<close>

inductive interleaved :: "nat \<Rightarrow> executor \<Rightarrow> executor \<Rightarrow> bool" where
  il_start: "interleaved 0 e e"
| il_internal: "interleaved n e e' \<Longrightarrow> internal_step e' e'' \<Longrightarrow> interleaved (Suc n) e e''"
| il_external: "interleaved n e e' \<Longrightarrow> external_step e' e'' \<Longrightarrow> interleaved n e e''"

lemma interleaved_late:
  "interleaved n e e' \<Longrightarrow> exec_inv cfg e \<Longrightarrow> late (ex_state e) \<Longrightarrow>
     exec_inv cfg e' \<and> late (ex_state e') \<and> n + exec_weight e' \<le> exec_weight e"
proof (induction rule: interleaved.induct)
  case (il_internal n e e' e'')
  then have i: "exec_inv cfg e'" "late (ex_state e')" "n + exec_weight e' \<le> exec_weight e" by simp_all
  from internal_weight [OF il_internal.hyps(2) i(1)] i(3) have "Suc n + exec_weight e'' \<le> exec_weight e" by simp
  with internal_step_inv [OF il_internal.hyps(2) i(1)] internal_late [OF il_internal.hyps(2) i(1,2)] show ?case by simp
next
  case (il_external n e e' e'')
  then have i: "exec_inv cfg e'" "late (ex_state e')" "n + exec_weight e' \<le> exec_weight e" by simp_all
  with external_late [OF il_external.hyps(2) i(1,2)] external_step_inv [OF il_external.hyps(2) i(1)] show ?case by simp
qed simp

lemma stop_exchange_late: "ex_state e \<noteq> Idle \<Longrightarrow> late (ex_state (stop_exchange e))"
  by (cases "ex_state e") (auto simp: stop_exchange_def late_def close_all_def)


text \<open>The server of above is stopped while a connection is suspended in its handler, and comes to its end by the timer.\<close>

definition stopping :: "drain_timer \<Rightarrow> stop_pc \<Rightarrow> run_pc \<Rightarrow> nat \<Rightarrow> nat \<Rightarrow> bool \<Rightarrow> exec_phase \<Rightarrow> executor" where
  "stopping t st pc n b io p = \<lparr>ex_config = one_thread, ex_state = p,
     work_guard = (st = StopNone \<or> st = StopPost \<or> st = StopGuard), acceptors = [True],
     close_posted = (st \<noteq> StopNone \<and> st \<noteq> StopPost), spawned = True, in_flight = 1, busy = b, io_stopped = io,
     threads = n, next_conn_id = 1, timer = t, runner = (\<lambda>_. RunUncalled)(5 := pc), stopper = st\<rparr>"

definition serving :: executor where
  "serving = stopping NoTimer StopNone RunJoining 1 0 False Running"

lemma serving_reach: "exec_reach one_thread serving"
proof -
  have "runner one_worker 5 = RunSpawning 1" by (simp add: one_worker_eq)
  from reach_internal [OF one_worker_reach int_spawn [OF this]]
  have "exec_reach one_thread (run_spawn 5 1 one_worker)" .
  from reach_external [OF this ext_accept] show ?thesis
    by (simp add: serving_def stopping_def one_worker_eq run_spawn_def set_runner_def)
qed

lemma serving_stop:
  "stop_exchange (serving\<lparr>busy := b\<rparr>) = stopping NoTimer StopPost RunJoining 1 b False Draining"
  by (simp add: stop_exchange_def serving_def stopping_def)

text \<open>The steps of a stop, with \<open>b\<close> workers inside a handler.\<close>

lemma stop_steps:
  "internal_step (stopping NoTimer StopPost RunJoining 1 b False Draining) (stopping NoTimer StopGuard RunJoining 1 b False Draining)"
  "internal_step (stopping NoTimer StopGuard RunJoining 1 b False Draining) (stopping NoTimer StopTimer RunJoining 1 b False Draining)"
  "internal_step (stopping NoTimer StopTimer RunJoining 1 b False Draining) (stopping TimerArmed StopDone RunJoining 1 b False Draining)"
  "internal_step (stopping TimerArmed StopDone RunJoining 1 b False Draining) (stopping TimerFired StopDone RunJoining 1 b True Draining)"
  using int_post [of "stopping NoTimer StopPost RunJoining 1 b False Draining"]
    int_unguard [of "stopping NoTimer StopGuard RunJoining 1 b False Draining"]
    int_arm [of "stopping NoTimer StopTimer RunJoining 1 b False Draining"]
    int_timeout [of "stopping TimerArmed StopDone RunJoining 1 b False Draining"]
  by (simp_all add: stopping_def)

lemma end_steps:
  "internal_step (stopping TimerFired StopDone RunJoining 1 0 True Draining) (stopping TimerFired StopDone RunJoining 0 0 True Draining)"
  "internal_step (stopping TimerFired StopDone RunJoining 0 0 True Draining) (stopping TimerFired StopDone RunSignal 0 0 True Draining)"
  "internal_step (stopping TimerFired StopDone RunSignal 0 0 True Draining) (stopping NoTimer StopDone (RunReturned RunOk) 0 0 True Stopped)"
  using int_leave [of "stopping TimerFired StopDone RunJoining 1 0 True Draining"]
    int_join [of "stopping TimerFired StopDone RunJoining 0 0 True Draining" 5]
    int_finish [of "stopping TimerFired StopDone RunSignal 0 0 True Draining" 5]
  by (simp_all add: stopping_def set_runner_def run_finish_def)

lemma stop_by_timer:
  "interleaved 7 (stop_exchange serving) (stopping NoTimer StopDone (RunReturned RunOk) 0 0 True Stopped)"
proof -
  have "serving\<lparr>busy := 0\<rparr> = serving" by (simp add: serving_def stopping_def)
  with serving_stop [of 0] have s: "stop_exchange serving = stopping NoTimer StopPost RunJoining 1 0 False Draining" by simp
  have "interleaved (Suc (Suc (Suc (Suc (Suc (Suc (Suc 0))))))) (stop_exchange serving)
      (stopping NoTimer StopDone (RunReturned RunOk) 0 0 True Stopped)"
    unfolding s by (intro il_internal [OF _ end_steps(3)] il_internal [OF _ end_steps(2)] il_internal [OF _ end_steps(1)]
        il_internal [OF _ stop_steps(4)] il_internal [OF _ stop_steps(3)] il_internal [OF _ stop_steps(2)]
        il_internal [OF _ stop_steps(1)] il_start)
  then show ?thesis by (simp add: eval_nat_numeral)
qed

lemma stopped_quiet: "\<not> internal_step (stopping NoTimer StopDone (RunReturned RunOk) 0 0 True Stopped) e"
  by (auto elim!: internal_step.cases simp: stopping_def split: if_splits)


text \<open>
  A handler that holds its worker keeps \<^verbatim>\<open>run\<close> from returning although the drain timer has fired:
  \<^verbatim>\<open>io_context::stop\<close> does not interrupt it.
\<close>

lemma blocked_handler_delays_run:
  "\<exists>e. exec_reach one_thread e \<and> ex_state e = Draining \<and> timer e = TimerFired \<and> io_stopped e
     \<and> runner e 5 = RunJoining \<and> (\<nexists>e'. internal_step e e')"
proof -
  let ?e = "stopping TimerFired StopDone RunJoining 1 1 True Draining"
  have "exec_reach one_thread (serving\<lparr>busy := 1\<rparr>)"
    using reach_external [OF serving_reach ext_enter] by (simp add: serving_def stopping_def)
  from reach_external [OF this ext_stop] have "exec_reach one_thread ?e"
    unfolding serving_stop
    by (rule reach_internal [OF reach_internal [OF reach_internal [OF reach_internal
          [OF _ stop_steps(1)] stop_steps(2)] stop_steps(3)] stop_steps(4)])
  moreover have "\<not> internal_step ?e e" for e
    by (auto elim!: internal_step.cases simp: stopping_def split: if_splits)
  ultimately show ?thesis by (intro exI [where x = ?e]) (simp add: stopping_def)
qed

text \<open>
  Two concurrent calls of \<^verbatim>\<open>run\<close>: the one that loses the exchange resets the work guard of the other, so
  the executor runs without a guard before its accept loops are spawned, and a worker that starts
  then finds no work and stops the context.
\<close>

lemma second_run_drops_guard:
  "\<exists>e. exec_reach \<lparr>thread_count = 2, cpu_pool_threads = 0, drain_timeout = 30\<rparr> e \<and> ex_state e = Running \<and> stopper e = StopNone
     \<and> io_stopped e \<and> (\<exists>r. runner e r = RunSpawning 1)"
proof -
  let ?cfg = "\<lparr>thread_count = 2, cpu_pool_threads = 0, drain_timeout = 30\<rparr>"
  let ?e0 = "new_executor ?cfg"
  let ?e1 = "run_load 1 ?e0" let ?e2 = "run_load 2 ?e1"
  let ?e3 = "run_guard 1 Idle ?e2" let ?e4 = "run_guard 2 Idle ?e3"
  let ?e5 = "run_exchange 1 Idle ?e4" let ?e6 = "run_exchange 2 Idle ?e5"
  let ?e7 = "run_spawn 1 0 ?e6"
  let ?e8 = "?e7\<lparr>threads := threads ?e7 - 1, io_stopped := True\<rparr>"
  note defs = new_executor_def run_load_def run_guard_def run_exchange_def run_spawn_def set_runner_def
  have r0: "runner ?e0 1 = RunUncalled" "runner ?e1 2 = RunUncalled" by (simp_all add: defs)
  have r1: "runner ?e2 1 = RunLoaded Idle" "runner ?e3 2 = RunLoaded Idle" by (simp_all add: defs)
  have r2: "runner ?e4 1 = RunGuarded Idle" "runner ?e5 2 = RunGuarded Idle" by (simp_all add: defs)
  have r3: "runner ?e6 1 = RunSpawning 0" by (simp add: defs)
  have r4: "busy ?e7 < threads ?e7" "\<not> has_work ?e7" by (simp_all add: defs has_work_def)
  have "exec_reach ?cfg ?e2"
    by (intro reach_external [OF reach_external [OF reach_new ext_run [OF r0(1)]] ext_run [OF r0(2)]])
  then have "exec_reach ?cfg ?e4" using int_guard [OF r1(1)] int_guard [OF r1(2)] by (blast intro: reach_internal)
  then have "exec_reach ?cfg ?e6" using int_exchange [OF r2(1)] int_exchange [OF r2(2)] by (blast intro: reach_internal)
  then have "exec_reach ?cfg ?e8"
    using int_spawn [OF r3] int_leave [OF r4(1) disjI2 [OF r4(2)]] by (blast intro: reach_internal)
  moreover have "ex_state ?e8 = Running \<and> stopper ?e8 = StopNone \<and> io_stopped ?e8 \<and> runner ?e8 1 = RunSpawning 1"
    by (simp add: defs)
  ultimately show ?thesis by blast
qed

text \<open>
  The joins of the destructor return once the context is stopped and no handler holds a worker: every worker
  can leave by a step of its own, and as many steps lead to the state without workers.
\<close>

lemma destroy_joins:
  "busy e = 0 \<Longrightarrow> (internal_step ^^ threads e) (e\<lparr>io_stopped := True\<rparr>) (e\<lparr>io_stopped := True, threads := 0\<rparr>)"
proof (induction "threads e" arbitrary: e)
  case 0
  then show ?case by simp
next
  case (Suc n)
  let ?e = "e\<lparr>threads := n\<rparr>"
  have "internal_step (e\<lparr>io_stopped := True\<rparr>) ((e\<lparr>io_stopped := True\<rparr>)\<lparr>threads := threads (e\<lparr>io_stopped := True\<rparr>) - 1, io_stopped := True\<rparr>)"
    using Suc.hyps(2) Suc.prems by (intro int_leave) simp_all
  then have "internal_step (e\<lparr>io_stopped := True\<rparr>) (?e\<lparr>io_stopped := True\<rparr>)" using Suc.hyps(2) [symmetric] by simp
  moreover have "(internal_step ^^ n) (?e\<lparr>io_stopped := True\<rparr>) (e\<lparr>io_stopped := True, threads := 0\<rparr>)"
    using Suc.hyps(1) [of ?e] Suc.prems by simp
  ultimately show ?case unfolding Suc.hyps(2) [symmetric] by (rule relpowp_Suc_I2)
qed

end
