(* ===== verification/When_All.thy ===== *)
theory When_All
  imports Prelude
begin

text \<open>
  \<^verbatim>\<open>when_all\<close> of \<^verbatim>\<open>include/aevox/async.hpp\<close>: the outer coroutine posts one sub-task per argument; each
  stores its result or the first exception, counts down, and the last one posts the resumption of
  the outer coroutine. The sub-tasks run on any threads; each step below is one post, one store, one
  atomic decrement or the resumption. What a sub-task ends with, a value or an exception, is given.
\<close>

datatype sub_pc = SubWaiting | SubPosted | SubStored | SubMarked

record ('e, 'a) when_all =
  subs :: "sub_pc list"
  wa_results :: "'a option list"
  first_exception :: "'e option"
  remaining :: nat
  resume_posts :: nat
  resumed :: nat

definition when_all_start :: "nat \<Rightarrow> ('e, 'a) when_all" where
  "when_all_start n = \<lparr>subs = replicate n SubWaiting, wa_results = replicate n None,
     first_exception = None, remaining = n, resume_posts = 0, resumed = 0\<rparr>"

definition store_result :: "nat \<Rightarrow> 'a \<Rightarrow> ('e, 'a) when_all \<Rightarrow> ('e, 'a) when_all" where
  "store_result i v w = w\<lparr>wa_results := (wa_results w)[i := Some v]\<rparr>"

definition capture_exception :: "'e \<Rightarrow> ('e, 'a) when_all \<Rightarrow> ('e, 'a) when_all" where
  "capture_exception x w = (if first_exception w = None then w\<lparr>first_exception := Some x\<rparr> else w)"

text \<open>The decrement: the new state, and whether the caller was the last.\<close>

definition mark_one_complete :: "('e, 'a) when_all \<Rightarrow> bool \<times> ('e, 'a) when_all" where
  "mark_one_complete w = (remaining w = 1, w\<lparr>remaining := remaining w - 1\<rparr>)"

text \<open>The body of a sub-task after its task ended, up to the decrement.\<close>

definition subtask_store :: "nat \<Rightarrow> 'e + 'a \<Rightarrow> ('e, 'a) when_all \<Rightarrow> ('e, 'a) when_all" where
  "subtask_store i outcome w =
     (case outcome of Inl x \<Rightarrow> capture_exception x w | Inr v \<Rightarrow> store_result i v w)
       \<lparr>subs := (subs w)[i := SubStored]\<rparr>"

definition subtask_mark :: "nat \<Rightarrow> ('e, 'a) when_all \<Rightarrow> ('e, 'a) when_all" where
  "subtask_mark i w =
     (let (last_one, w') = mark_one_complete w;
          w' = w'\<lparr>subs := (subs w)[i := SubMarked]\<rparr>
      in if last_one then w'\<lparr>resume_posts := resume_posts w' + 1\<rparr> else w')"

definition await_resume :: "('e, 'a) when_all \<Rightarrow> 'e + 'a list" where
  "await_resume w = (case first_exception w of Some x \<Rightarrow> Inl x | None \<Rightarrow> Inr (map the (wa_results w)))"

text \<open>The steps, for the given ends of the sub-tasks. The outer coroutine posts in order.\<close>

inductive when_all_step :: "('e + 'a) list \<Rightarrow> ('e, 'a) when_all \<Rightarrow> ('e, 'a) when_all \<Rightarrow> bool"
  for outcomes where
  wa_post: "i < length outcomes \<Longrightarrow> subs w ! i = SubWaiting \<Longrightarrow> SubWaiting \<notin> set (take i (subs w)) \<Longrightarrow>
    when_all_step outcomes w (w\<lparr>subs := (subs w)[i := SubPosted]\<rparr>)"
| wa_store: "i < length outcomes \<Longrightarrow> subs w ! i = SubPosted \<Longrightarrow>
    when_all_step outcomes w (subtask_store i (outcomes ! i) w)"
| wa_mark: "i < length outcomes \<Longrightarrow> subs w ! i = SubStored \<Longrightarrow> when_all_step outcomes w (subtask_mark i w)"
| wa_resume: "resume_posts w > 0 \<Longrightarrow>
    when_all_step outcomes w (w\<lparr>resume_posts := resume_posts w - 1, resumed := resumed w + 1\<rparr>)"

definition stored :: "sub_pc \<Rightarrow> bool" where
  "stored pc \<longleftrightarrow> pc = SubStored \<or> pc = SubMarked"

definition unmarked :: "sub_pc list \<Rightarrow> nat" where
  "unmarked ps = length (filter (\<lambda>pc. pc \<noteq> SubMarked) ps)"

definition when_all_inv :: "('e + 'a) list \<Rightarrow> ('e, 'a) when_all \<Rightarrow> bool" where
  "when_all_inv outcomes w \<longleftrightarrow> length (subs w) = length outcomes \<and> length (wa_results w) = length outcomes
     \<and> remaining w = unmarked (subs w)
     \<and> resume_posts w + resumed w = (if remaining w = 0 then 1 else 0)
     \<and> (\<forall>i < length outcomes. \<forall>v. stored (subs w ! i) \<and> outcomes ! i = Inr v \<longrightarrow> wa_results w ! i = Some v)
     \<and> (case first_exception w of
          None \<Rightarrow> \<forall>i < length outcomes. \<forall>x. stored (subs w ! i) \<longrightarrow> outcomes ! i \<noteq> Inl x
        | Some x \<Rightarrow> Inl x \<in> set outcomes)"

lemma unmarked_update:
  "i < length ps \<Longrightarrow> ps ! i \<noteq> SubMarked \<Longrightarrow>
     unmarked (ps[i := pc]) = (if pc = SubMarked then unmarked ps - 1 else unmarked ps)"
proof (induction ps arbitrary: i)
  case (Cons p ps)
  have "unmarked ps > 0" if "j < length ps" "ps ! j \<noteq> SubMarked" for j
    using that nth_mem [of j ps] by (auto simp: unmarked_def filter_empty_conv)
  with Cons show ?case by (cases i) (auto simp: unmarked_def)
qed simp

lemma unmarked_pos: "i < length ps \<Longrightarrow> ps ! i \<noteq> SubMarked \<Longrightarrow> unmarked ps > 0"
  using nth_mem [of i ps] by (auto simp: unmarked_def filter_empty_conv)

lemma unmarked_0: "unmarked ps = 0 \<Longrightarrow> i < length ps \<Longrightarrow> ps ! i = SubMarked"
  using unmarked_pos by fastforce
lemma inv_start: "outcomes \<noteq> [] \<Longrightarrow> when_all_inv outcomes (when_all_start (length outcomes))"
  by (auto simp: when_all_inv_def when_all_start_def stored_def unmarked_def)

lemma stored_other: "stored (ps[i := pc] ! j) \<Longrightarrow> i < length ps \<Longrightarrow> stored (ps ! j) \<or> (j = i \<and> stored pc)"
  by (cases "i = j") simp_all

lemma when_all_step_inv:
  assumes "when_all_step outcomes w w'" "when_all_inv outcomes w"
  shows "when_all_inv outcomes w'"
  using assms(1)
proof cases
  case (wa_post i)
  then show ?thesis using assms(2)
    by (auto simp: when_all_inv_def unmarked_update nth_list_update stored_def split: option.splits)
next
  case (wa_store i)
  have len: "length (subs w) = length outcomes" "length (wa_results w) = length outcomes"
    using assms(2) by (simp_all add: when_all_inv_def)
  have u: "unmarked ((subs w)[i := SubStored]) = unmarked (subs w)" using wa_store len by (simp add: unmarked_update)
  show ?thesis
  proof (cases "outcomes ! i")
    case (Inr v)
    then show ?thesis using assms(2) wa_store len u
      by (auto simp: when_all_inv_def subtask_store_def store_result_def nth_list_update stored_def split: option.splits)
  next
    case (Inl x)
    then have "Inl x \<in> set outcomes" using wa_store(2) by (metis nth_mem)
    then show ?thesis using assms(2) wa_store len u Inl
      by (auto simp: when_all_inv_def subtask_store_def capture_exception_def nth_list_update stored_def
          split: option.splits if_splits)
  qed
next
  case (wa_mark i)
  have len: "length (subs w) = length outcomes" and r: "remaining w = unmarked (subs w)"
    using assms(2) by (simp_all add: when_all_inv_def)
  have "unmarked (subs w) > 0" using unmarked_pos [of i "subs w"] wa_mark len by simp
  moreover have "unmarked ((subs w)[i := SubMarked]) = unmarked (subs w) - 1" using wa_mark len by (simp add: unmarked_update)
  moreover have "stored ((subs w)[i := SubMarked] ! j) = stored (subs w ! j)" if "j < length outcomes" for j
    using wa_mark len that by (cases "j = i") (simp_all add: stored_def)
  ultimately show ?thesis using assms(2) wa_mark len r
    by (auto simp: when_all_inv_def subtask_mark_def mark_one_complete_def Let_def split: option.splits)
next
  case wa_resume
  then show ?thesis using assms(2) by (auto simp: when_all_inv_def split: option.splits if_splits)
qed

fun sub_weight :: "sub_pc \<Rightarrow> nat" where
  "sub_weight SubWaiting = 4" | "sub_weight SubPosted = 3" | "sub_weight SubStored = 2" | "sub_weight SubMarked = 0"

definition when_all_weight :: "('e, 'a) when_all \<Rightarrow> nat" where
  "when_all_weight w = sum_list (map sub_weight (subs w)) + resume_posts w"

lemma weight_update:
  "i < length ps \<Longrightarrow> sum_list (map sub_weight (ps[i := pc])) + sub_weight (ps ! i) = sum_list (map sub_weight ps) + sub_weight pc"
  by (induction ps arbitrary: i) (auto split: nat.splits)

lemma when_all_step_weight:
  assumes "when_all_step outcomes w w'" "when_all_inv outcomes w"
  shows "when_all_weight w' < when_all_weight w"
  using assms(1)
proof cases
  case (wa_post i)
  with weight_update [of i "subs w" SubPosted] assms(2) show ?thesis
    by (simp add: when_all_weight_def when_all_inv_def)
next
  case (wa_store i)
  have "subs (subtask_store i (outcomes ! i) w) = (subs w)[i := SubStored]"
    "resume_posts (subtask_store i (outcomes ! i) w) = resume_posts w"
    by (simp_all add: subtask_store_def store_result_def capture_exception_def split: sum.split)
  with weight_update [of i "subs w" SubStored] assms(2) wa_store show ?thesis
    by (simp add: when_all_weight_def when_all_inv_def)
next
  case (wa_mark i)
  with weight_update [of i "subs w" SubMarked] assms(2) show ?thesis
    by (simp add: when_all_weight_def when_all_inv_def subtask_mark_def mark_one_complete_def Let_def)
qed (simp add: when_all_weight_def)

interpretation sub_tasks: terminating_system "when_all_step outcomes" "when_all_inv outcomes" when_all_weight for outcomes
  by unfold_locales (rule when_all_step_inv when_all_step_weight, assumption+)+

text \<open>As long as the outer coroutine has not been resumed, some step is possible.\<close>

lemma when_all_progress:
  assumes "when_all_inv outcomes w" "resumed w = 0" "outcomes \<noteq> []"
  shows "\<exists>w'. when_all_step outcomes w w'"
proof (cases "remaining w = 0")
  case True
  then show ?thesis using assms wa_resume [of w outcomes] by (auto simp: when_all_inv_def)
next
  case False
  have len: "length (subs w) = length outcomes" using assms(1) by (simp add: when_all_inv_def)
  show ?thesis
  proof (cases "SubWaiting \<in> set (subs w)")
    case True
    then obtain xs ys where s: "subs w = xs @ SubWaiting # ys" "SubWaiting \<notin> set xs" by (metis split_list_first)
    then show ?thesis using wa_post [of "length xs" outcomes w] len by (metis append_eq_conv_conj length_append add_Suc_right le_add1 le_imp_less_Suc length_Cons nth_append_length)
  next
    case nw: False
    from False assms(1) obtain i where i: "i < length outcomes" "subs w ! i \<noteq> SubMarked"
      by (auto simp: when_all_inv_def unmarked_def filter_empty_conv in_set_conv_nth)
    then have "subs w ! i \<noteq> SubWaiting" using nw len by (metis nth_mem)
    then show ?thesis using i wa_store [of i outcomes w] wa_mark [of i outcomes w] by (cases "subs w ! i") blast+
  qed
qed

subsection \<open>The order in which the sub-tasks end\<close>

text \<open>
  A run of \<open>k\<close> steps, with the sub-tasks in the order in which their tasks ended: those that were
  posted before a step and have ended after it are added to it. The program keeps no such list.
\<close>

definition just_ended :: "('e, 'a) when_all \<Rightarrow> ('e, 'a) when_all \<Rightarrow> nat list" where
  "just_ended w w' = filter (\<lambda>i. subs w ! i = SubPosted \<and> subs w' ! i = SubStored) [0..<length (subs w)]"

inductive when_all_run :: "('e + 'a) list \<Rightarrow> nat list \<Rightarrow> nat \<Rightarrow> ('e, 'a) when_all \<Rightarrow> bool" for outcomes where
  run_start: "when_all_run outcomes [] 0 (when_all_start (length outcomes))"
| run_next: "when_all_run outcomes order k w \<Longrightarrow> when_all_step outcomes w w' \<Longrightarrow>
    when_all_run outcomes (order @ just_ended w w') (Suc k) w'"

fun first_failure :: "('e + 'a) list \<Rightarrow> 'e option" where
  "first_failure [] = None"
| "first_failure (Inl x # outcomes) = Some x"
| "first_failure (Inr v # outcomes) = first_failure outcomes"

lemma first_failure_append:
  "first_failure (xs @ ys) = (case first_failure xs of None \<Rightarrow> first_failure ys | Some x \<Rightarrow> Some x)"
  by (induction xs rule: first_failure.induct) simp_all

lemma filter_single: "i < n \<Longrightarrow> filter (\<lambda>j. j = i) [0..<n] = [i]"
  by (induction n) (auto simp: less_Suc_eq filter_empty_conv)

lemma when_all_run_steps: "when_all_run outcomes order k w \<Longrightarrow> (when_all_step outcomes ^^ k) (when_all_start (length outcomes)) w"
  by (induction rule: when_all_run.induct) auto

definition order_inv :: "('e + 'a) list \<Rightarrow> nat list \<Rightarrow> ('e, 'a) when_all \<Rightarrow> bool" where
  "order_inv outcomes order w \<longleftrightarrow> distinct order \<and> set order = {i. i < length outcomes \<and> stored (subs w ! i)}
     \<and> first_exception w = first_failure (map ((!) outcomes) order)"

lemma just_ended_other:
  "(\<And>j. j < length (subs w) \<Longrightarrow> subs w ! j = SubPosted \<Longrightarrow> subs w' ! j \<noteq> SubStored) \<Longrightarrow> just_ended w w' = []"
  by (auto simp: just_ended_def filter_empty_conv)

lemma just_ended_store:
  assumes "i < length (subs w)" "subs w ! i = SubPosted" "subs w' = (subs w)[i := SubStored]"
  shows "just_ended w w' = [i]"
proof -
  have "just_ended w w' = filter (\<lambda>j. j = i) [0..<length (subs w)]"
    unfolding just_ended_def using assms by (intro filter_cong) (auto simp: nth_list_update)
  then show ?thesis using filter_single [OF assms(1)] by simp
qed

lemma order_inv_step:
  assumes "when_all_step outcomes w w'" "when_all_inv outcomes w" "order_inv outcomes order w"
  shows "order_inv outcomes (order @ just_ended w w') w'"
  using assms(1)
proof cases
  case (wa_post i)
  have len: "length (subs w) = length outcomes" using assms(2) by (simp add: when_all_inv_def)
  have "just_ended w w' = []"
    by (rule just_ended_other) (use wa_post len in \<open>auto simp: nth_list_update split: if_splits\<close>)
  then show ?thesis using assms wa_post
    by (auto simp: order_inv_def when_all_inv_def nth_list_update stored_def)
next
  case (wa_store i)
  have len: "length (subs w) = length outcomes" using assms(2) by (simp add: when_all_inv_def)
  have s: "subs w' = (subs w)[i := SubStored]"
    using wa_store by (simp add: subtask_store_def)
  have j: "just_ended w w' = [i]" by (rule just_ended_store) (use wa_store s len in simp_all)
  have x: "first_exception w' = (case first_exception w of None \<Rightarrow> first_failure [outcomes ! i] | Some x \<Rightarrow> Some x)"
    using wa_store by (auto simp: subtask_store_def capture_exception_def store_result_def split: option.split sum.split)
  have "i \<notin> set order" using assms(3) wa_store by (simp add: order_inv_def stored_def)
  moreover have "{j. j < length outcomes \<and> stored (subs w' ! j)} = insert i {j. j < length outcomes \<and> stored (subs w ! j)}"
    using wa_store(2,3) len by (auto simp: s nth_list_update stored_def)
  ultimately show ?thesis using assms(3) x
    by (simp add: order_inv_def j first_failure_append)
next
  case (wa_mark i)
  have len: "length (subs w) = length outcomes" using assms(2) by (simp add: when_all_inv_def)
  have s: "subs w' = (subs w)[i := SubMarked]" "first_exception w' = first_exception w"
    using wa_mark by (simp_all add: subtask_mark_def mark_one_complete_def Let_def)
  have "just_ended w w' = []"
    by (rule just_ended_other) (use s len wa_mark(2,3) in \<open>auto simp: nth_list_update split: if_splits\<close>)
  moreover have "stored (subs w' ! j) = stored (subs w ! j)" if "j < length outcomes" for j
    using wa_mark(2,3) that len by (auto simp: s nth_list_update stored_def)
  ultimately show ?thesis using assms(3) s by (auto simp: order_inv_def)
next
  case wa_resume
  have "just_ended w w' = []" by (rule just_ended_other) (use wa_resume in auto)
  then show ?thesis using assms wa_resume by (simp add: order_inv_def)
qed

lemma when_all_run_inv:
  assumes "when_all_run outcomes order k w" "outcomes \<noteq> []"
  shows "when_all_inv outcomes w \<and> order_inv outcomes order w"
  using assms(1)
proof (induction rule: when_all_run.induct)
  case run_start
  show ?case using inv_start [OF assms(2)] by (auto simp: order_inv_def when_all_start_def stored_def)
next
  case (run_next order k w w')
  then show ?case using when_all_step_inv order_inv_step by blast
qed

lemma await_resume_result:
  assumes "when_all_inv outcomes w" "order_inv outcomes order w" "remaining w = 0"
  shows "distinct order \<and> set order = {..<length outcomes}
    \<and> (case first_failure (map ((!) outcomes) order) of
         Some x \<Rightarrow> await_resume w = Inl x
       | None \<Rightarrow> (\<exists>vs. outcomes = map Inr vs \<and> await_resume w = Inr vs))"
proof -
  have st: "stored (subs w ! i)" if "i < length outcomes" for i
    using assms unmarked_0 [of "subs w" i] that by (simp add: when_all_inv_def stored_def)
  then have o: "distinct order" "set order = {..<length outcomes}" "first_exception w = first_failure (map ((!) outcomes) order)"
    using assms(2) by (auto simp: order_inv_def)
  show ?thesis
  proof (cases "first_exception w")
    case None
    have "\<exists>v. outcomes ! i = Inr v \<and> wa_results w ! i = Some v" if "i < length outcomes" for i
      using assms(1) None st [OF that] that by (cases "outcomes ! i") (auto simp: when_all_inv_def)
    then have "outcomes = map Inr (map the (wa_results w))"
      using assms(1) by (intro nth_equalityI) (fastforce simp: when_all_inv_def)+
    then show ?thesis using o None by (auto simp: await_resume_def)
  qed (use o in \<open>simp add: await_resume_def\<close>)
qed

text \<open>
  Claim C38. \<^verbatim>\<open>when_all\<close> always comes back, once and with the right result: under every interleaving of its
  sub-tasks the outer coroutine is resumed at most once, at most four steps per sub-task are taken, and
  when no step is left it has been resumed. When it is resumed every sub-task has ended, and it gets the
  values of all of them in argument order if none failed, and otherwise the exception of the one that
  failed first in time, whatever its place among the arguments.
\<close>

theorem when_all_resumes_once:
  assumes "outcomes \<noteq> []" "when_all_run outcomes order k w"
  shows "k \<le> 4 * length outcomes \<and> resumed w \<le> 1
    \<and> ((\<nexists>w'. when_all_step outcomes w w') \<longrightarrow> resumed w = 1)
    \<and> (resumed w = 1 \<longrightarrow> distinct order \<and> set order = {..<length outcomes}
        \<and> (case first_failure (map ((!) outcomes) order) of
             Some x \<Rightarrow> await_resume w = Inl x
           | None \<Rightarrow> (\<exists>vs. outcomes = map Inr vs \<and> await_resume w = Inr vs)))"
proof -
  note i = when_all_run_inv [OF assms(2,1)]
  have k: "k + when_all_weight w \<le> when_all_weight (when_all_start (length outcomes) :: ('a, 'b) when_all)"
    using sub_tasks.weight_power [OF when_all_run_steps [OF assms(2)] inv_start [OF assms(1)]] .
  have "when_all_weight (when_all_start (length outcomes) :: ('a, 'b) when_all) = 4 * length outcomes"
    by (simp add: when_all_weight_def when_all_start_def sum_list_replicate)
  moreover have "resumed w \<le> 1" "resumed w = 1 \<longrightarrow> remaining w = 0"
    using i by (auto simp: when_all_inv_def split: if_splits)
  ultimately show ?thesis
    using k when_all_progress [OF conjunct1 [OF i] _ assms(1)] await_resume_result [OF conjunct1 [OF i] conjunct2 [OF i]]
    by (cases "resumed w") auto
qed

text \<open>Two sub-tasks that both fail, the second one first.\<close>

abbreviation (input) both_fail :: "(string + nat) list" where
  "both_fail \<equiv> [Inl ''left'', Inl ''right'']"

definition both_done :: "(string, nat) when_all" where
  "both_done = \<lparr>subs = [SubMarked, SubMarked], wa_results = [None, None], first_exception = Some ''right'',
     remaining = 0, resume_posts = 0, resumed = 1\<rparr>"

lemma both_run: "when_all_run both_fail [1, 0] 7 both_done"
proof -
  define w where "w s x n p q = (\<lparr>subs = s, wa_results = [None, None], first_exception = x, remaining = n,
    resume_posts = p, resumed = q\<rparr> :: (string, nat) when_all)" for s x n p q
  let ?run = "when_all_run both_fail" and ?e = "Some ''right''"
  note defs = w_def subtask_store_def capture_exception_def subtask_mark_def mark_one_complete_def just_ended_def
  have 0: "?run [] 0 (w [SubWaiting, SubWaiting] None 2 0 0)"
    using run_start [of both_fail] by (simp add: when_all_start_def w_def numeral_2_eq_2)
  have 1: "?run [] 1 (w [SubPosted, SubWaiting] None 2 0 0)"
    using run_next [OF 0 wa_post [of 0]] by (simp add: defs)
  have 2: "?run [] 2 (w [SubPosted, SubPosted] None 2 0 0)"
    using run_next [OF 1 wa_post [of 1]] by (simp add: defs numeral_2_eq_2)
  have 3: "?run [1] 3 (w [SubPosted, SubStored] ?e 2 0 0)"
    using run_next [OF 2 wa_store [of 1]] by (simp add: defs)
  have 4: "?run [1, 0] 4 (w [SubStored, SubStored] ?e 2 0 0)"
    using run_next [OF 3 wa_store [of 0]] by (simp add: defs)
  have 5: "?run [1, 0] 5 (w [SubStored, SubMarked] ?e 1 0 0)"
    using run_next [OF 4 wa_mark [of 1]] by (simp add: defs)
  have 6: "?run [1, 0] 6 (w [SubMarked, SubMarked] ?e 0 1 0)"
    using run_next [OF 5 wa_mark [of 0]] by (simp add: defs)
  show ?thesis using run_next [OF 6 wa_resume] by (simp add: defs both_done_def)
qed

theorem when_all_resumes_once_witness:
  "await_resume both_done = Inl ''right'' \<and> resumed both_done = 1 \<and> (7 :: nat) \<le> 4 * 2"
  using when_all_resumes_once [OF _ both_run] by (simp add: both_done_def)

end
