(* ===== verification/Log_Writer.thy ===== *)
theory Log_Writer
  imports Log_Format "HOL-Library.Word" "HOL-Library.Sublist"
begin

text \<open>
  The asynchronous log writer, \<^verbatim>\<open>src/log/log_writer.cpp\<close>: producers that enqueue under \<^verbatim>\<open>try_lock\<close>, one
  writer thread, and callers of \<^verbatim>\<open>flush\<close>, all on one mutex and one condition variable. A critical
  section is one step; \<^verbatim>\<open>notify_one\<close> comes after the lock was released and wakes any one waiter,
  the writer or a flusher. The writer evaluates its predicate and blocks in two steps: it holds the
  mutex in between, but \<^verbatim>\<open>request_stop\<close> and the notifications do not need it. The counters are 64-bit words, as the atomics are.
\<close>

record log_config =
  lc_enabled :: bool
  lc_level :: LogLevel
  lc_format :: LogFormat
  lc_destination :: LogDestination
  lc_file_path :: "string option"
  lc_queue_capacity :: "32 word"

definition kDefaultLogQueueCapacity :: "32 word" where "kDefaultLogQueueCapacity = 8192"

definition default_log_config :: log_config where
  "default_log_config = \<lparr>lc_enabled = True, lc_level = Info, lc_format = Json, lc_destination = Stdout,
     lc_file_path = None, lc_queue_capacity = kDefaultLogQueueCapacity\<rparr>"

definition normalized_capacity :: "32 word \<Rightarrow> 32 word" where
  "normalized_capacity c = (if c = 0 then 1 else c)"

definition accepts :: "log_config \<Rightarrow> LogLevel \<Rightarrow> bool" where
  "accepts cfg level \<longleftrightarrow> lc_enabled cfg \<and> lc_destination cfg \<noteq> Disabled \<and> level_number level \<ge> level_number (lc_level cfg)"

datatype output_target = ToStdout | ToStderr | ToFile string | ToNothing

text \<open>\<^verbatim>\<open>open_destination\<close>, given whether the file system opens a path for append.\<close>

definition open_destination :: "(string \<Rightarrow> bool) \<Rightarrow> log_config \<Rightarrow> LogError + output_target" where
  "open_destination can_open cfg = (case lc_destination cfg of
      Stdout \<Rightarrow> Inr ToStdout
    | Stderr \<Rightarrow> Inr ToStderr
    | Disabled \<Rightarrow> Inr ToNothing
    | File \<Rightarrow>
        (case lc_file_path cfg of
           None \<Rightarrow> Inl FilePathRequired
         | Some p \<Rightarrow> if p = [] then Inl FilePathRequired
                     else if \<not> can_open p then Inl FileOpenFailed else Inr (ToFile p)))"

datatype writer_pc = WriterAwake | WriterChecked | WriterWaiting | WriterWriting log_record | WriterWritten | WriterEnded

record log_writer =
  lw_config :: log_config
  lw_target :: output_target
  lw_queue :: "log_record list"
  lw_writing :: bool
  lw_lines :: "string list"
  lw_accepted :: "64 word"
  lw_dropped :: "64 word"
  lw_written :: "64 word"
  lw_stop :: bool
  lw_stop_notify :: bool
  lw_writer :: writer_pc
  lw_notifies :: nat
  lw_flushers_awake :: nat
  lw_flushers_waiting :: nat

definition log_writer_create :: "(string \<Rightarrow> bool) \<Rightarrow> log_config \<Rightarrow> LogError + log_writer" where
  "log_writer_create can_open cfg =
     (let cfg = cfg\<lparr>lc_queue_capacity := normalized_capacity (lc_queue_capacity cfg)\<rparr> in
      case open_destination can_open cfg of
        Inl e \<Rightarrow> Inl e
      | Inr target \<Rightarrow> Inr \<lparr>lw_config = cfg, lw_target = target, lw_queue = [], lw_writing = False, lw_lines = [],
          lw_accepted = 0, lw_dropped = 0, lw_written = 0, lw_stop = False, lw_stop_notify = False, lw_writer = WriterAwake,
          lw_notifies = 0, lw_flushers_awake = 0, lw_flushers_waiting = 0\<rparr>)"

definition increment_dropped :: "log_writer \<Rightarrow> log_writer" where
  "increment_dropped w = (if lw_dropped w \<noteq> - 1 then w\<lparr>lw_dropped := lw_dropped w + 1\<rparr> else w)"

text \<open>\<^verbatim>\<open>enqueue\<close>, given whether \<^verbatim>\<open>try_lock\<close> got the lock; the notification is still to come.\<close>

definition lw_enqueue :: "bool \<Rightarrow> log_record \<Rightarrow> log_writer \<Rightarrow> log_writer" where
  "lw_enqueue owns_lock r w =
     (if \<not> accepts (lw_config w) (lg_level r) then increment_dropped w
      else if \<not> owns_lock then increment_dropped w
      else if length (lw_queue w) \<ge> unat (lc_queue_capacity (lw_config w)) then increment_dropped w
      else w\<lparr>lw_queue := lw_queue w @ [r], lw_accepted := lw_accepted w + 1, lw_notifies := lw_notifies w + 1\<rparr>)"

text \<open>The counter of lost records stops at its largest value.\<close>

lemma increment_dropped_min: "unat (lw_dropped (increment_dropped w)) = min (unat (lw_dropped w) + 1) (2 ^ 64 - 1)"
proof (cases "lw_dropped w = - 1")
  case False
  then have "1 + lw_dropped w \<noteq> 0" by (simp add: add_eq_0_iff)
  then have s: "unat (lw_dropped w + 1) = unat (lw_dropped w) + 1" using unatSuc [of "lw_dropped w"] by (simp add: add.commute)
  then have lt: "unat (lw_dropped w) + 1 < 2 ^ 64" using unsigned_less [of "lw_dropped w + 1", where ?'a = nat] by simp
  with s show ?thesis using False by (simp add: increment_dropped_def)
qed (simp add: increment_dropped_def unsigned_minus_1_eq_mask mask_eq_exp_minus_1)

text \<open>
  What the logging front end relies on: a record is queued, or counted as dropped by a counter that
  stays at its largest value.
\<close>

locale log_sink =
  fixes put :: "bool \<Rightarrow> log_record \<Rightarrow> 'w \<Rightarrow> 'w"
    and queued :: "'w \<Rightarrow> log_record list"
    and accepted :: "'w \<Rightarrow> 64 word"
    and dropped :: "'w \<Rightarrow> 64 word"
  assumes put_cases: "(queued (put b r w) = queued w @ [r] \<and> accepted (put b r w) = accepted w + 1 \<and> dropped (put b r w) = dropped w)
    \<or> (queued (put b r w) = queued w \<and> accepted (put b r w) = accepted w
        \<and> unat (dropped (put b r w)) = min (unat (dropped w) + 1) (2 ^ 64 - 1))"
begin

definition put_all :: "(bool \<times> log_record) list \<Rightarrow> 'w \<Rightarrow> 'w" where
  "put_all rs w = fold (\<lambda>(b, r). put b r) rs w"

lemma put_all_Cons: "put_all ((b, r) # rs) w = put_all rs (put b r w)"
  by (simp add: put_all_def)

lemma put_all_kept:
  "\<exists>kept. subseq kept (map snd rs) \<and> queued (put_all rs w) = queued w @ kept
     \<and> accepted (put_all rs w) = accepted w + of_nat (length kept)
     \<and> unat (dropped (put_all rs w)) = min (unat (dropped w) + (length rs - length kept)) (2 ^ 64 - 1)"
proof (induction rs arbitrary: w)
  case Nil
  have "unat (dropped w) < 2 ^ 64" using unsigned_less [of "dropped w", where ?'a = nat] by simp
  then have "unat (dropped w) \<le> 2 ^ 64 - 1" by simp
  then show ?case by (intro exI [of _ "[]"]) (simp add: put_all_def)
next
  case (Cons br rs)
  obtain b r where br: "br = (b, r)" by (cases br)
  obtain kept where k: "subseq kept (map snd rs)" "queued (put_all rs (put b r w)) = queued (put b r w) @ kept"
    "accepted (put_all rs (put b r w)) = accepted (put b r w) + of_nat (length kept)"
    "unat (dropped (put_all rs (put b r w))) = min (unat (dropped (put b r w)) + (length rs - length kept)) (2 ^ 64 - 1)"
    using Cons.IH by blast
  have l: "length kept \<le> length rs" using list_emb_length [OF k(1)] by simp
  from put_cases [of b r w] show ?case
  proof
    assume "queued (put b r w) = queued w @ [r] \<and> accepted (put b r w) = accepted w + 1 \<and> dropped (put b r w) = dropped w"
    with k show ?thesis by (intro exI [of _ "r # kept"]) (simp add: br put_all_Cons add.assoc)
  next
    assume "queued (put b r w) = queued w \<and> accepted (put b r w) = accepted w
      \<and> unat (dropped (put b r w)) = min (unat (dropped w) + 1) (2 ^ 64 - 1)"
    with k l show ?thesis by (intro exI [of _ kept]) (auto simp: br put_all_Cons list_emb_Cons Suc_diff_le)
  qed
qed

end

interpretation writer: log_sink lw_enqueue lw_queue lw_accepted lw_dropped
proof unfold_locales
  fix b r w
  note increment_dropped_min [of w]
  then show "(lw_queue (lw_enqueue b r w) = lw_queue w @ [r] \<and> lw_accepted (lw_enqueue b r w) = lw_accepted w + 1
        \<and> lw_dropped (lw_enqueue b r w) = lw_dropped w)
    \<or> (lw_queue (lw_enqueue b r w) = lw_queue w \<and> lw_accepted (lw_enqueue b r w) = lw_accepted w
        \<and> unat (lw_dropped (lw_enqueue b r w)) = min (unat (lw_dropped w) + 1) (2 ^ 64 - 1))"
    by (simp add: lw_enqueue_def, simp add: increment_dropped_def)
qed

definition format_line :: "log_config \<Rightarrow> log_record \<Rightarrow> string" where
  "format_line cfg r = (if lc_format cfg = Json then format_json r else format_pretty r)"

datatype stream_outcome = StreamGood | StreamBad | StreamThrows

definition write_record :: "stream_outcome \<Rightarrow> log_record \<Rightarrow> log_writer \<Rightarrow> log_writer" where
  "write_record outcome r w =
     (if lw_target w = ToNothing then w
      else case outcome of
        StreamGood \<Rightarrow> w\<lparr>lw_lines := lw_lines w @ [format_line (lw_config w) r], lw_written := lw_written w + 1\<rparr>
      | StreamBad \<Rightarrow> w
      | StreamThrows \<Rightarrow> increment_dropped w)"

text \<open>All waiters become runnable.\<close>

definition notify_all :: "log_writer \<Rightarrow> log_writer" where
  "notify_all w = w\<lparr>lw_flushers_awake := lw_flushers_awake w + lw_flushers_waiting w, lw_flushers_waiting := 0,
     lw_writer := (if lw_writer w = WriterWaiting then WriterAwake else lw_writer w)\<rparr>"

definition flush_ready :: "log_writer \<Rightarrow> bool" where
  "flush_ready w \<longleftrightarrow> lw_queue w = [] \<and> \<not> lw_writing w"

text \<open>What an observer sees of a step: a call of \<^verbatim>\<open>enqueue\<close>, a record given to the stream, or neither.\<close>

datatype log_event = LogQuiet | LogOffered bool log_record | LogWrote log_record stream_outcome

inductive log_step :: "log_event \<Rightarrow> log_writer \<Rightarrow> log_writer \<Rightarrow> bool" where
  log_enqueue: "owns_lock \<longrightarrow> lw_writer w \<noteq> WriterChecked \<Longrightarrow> log_step (LogOffered owns_lock r) w (lw_enqueue owns_lock r w)"
| log_notify_writer: "lw_notifies w > 0 \<Longrightarrow> lw_writer w = WriterWaiting \<Longrightarrow>
    log_step LogQuiet w (w\<lparr>lw_notifies := lw_notifies w - 1, lw_writer := WriterAwake\<rparr>)"
| log_notify_flusher: "lw_notifies w > 0 \<Longrightarrow> lw_flushers_waiting w > 0 \<Longrightarrow>
    log_step LogQuiet w (w\<lparr>lw_notifies := lw_notifies w - 1, lw_flushers_waiting := lw_flushers_waiting w - 1,
      lw_flushers_awake := lw_flushers_awake w + 1\<rparr>)"
| log_notify_none: "lw_notifies w > 0 \<Longrightarrow> lw_writer w \<noteq> WriterWaiting \<Longrightarrow> lw_flushers_waiting w = 0 \<Longrightarrow>
    log_step LogQuiet w (w\<lparr>lw_notifies := lw_notifies w - 1\<rparr>)"
| log_check: "lw_writer w = WriterAwake \<Longrightarrow> lw_queue w = [] \<Longrightarrow> \<not> lw_stop w \<Longrightarrow>
    log_step LogQuiet w (w\<lparr>lw_writer := WriterChecked\<rparr>)"
| log_sleep: "lw_writer w = WriterChecked \<Longrightarrow> log_step LogQuiet w (w\<lparr>lw_writer := WriterWaiting\<rparr>)"
| log_end: "lw_writer w = WriterAwake \<Longrightarrow> lw_queue w = [] \<Longrightarrow> lw_stop w \<Longrightarrow>
    log_step LogQuiet w (notify_all (w\<lparr>lw_writer := WriterEnded\<rparr>))"
| log_take: "lw_writer w = WriterAwake \<Longrightarrow> lw_queue w = r # rest \<Longrightarrow>
    log_step LogQuiet w (w\<lparr>lw_queue := rest, lw_writing := True, lw_writer := WriterWriting r\<rparr>)"
| log_write: "lw_writer w = WriterWriting r \<Longrightarrow>
    log_step (LogWrote r outcome) w ((write_record outcome r w)\<lparr>lw_writer := WriterWritten\<rparr>)"
| log_done: "lw_writer w = WriterWritten \<Longrightarrow>
    log_step LogQuiet w (notify_all (w\<lparr>lw_writing := False, lw_writer := WriterAwake\<rparr>))"
| log_flush: "log_step LogQuiet w (w\<lparr>lw_flushers_awake := lw_flushers_awake w + 1\<rparr>)"
| log_flush_wait: "lw_flushers_awake w > 0 \<Longrightarrow> lw_writer w \<noteq> WriterChecked \<Longrightarrow> \<not> flush_ready w \<Longrightarrow>
    log_step LogQuiet w (w\<lparr>lw_flushers_awake := lw_flushers_awake w - 1, lw_flushers_waiting := lw_flushers_waiting w + 1\<rparr>)"
| log_flush_return: "lw_flushers_awake w > 0 \<Longrightarrow> lw_writer w \<noteq> WriterChecked \<Longrightarrow> flush_ready w \<Longrightarrow>
    log_step LogQuiet w (w\<lparr>lw_flushers_awake := lw_flushers_awake w - 1\<rparr>)"
| log_request_stop: "\<not> lw_stop w \<Longrightarrow> log_step LogQuiet w (w\<lparr>lw_stop := True, lw_stop_notify := True\<rparr>)"
| log_notify_all: "lw_stop_notify w \<Longrightarrow> log_step LogQuiet w (notify_all (w\<lparr>lw_stop_notify := False\<rparr>))"

text \<open>
  Runs from a fresh writer, with what an observer writes down about them: the records the writer has to
  take (offered while the lock was free, enabled, with a destination, at or above the level and with room
  in the queue), the records given to the stream with what the stream did, and the number that were
  lost, because they had to be refused or because the stream threw.
\<close>

definition must_take :: "log_writer \<Rightarrow> bool \<Rightarrow> log_record \<Rightarrow> bool" where
  "must_take w owns_lock r \<longleftrightarrow> (let c = lw_config w in owns_lock \<and> lc_enabled c \<and> lc_destination c \<noteq> Disabled
     \<and> level_number (lc_level c) \<le> level_number (lg_level r) \<and> length (lw_queue w) < unat (lc_queue_capacity c))"

fun taken :: "log_writer \<Rightarrow> log_event \<Rightarrow> log_record list" where
  "taken w (LogOffered owns_lock r) = (if must_take w owns_lock r then [r] else [])"
| "taken w _ = []"

fun given :: "log_event \<Rightarrow> (log_record \<times> stream_outcome) list" where
  "given (LogWrote r outcome) = [(r, outcome)]"
| "given _ = []"

fun loss :: "log_writer \<Rightarrow> log_event \<Rightarrow> nat" where
  "loss w (LogOffered owns_lock r) = (if must_take w owns_lock r then 0 else 1)"
| "loss w (LogWrote r StreamThrows) = 1"
| "loss w _ = 0"

inductive log_run :: "log_writer \<Rightarrow> log_record list \<Rightarrow> (log_record \<times> stream_outcome) list \<Rightarrow> nat \<Rightarrow> log_writer \<Rightarrow> bool"
  for w0 where
  log_start: "log_run w0 [] [] 0 w0"
| log_next: "log_run w0 acc sent lost w \<Longrightarrow> log_step ev w w' \<Longrightarrow>
    log_run w0 (acc @ taken w ev) (sent @ given ev) (lost + loss w ev) w'"

subsection \<open>Nothing accepted is lost\<close>

fun being_written :: "writer_pc \<Rightarrow> log_record list" where
  "being_written (WriterWriting r) = [r]"
| "being_written pc = []"

definition good_records :: "(log_record \<times> stream_outcome) list \<Rightarrow> log_record list" where
  "good_records sent = map fst (filter (\<lambda>(r, outcome). outcome = StreamGood) sent)"

definition text_of :: "LogFormat \<Rightarrow> log_record \<Rightarrow> string" where
  "text_of f r = (case f of Json \<Rightarrow> format_json r | Pretty \<Rightarrow> format_pretty r)"

definition log_inv :: "log_writer \<Rightarrow> log_record list \<Rightarrow> (log_record \<times> stream_outcome) list \<Rightarrow> nat \<Rightarrow> log_writer \<Rightarrow> bool" where
  "log_inv w0 acc sent lost w \<longleftrightarrow> lw_config w = lw_config w0 \<and> lw_target w = lw_target w0
     \<and> (lw_target w0 = ToNothing \<longrightarrow> acc = [])
     \<and> acc = map fst sent @ being_written (lw_writer w) @ lw_queue w
     \<and> length (lw_queue w) \<le> unat (lc_queue_capacity (lw_config w))
     \<and> lw_accepted w = word_of_nat (length acc)
     \<and> unat (lw_dropped w) = min lost (2 ^ 64 - 1)
     \<and> (lw_writing w \<longleftrightarrow> being_written (lw_writer w) \<noteq> [] \<or> lw_writer w = WriterWritten)
     \<and> lw_lines w = map (text_of (lc_format (lw_config w0))) (good_records sent)
     \<and> lw_written w = word_of_nat (length (good_records sent))"

lemma increment_dropped_fields [simp]:
  "lw_config (increment_dropped w) = lw_config w" "lw_queue (increment_dropped w) = lw_queue w"
  "lw_target (increment_dropped w) = lw_target w" "lw_written (increment_dropped w) = lw_written w"
  "lw_writer (increment_dropped w) = lw_writer w" "lw_accepted (increment_dropped w) = lw_accepted w"
  "lw_writing (increment_dropped w) = lw_writing w" "lw_lines (increment_dropped w) = lw_lines w"
  by (simp_all add: increment_dropped_def)

lemma write_record_fields [simp]:
  "lw_config (write_record out r w) = lw_config w" "lw_queue (write_record out r w) = lw_queue w"
  "lw_target (write_record out r w) = lw_target w"
  "lw_accepted (write_record out r w) = lw_accepted w" "lw_writing (write_record out r w) = lw_writing w"
  by (simp_all add: write_record_def split: stream_outcome.split)

lemma notify_all_fields [simp]:
  "lw_config (notify_all w) = lw_config w" "lw_queue (notify_all w) = lw_queue w"
  "lw_target (notify_all w) = lw_target w" "lw_written (notify_all w) = lw_written w" "lw_dropped (notify_all w) = lw_dropped w"
  "lw_accepted (notify_all w) = lw_accepted w" "lw_writing (notify_all w) = lw_writing w" "lw_lines (notify_all w) = lw_lines w"
  "being_written (lw_writer (notify_all w)) = being_written (lw_writer w)"
  "lw_writer (notify_all w) = WriterWritten \<longleftrightarrow> lw_writer w = WriterWritten"
  by (simp_all add: notify_all_def)

lemma enqueue_taken:
  "must_take w owns_lock r \<Longrightarrow> lw_enqueue owns_lock r w
     = w\<lparr>lw_queue := lw_queue w @ [r], lw_accepted := lw_accepted w + 1, lw_notifies := lw_notifies w + 1\<rparr>"
  "\<not> must_take w owns_lock r \<Longrightarrow> lw_enqueue owns_lock r w = increment_dropped w"
  by (auto simp: must_take_def lw_enqueue_def accepts_def Let_def)

lemma format_line_text: "format_line c r = text_of (lc_format c) r"
  by (simp add: format_line_def text_of_def split: LogFormat.split)

lemma log_step_inv:
  assumes "log_step ev w w'" "log_inv w0 acc sent lost w" "lw_target w0 = ToNothing \<longleftrightarrow> lc_destination (lw_config w0) = Disabled"
  shows "log_inv w0 (acc @ taken w ev) (sent @ given ev) (lost + loss w ev) w'"
  using assms(1)
proof cases
  case (log_enqueue owns_lock r)
  show ?thesis
  proof (cases "must_take w owns_lock r")
    case True
    then have "length (lw_queue w) < unat (lc_queue_capacity (lw_config w))" "lc_destination (lw_config w) \<noteq> Disabled"
      by (simp_all add: must_take_def Let_def)
    with True assms(2,3) log_enqueue show ?thesis
      by (cases "lw_writer w") (auto simp: log_inv_def enqueue_taken)
  next
    case False
    with assms(2) log_enqueue show ?thesis
      by (auto simp: log_inv_def enqueue_taken increment_dropped_min)
  qed
next
  case (log_write r outcome)
  then have "lw_target w \<noteq> ToNothing" using assms(2) by (auto simp: log_inv_def)
  with assms(2) log_write show ?thesis
    by (cases outcome)
      (auto simp: log_inv_def write_record_def good_records_def format_line_text increment_dropped_min)
next
  case log_done
  then show ?thesis using assms(2) by (auto simp: log_inv_def)
next
  case log_end
  then show ?thesis using assms(2) by (auto simp: log_inv_def)
next
  case log_notify_all
  then show ?thesis using assms(2) by (cases "lw_writer w") (auto simp: log_inv_def notify_all_def)
qed (use assms(2) in \<open>auto simp: log_inv_def split: writer_pc.splits\<close>)

lemma created_fields:
  assumes "log_writer_create can_open cfg = Inr w0"
  shows "log_inv w0 [] [] 0 w0" "lw_target w0 = ToNothing \<longleftrightarrow> lc_destination (lw_config w0) = Disabled"
    "lw_config w0 = cfg\<lparr>lc_queue_capacity := normalized_capacity (lc_queue_capacity cfg)\<rparr>"
  using assms
  by (auto simp: log_writer_create_def log_inv_def good_records_def Let_def open_destination_def
      split: sum.splits LogDestination.splits option.splits if_splits)

lemma log_run_inv:
  "log_run w0 acc sent lost w \<Longrightarrow> log_inv w0 [] [] 0 w0 \<Longrightarrow>
     lw_target w0 = ToNothing \<longleftrightarrow> lc_destination (lw_config w0) = Disabled \<Longrightarrow> log_inv w0 acc sent lost w"
  by (induction rule: log_run.induct) (auto intro: log_step_inv)

lemma unat_normalized: "unat (normalized_capacity c) = max 1 (unat c)"
  by (cases "c = 0") (auto simp: normalized_capacity_def max_def unat_eq_zero not_le)

text \<open>
  Claim C40. Whatever producers, the writer, flushers and shutdown interleave: the records the writer has
  to take, and no others, are accepted; they are handed to the stream in the order of acceptance, none
  twice and none lost; the lines on the stream are exactly the records, formatted as configured, whose
  write the stream did not fail, in that order; the queue stays within its capacity; the counters count the accepted,
  the written and, up to their largest value, the lost records; and when a \<^verbatim>\<open>flush\<close> may return,
  everything accepted so far has been handed over.
\<close>

theorem log_writer_fifo:
  assumes "log_writer_create can_open cfg = Inr w0" "log_run w0 acc sent lost w"
  shows "acc = map fst sent @ being_written (lw_writer w) @ lw_queue w
    \<and> lw_lines w = map (text_of (lc_format cfg)) (good_records sent)
    \<and> length (lw_queue w) \<le> max 1 (unat (lc_queue_capacity cfg))
    \<and> lw_accepted w = word_of_nat (length acc)
    \<and> lw_written w = word_of_nat (length (lw_lines w))
    \<and> unat (lw_dropped w) = min lost (2 ^ 64 - 1)
    \<and> (flush_ready w \<longrightarrow> map fst sent = acc)"
  using log_run_inv [OF assms(2) created_fields(1,2) [OF assms(1)]] created_fields(3) [OF assms(1)]
  by (auto simp: log_inv_def flush_ready_def unat_normalized)

definition sample_record :: log_record where
  "sample_record = \<lparr>lg_timestamp = \<lparr>tm_year = 126, tm_mon = 0, tm_mday = 1, tm_hour = 0, tm_min = 0, tm_sec = 0, tm_micros = 0\<rparr>,
     lg_level = Info, lg_message = ''hi'', lg_request = None, lg_status_code = None, lg_duration = None\<rparr>"

definition fresh_writer :: log_writer where
  "fresh_writer = projr (log_writer_create (\<lambda>_. True) default_log_config)"

lemma fresh_created: "log_writer_create (\<lambda>_. True) default_log_config = Inr fresh_writer"
  by (simp add: fresh_writer_def log_writer_create_def open_destination_def default_log_config_def)

lemmas fresh_defs = fresh_writer_def log_writer_create_def open_destination_def default_log_config_def
  normalized_capacity_def kDefaultLogQueueCapacity_def

lemma fresh_fields [simp]:
  "lw_writer fresh_writer = WriterAwake" "lw_queue fresh_writer = []" "\<not> lw_stop fresh_writer"
  "\<not> lw_writing fresh_writer" "lw_notifies fresh_writer = 0" "lw_flushers_awake fresh_writer = 0"
  "lw_flushers_waiting fresh_writer = 0" "lw_accepted fresh_writer = 0" "lw_stop_notify fresh_writer = False"
  by (simp_all add: fresh_defs)

lemma sample_accepted: "accepts (lw_config fresh_writer) (lg_level sample_record)"
  by (simp add: accepts_def fresh_defs sample_record_def)

text \<open>A record is queued, taken by the writer and written; a second one is refused for want of the lock.\<close>

lemma sample_written:
  "log_run fresh_writer [sample_record] [(sample_record, StreamGood)] 1
     (fresh_writer\<lparr>lw_accepted := 1, lw_notifies := 1, lw_writing := True, lw_dropped := 1,
        lw_lines := [format_json sample_record], lw_written := 1, lw_writer := WriterWritten\<rparr>)"
proof -
  let ?w = "fresh_writer\<lparr>lw_accepted := 1, lw_notifies := 1\<rparr>"
  have m: "must_take fresh_writer True sample_record" "\<not> must_take w False sample_record" for w
    by (simp_all add: must_take_def fresh_defs sample_record_def)
  have 1: "log_run fresh_writer [sample_record] [] 0 (?w\<lparr>lw_queue := [sample_record]\<rparr>)"
    using log_next [OF log_start log_enqueue [of True fresh_writer sample_record]] m
    by (simp add: enqueue_taken fresh_defs)
  have 2: "log_run fresh_writer [sample_record] [] 1 (?w\<lparr>lw_queue := [sample_record], lw_dropped := 1\<rparr>)"
    using log_next [OF 1 log_enqueue [of False _ sample_record]] m
    by (simp add: enqueue_taken increment_dropped_def fresh_defs)
  have 3: "log_run fresh_writer [sample_record] [] 1
      (?w\<lparr>lw_dropped := 1, lw_writing := True, lw_writer := WriterWriting sample_record\<rparr>)"
    using log_next [OF 2 log_take [where r = sample_record and rest = "[]"]] by (simp add: fresh_defs)
  show ?thesis
    using log_next [OF 3 log_write [where r = sample_record and outcome = StreamGood]]
    by (simp add: write_record_def format_line_def fresh_defs)
qed

theorem log_writer_fifo_witness:
  "\<exists>w. lw_lines w = [format_json sample_record] \<and> lw_written w = 1 \<and> unat (lw_dropped w) = 1
     \<and> log_run fresh_writer [sample_record] [(sample_record, StreamGood)] 1 w"
proof -
  from log_writer_fifo [OF fresh_created sample_written] have
    "map (text_of Json) [sample_record] = [format_json sample_record]"
    by (simp add: text_of_def)
  with log_writer_fifo [OF fresh_created sample_written] sample_written show ?thesis
    by (intro exI [where x = "fresh_writer\<lparr>lw_accepted := 1, lw_notifies := 1, lw_writing := True, lw_dropped := 1,
        lw_lines := [format_json sample_record], lw_written := 1, lw_writer := WriterWritten\<rparr>"])
      (simp add: good_records_def)
qed

subsection \<open>Two lost wake-ups\<close>

inductive log_reach :: "log_writer \<Rightarrow> log_writer \<Rightarrow> bool" for w0 where
  log_reach_refl: "log_reach w0 w0"
| log_reach_step: "log_reach w0 w \<Longrightarrow> log_step ev w w' \<Longrightarrow> log_reach w0 w'"

text \<open>
  A notification for the writer can wake a flusher instead: the flusher goes back to sleep, and with a
  record in the queue both wait for ever.
\<close>

lemma flush_steals_wakeup:
  "\<exists>w. log_reach fresh_writer w \<and> lw_queue w \<noteq> [] \<and> lw_writer w = WriterWaiting \<and> lw_notifies w = 0
     \<and> lw_flushers_awake w = 0 \<and> lw_flushers_waiting w = 1"
proof -
  let ?w1 = "fresh_writer\<lparr>lw_writer := WriterChecked\<rparr>" and ?w2 = "fresh_writer\<lparr>lw_writer := WriterWaiting\<rparr>"
  let ?w3 = "lw_enqueue True sample_record ?w2"
  let ?q = "fresh_writer\<lparr>lw_queue := [sample_record], lw_accepted := 1, lw_writer := WriterWaiting\<rparr>"
  have w3: "?w3 = ?q\<lparr>lw_notifies := 1\<rparr>"
    using sample_accepted by (simp add: lw_enqueue_def) (simp add: fresh_defs)
  have "log_reach fresh_writer ?w1" by (rule log_reach_step [OF log_reach_refl log_check]) simp_all
  from log_reach_step [OF this log_sleep] have "log_reach fresh_writer ?w2" by simp
  from log_reach_step [OF this log_enqueue [of True _ sample_record]]
  have "log_reach fresh_writer (?q\<lparr>lw_notifies := 1\<rparr>)" by (simp add: w3)
  from log_reach_step [OF this log_flush]
  have "log_reach fresh_writer (?q\<lparr>lw_notifies := 1, lw_flushers_awake := 1\<rparr>)"
    by simp
  from log_reach_step [OF this log_flush_wait]
  have "log_reach fresh_writer (?q\<lparr>lw_notifies := 1, lw_flushers_awake := 0, lw_flushers_waiting := 1\<rparr>)"
    by (simp add: flush_ready_def)
  from log_reach_step [OF this log_notify_flusher]
  have "log_reach fresh_writer (?q\<lparr>lw_notifies := 0, lw_flushers_waiting := 0, lw_flushers_awake := 1\<rparr>)" by simp
  from log_reach_step [OF this log_flush_wait]
  have "log_reach fresh_writer (?q\<lparr>lw_notifies := 0, lw_flushers_awake := 0, lw_flushers_waiting := 1\<rparr>)"
    by (simp add: flush_ready_def)
  then show ?thesis by (intro exI conjI) (assumption, simp_all)
qed

text \<open>
  The stop request and its notification can fall between the writer's predicate and its sleep, because the
  stop flag is not guarded by the mutex: the writer then never ends, and the destructor joins it for ever.
\<close>

lemma stop_lost:
  "\<exists>w. log_reach fresh_writer w \<and> lw_stop w \<and> \<not> lw_stop_notify w \<and> lw_writer w = WriterWaiting
     \<and> lw_notifies w = 0 \<and> lw_queue w = []"
proof -
  have 1: "log_reach fresh_writer (fresh_writer\<lparr>lw_writer := WriterChecked\<rparr>)"
    by (rule log_reach_step [OF log_reach_refl log_check]) simp_all
  from log_reach_step [OF 1 log_request_stop]
  have 2: "log_reach fresh_writer (fresh_writer\<lparr>lw_writer := WriterChecked, lw_stop := True, lw_stop_notify := True\<rparr>)"
    by simp
  from log_reach_step [OF 2 log_notify_all]
  have 3: "log_reach fresh_writer (fresh_writer\<lparr>lw_stop := True, lw_stop_notify := False,
      lw_flushers_awake := 0, lw_flushers_waiting := 0, lw_writer := WriterChecked\<rparr>)"
    by (simp add: notify_all_def)
  from log_reach_step [OF 3 log_sleep]
  have "log_reach fresh_writer (fresh_writer\<lparr>lw_stop := True, lw_stop_notify := False,
      lw_flushers_awake := 0, lw_flushers_waiting := 0, lw_writer := WriterWaiting\<rparr>)" by simp
  then show ?thesis by (intro exI conjI) (assumption, simp_all)
qed
end
