(* ===== verification/Logger.thy ===== *)
theory Logger
  imports Log_Writer Request Pipeline
begin

text \<open>
  The logging front end, \<^verbatim>\<open>src/log/logger.cpp\<close>, and the access-log middleware,
  \<^verbatim>\<open>src/log/middleware_logger.cpp\<close>. The global slot holds the installed writer or nothing. Handlers
  and middleware run over a state with that slot, a monotonic clock in microseconds and the calendar
  time; calls that a request makes between the two clock reads may change all of them.
\<close>

record 's log_env =
  slot :: "log_writer option"
  steady_us :: nat
  utc_now :: utc_time
  lock_free :: bool
  rest_state :: 's

definition install_log_writer :: "log_writer \<Rightarrow> 's log_env \<Rightarrow> 's log_env" where
  "install_log_writer w s = s\<lparr>slot := Some w\<rparr>"

definition reset_log_writer :: "'s log_env \<Rightarrow> 's log_env" where
  "reset_log_writer s = s\<lparr>slot := None\<rparr>"

definition request_fields :: "('ty, 'v) request_impl \<Rightarrow> log_request_fields" where
  "request_fields req = \<lparr>lr_request_id = request_id req, lr_method = method_text (req_method req),
     lr_path = path_view req, lr_trace_id = req_trace_id req, lr_span_id = req_span_id req\<rparr>"

text \<open>What both ways of writing do with the writer in the slot.\<close>

definition submit_record :: "log_record \<Rightarrow> 's log_env \<Rightarrow> 's log_env" where
  "submit_record r s = (case slot s of
      None \<Rightarrow> s
    | Some w \<Rightarrow> if \<not> accepts (lw_config w) (lg_level r) then s\<lparr>slot := Some (increment_dropped w)\<rparr>
                else s\<lparr>slot := Some (lw_enqueue (lock_free s) r w)\<rparr>)"

definition write_request_log :: "('ty, 'v) request_impl option \<Rightarrow> LogLevel \<Rightarrow> string \<Rightarrow> int option \<Rightarrow> int option
    \<Rightarrow> 's log_env \<Rightarrow> 's log_env" where
  "write_request_log req level message status dur s =
     submit_record \<lparr>lg_timestamp = utc_now s, lg_level = level, lg_message = message,
       lg_request = map_option request_fields req, lg_status_code = status, lg_duration = dur\<rparr> s"

definition log_write :: "LogLevel \<Rightarrow> string \<Rightarrow> 's log_env \<Rightarrow> 's log_env" where
  "log_write level message s =
     submit_record \<lparr>lg_timestamp = utc_now s, lg_level = level, lg_message = message,
       lg_request = None, lg_status_code = None, lg_duration = None\<rparr> s"

text \<open>
  The templates of \<^verbatim>\<open>include/aevox/log.hpp\<close>: the message is what \<^verbatim>\<open>std::format\<close> makes of the arguments, or
  a fixed text when it throws. The first group logs for no request, the second for one.
\<close>

definition formatted_or_error :: "string option \<Rightarrow> string" where
  "formatted_or_error formatted = (case formatted of Some m \<Rightarrow> m | None \<Rightarrow> ''[format error]'')"

definition log_trace :: "string option \<Rightarrow> 's log_env \<Rightarrow> 's log_env" where
  "log_trace formatted s = log_write Trace (formatted_or_error formatted) s"

definition log_debug :: "string option \<Rightarrow> 's log_env \<Rightarrow> 's log_env" where
  "log_debug formatted s = log_write Debug (formatted_or_error formatted) s"

definition log_info :: "string option \<Rightarrow> 's log_env \<Rightarrow> 's log_env" where
  "log_info formatted s = log_write Info (formatted_or_error formatted) s"

definition log_warn :: "string option \<Rightarrow> 's log_env \<Rightarrow> 's log_env" where
  "log_warn formatted s = log_write Warn (formatted_or_error formatted) s"

definition log_error :: "string option \<Rightarrow> 's log_env \<Rightarrow> 's log_env" where
  "log_error formatted s = log_write Error (formatted_or_error formatted) s"

definition log_fatal :: "string option \<Rightarrow> 's log_env \<Rightarrow> 's log_env" where
  "log_fatal formatted s = log_write Fatal (formatted_or_error formatted) s"

definition write_for_request :: "('ty, 'v) request_impl option \<Rightarrow> LogLevel \<Rightarrow> string \<Rightarrow> 's log_env \<Rightarrow> 's log_env" where
  "write_for_request req level message s = write_request_log req level message None None s"

definition req_trace :: "('ty, 'v) request_impl option \<Rightarrow> string option \<Rightarrow> 's log_env \<Rightarrow> 's log_env" where
  "req_trace req formatted s = write_for_request req Trace (formatted_or_error formatted) s"

definition req_debug :: "('ty, 'v) request_impl option \<Rightarrow> string option \<Rightarrow> 's log_env \<Rightarrow> 's log_env" where
  "req_debug req formatted s = write_for_request req Debug (formatted_or_error formatted) s"

definition req_info :: "('ty, 'v) request_impl option \<Rightarrow> string option \<Rightarrow> 's log_env \<Rightarrow> 's log_env" where
  "req_info req formatted s = write_for_request req Info (formatted_or_error formatted) s"

definition req_warn :: "('ty, 'v) request_impl option \<Rightarrow> string option \<Rightarrow> 's log_env \<Rightarrow> 's log_env" where
  "req_warn req formatted s = write_for_request req Warn (formatted_or_error formatted) s"

definition req_error :: "('ty, 'v) request_impl option \<Rightarrow> string option \<Rightarrow> 's log_env \<Rightarrow> 's log_env" where
  "req_error req formatted s = write_for_request req Error (formatted_or_error formatted) s"

definition req_fatal :: "('ty, 'v) request_impl option \<Rightarrow> string option \<Rightarrow> 's log_env \<Rightarrow> 's log_env" where
  "req_fatal req formatted s = write_for_request req Fatal (formatted_or_error formatted) s"

lemmas log_front_defs = log_trace_def log_debug_def log_info_def log_warn_def log_error_def log_fatal_def
  req_trace_def req_debug_def req_info_def req_warn_def req_error_def req_fatal_def write_for_request_def
  log_write_def write_request_log_def

text \<open>A level below the configured one only counts as dropped, whichever way it is logged.\<close>

lemma front_end_filtered:
  assumes "slot s = Some w" "\<not> accepts (lw_config w) Info"
  shows "log_info formatted s = s\<lparr>slot := Some (increment_dropped w)\<rparr>"
    and "req_info req formatted s = s\<lparr>slot := Some (increment_dropped w)\<rparr>"
  using assms by (simp_all add: log_front_defs submit_record_def)

text \<open>A logged request is identified in the record, a global message is not.\<close>

lemma front_end_enqueues:
  assumes "slot s = Some w" "accepts (lw_config w) Warn" "lock_free s" "length (lw_queue w) < unat (lc_queue_capacity (lw_config w))"
  shows "\<exists>w'. slot (req_warn (Some req) None s) = Some w' \<and> map lg_message (lw_queue w') = map lg_message (lw_queue w) @ [''[format error]'']
      \<and> map lg_request (lw_queue w') = map lg_request (lw_queue w) @ [Some (request_fields req)]"
    and "\<exists>w'. slot (log_warn None s) = Some w' \<and> map lg_message (lw_queue w') = map lg_message (lw_queue w) @ [''[format error]'']
      \<and> map lg_request (lw_queue w') = map lg_request (lw_queue w) @ [None]"
  using assms by (simp_all add: log_front_defs submit_record_def lw_enqueue_def formatted_or_error_def)

text \<open>
  Every record submitted to an installed writer is accounted for: it is queued, in order, and counted as
  accepted, or it is counted as dropped.
\<close>

lemma submit_all_accounted:
  assumes "slot s = Some w"
  shows "\<exists>w' kept. slot (fold submit_record rs s) = Some w' \<and> subseq kept rs \<and> lw_queue w' = lw_queue w @ kept
    \<and> lw_accepted w' = lw_accepted w + of_nat (length kept)
    \<and> unat (lw_dropped w') = min (unat (lw_dropped w) + (length rs - length kept)) (2 ^ 64 - 1)"
proof -
  have "slot (fold submit_record rs s) = Some (writer.put_all (map (Pair (lock_free s)) rs) w)"
    using assms
  proof (induction rs arbitrary: s w)
    case (Cons r rs)
    let ?s = "submit_record r s"
    have "slot ?s = Some (lw_enqueue (lock_free s) r w)" "lock_free ?s = lock_free s"
      using Cons.prems by (simp_all add: submit_record_def lw_enqueue_def)
    from Cons.IH [OF this(1)] this(2) show ?case by (simp add: writer.put_all_Cons)
  qed (simp add: writer.put_all_def)
  with writer.put_all_kept [of "map (Pair (lock_free s)) rs" w] show ?thesis by (auto simp: comp_def)
qed

definition log_stats :: "'s log_env \<Rightarrow> 64 word \<times> 64 word \<times> 64 word" where
  "log_stats s = (case slot s of None \<Rightarrow> (0, 0, 0) | Some w \<Rightarrow> (lw_accepted w, lw_dropped w, lw_written w))"

subsection \<open>The access-log middleware\<close>

record logger_config =
  lg_mw_level :: LogLevel
  exclude_paths :: "string list"
  slow_request_threshold_ms :: nat
  log_slow_requests :: bool

definition kDefaultSlowRequestThreshold :: nat where "kDefaultSlowRequestThreshold = 500"

definition access_level :: "logger_config \<Rightarrow> nat \<Rightarrow> LogLevel" where
  "access_level cfg elapsed =
     (if log_slow_requests cfg \<and> elapsed \<ge> slow_request_threshold_ms cfg * 1000 then Warn else lg_mw_level cfg)"

definition access_message :: "('ty, 'v) request_impl \<Rightarrow> response \<Rightarrow> nat \<Rightarrow> string" where
  "access_message req resp elapsed =
     method_text (req_method req) @ '' '' @ path_view req @ '' -> '' @ int_text (response_status resp)
       @ '' in '' @ dec_string elapsed @ ''us''"

definition logger :: "logger_config \<Rightarrow> (('ty, 'v) request_impl, 's log_env) middleware" where
  "logger cfg req nxt s =
     (if path_view req \<in> set (exclude_paths cfg) then nxt req s
      else let start = steady_us s;
               (resp, s1) = nxt req s;
               elapsed = steady_us s1 - start
           in (resp, write_request_log (Some req) (access_level cfg elapsed) (access_message req resp elapsed)
                 (Some (response_status resp)) (Some (int elapsed)) s1))"

text \<open>The record one request leaves.\<close>

definition access_record :: "logger_config \<Rightarrow> ('ty, 'v) request_impl \<Rightarrow> response \<Rightarrow> nat \<Rightarrow> utc_time \<Rightarrow> log_record" where
  "access_record cfg req resp elapsed now = \<lparr>lg_timestamp = now, lg_level = access_level cfg elapsed,
     lg_message = access_message req resp elapsed, lg_request = Some (request_fields req),
     lg_status_code = Some (response_status resp), lg_duration = Some (int elapsed)\<rparr>"

text \<open>
  The middleware passes the response on unchanged, touches nothing but the log, and leaves exactly one
  record per request that is not excluded, provided the writer takes it.
\<close>

lemma logger_transparent:
  assumes "nxt req s = (resp, s1)"
  shows "fst (logger cfg req nxt s) = resp \<and> rest_state (snd (logger cfg req nxt s)) = rest_state s1
    \<and> (path_view req \<in> set (exclude_paths cfg) \<longrightarrow> snd (logger cfg req nxt s) = s1)"
  using assms by (simp add: logger_def write_request_log_def submit_record_def Let_def split: option.split)

lemma logger_one_record:
  assumes "nxt req s = (resp, s1)" "path_view req \<notin> set (exclude_paths cfg)" "slot s1 = Some w"
    and "accepts (lw_config w) (access_level cfg (steady_us s1 - steady_us s))" "lock_free s1"
    and "length (lw_queue w) < unat (lc_queue_capacity (lw_config w))"
  shows "\<exists>w'. slot (snd (logger cfg req nxt s)) = Some w'
    \<and> lw_queue w' = lw_queue w @ [access_record cfg req resp (steady_us s1 - steady_us s) (utc_now s1)]"
  using assms by (simp add: logger_def write_request_log_def submit_record_def lw_enqueue_def access_record_def Let_def)

end
