(* ===== verification/Static_Files.thy ===== *)
theory Static_Files
  imports Request
begin

text \<open>
  The static file middleware, \<^verbatim>\<open>src/http/static_files.cpp\<close>. A file system path is the list of its
  components, as \<^verbatim>\<open>std::filesystem::path\<close> iterates over it; the file system itself is a record of
  functions, the queries the code makes, which may answer anything (symbolic links included). The
  answers do not change while one request is served.
\<close>

type_synonym fs_path = "string list"

datatype fs_error = PermissionDenied | OtherError

record filesystem =
  fs_canonical :: "fs_path \<Rightarrow> fs_path option"
  fs_weakly_canonical :: "fs_path \<Rightarrow> fs_path option"
  fs_is_directory :: "fs_path \<Rightarrow> bool \<times> fs_error option"
  fs_is_regular_file :: "fs_path \<Rightarrow> bool \<times> fs_error option"
  fs_file_size :: "fs_path \<Rightarrow> fs_error + nat"
  fs_read :: "fs_path \<Rightarrow> string option"

datatype root_path = EmptyRoot | RelativeRoot fs_path | AbsoluteRoot fs_path

record static_config =
  cfg_root :: root_path
  cfg_url_prefix :: string
  cfg_index_file :: string
  cfg_mime_overrides :: "(string \<times> string) list"

record static_state =
  canonical_root :: fs_path
  url_prefix :: string
  index_file :: string
  mime_overrides :: "(string \<times> string) list"

datatype resolution_error = RForbidden | RNotFound

definition slash :: char where "slash = CHR ''/''"

definition is_ascii_control :: "char \<Rightarrow> bool" where
  "is_ascii_control ch \<longleftrightarrow> of_char ch < (0x20 :: nat) \<or> of_char ch = (0x7F :: nat)"

definition is_hex_digit :: "char \<Rightarrow> bool" where
  "is_hex_digit ch \<longleftrightarrow> (let v = of_char ch :: nat in 48 \<le> v \<and> v \<le> 57 \<or> 97 \<le> v \<and> v \<le> 102 \<or> 65 \<le> v \<and> v \<le> 70)"

definition hex_value_of :: "char \<Rightarrow> nat" where
  "hex_value_of ch = (let v = of_char ch in
     if 48 \<le> v \<and> v \<le> 57 then v - 48 else if 97 \<le> v \<and> v \<le> 102 then v - 97 + 10 else v - 65 + 10)"

definition has_invalid_url_path_char :: "string \<Rightarrow> bool" where
  "has_invalid_url_path_char s = list_ex (\<lambda>ch. ch = CHR ''?'' \<or> ch = CHR ''#'' \<or> ch = CHR 0x5C \<or> is_ascii_control ch) s"

text \<open>The segments both loops over \<^verbatim>\<open>find('/')\<close> visit.\<close>

function path_segments :: "string \<Rightarrow> string list" where
  "path_segments s =
     (let rest = from_first slash s in
      if rest = [] then [s] else before slash s # path_segments (tl rest))"
  by pat_completeness auto
termination
  by (relation "measure length") (simp_all add: length_drop_from_first)

declare path_segments.simps [simp del]

definition is_dot_segment :: "string \<Rightarrow> bool" where
  "is_dot_segment s \<longleftrightarrow> s = ''.'' \<or> s = ''..''"

definition has_path_dot_segment :: "string \<Rightarrow> bool" where
  "has_path_dot_segment p = list_ex is_dot_segment (path_segments p)"

function normalize_url_prefix :: "string \<Rightarrow> string" where
  "normalize_url_prefix p = (if length p > 1 \<and> last p = slash then normalize_url_prefix (butlast p) else p)"
  by pat_completeness auto
termination by (relation "measure length") auto

declare normalize_url_prefix.simps [simp del]

definition is_valid_url_prefix :: "string \<Rightarrow> bool" where
  "is_valid_url_prefix p =
     (if p = [] \<or> hd p \<noteq> slash then False
      else if has_invalid_url_path_char p then False
      else \<not> has_path_dot_segment p)"

definition is_valid_index_file :: "string \<Rightarrow> bool" where
  "is_valid_index_file f =
     (if f = [] then True
      else if f = ''.'' \<or> f = ''..'' then False
      else \<not> list_ex (\<lambda>ch. ch = slash \<or> ch = CHR 0x5C \<or> ch = CHR '':'' \<or> is_ascii_control ch) f)"

definition is_valid_mime_key :: "string \<Rightarrow> bool" where
  "is_valid_mime_key k =
     (if length k < 2 \<or> hd k \<noteq> CHR ''.'' then False
      else list_all (\<lambda>ch. (let v = of_char ch :: nat in 97 \<le> v \<and> v \<le> 122 \<or> 48 \<le> v \<and> v \<le> 57)
        \<or> ch = CHR ''.'' \<or> ch = CHR ''+'' \<or> ch = CHR ''-'') k)"

definition is_valid_mime_value :: "string \<Rightarrow> bool" where
  "is_valid_mime_value v = (if v = [] then False else \<not> list_ex is_ascii_control v)"

definition sf_prefix_matches :: "string \<Rightarrow> string \<Rightarrow> bool" where
  "sf_prefix_matches path prefix =
     (if prefix = [slash] then starts_with path [slash]
      else starts_with path prefix \<and> (length path = length prefix \<or> path ! length prefix = slash))"

definition strip_prefix :: "string \<Rightarrow> string \<Rightarrow> string" where
  "strip_prefix path prefix =
     (if prefix = [slash] then path
      else let remainder = drop (length prefix) path in if remainder = [] then [slash] else remainder)"

definition forbidden_char :: "char \<Rightarrow> bool" where
  "forbidden_char ch \<longleftrightarrow> ch = CHR 0x5C \<or> ch = CHR '':'' \<or> is_ascii_control ch"

fun percent_decode_path :: "string \<Rightarrow> string option" where
  "percent_decode_path [] = Some []"
| "percent_decode_path (ch # rest) =
     (if ch \<noteq> CHR ''%'' then
        (if forbidden_char ch then None else map_option ((#) ch) (percent_decode_path rest))
      else (case rest of
         a # b # rest' \<Rightarrow>
           if \<not> is_hex_digit a \<or> \<not> is_hex_digit b then None
           else (let decoded = char_of (hex_value_of a * 16 + hex_value_of b) in
             if forbidden_char decoded then None else map_option ((#) decoded) (percent_decode_path rest'))
       | _ \<Rightarrow> None))"

definition split_validated_segments :: "string \<Rightarrow> string list" where
  "split_validated_segments p = filter (\<lambda>s. s \<noteq> []) (path_segments p)"

fun is_within_root :: "fs_path \<Rightarrow> fs_path \<Rightarrow> bool" where
  "is_within_root [] candidate = True"
| "is_within_root (r # root) [] = False"
| "is_within_root (r # root) (c # candidate) = (if r \<noteq> c then False else is_within_root root candidate)"

definition resolve_candidate :: "filesystem \<Rightarrow> static_state \<Rightarrow> fs_path \<Rightarrow> resolution_error + fs_path" where
  "resolve_candidate fs st candidate = (case fs_weakly_canonical fs candidate of
      None \<Rightarrow> Inl RNotFound
    | Some resolved \<Rightarrow> if \<not> is_within_root (canonical_root st) resolved then Inl RForbidden else Inr resolved)"

definition is_permission_denied :: "fs_error option \<Rightarrow> bool" where
  "is_permission_denied ec \<longleftrightarrow> ec = Some PermissionDenied"

fun add_segments :: "fs_path \<Rightarrow> string list \<Rightarrow> resolution_error + fs_path" where
  "add_segments candidate [] = Inr candidate"
| "add_segments candidate (seg # segs) =
     (if seg = ''.'' \<or> seg = ''..'' then Inl RForbidden else add_segments (candidate @ [seg]) segs)"

definition resolve_directory :: "filesystem \<Rightarrow> static_state \<Rightarrow> fs_path \<Rightarrow> resolution_error + fs_path" where
  "resolve_directory fs st resolved = (case fs_is_directory fs resolved of
      (False, ec) \<Rightarrow> Inr resolved
    | (True, ec) \<Rightarrow>
        if is_permission_denied ec then Inl RForbidden
        else if ec \<noteq> None then Inl RNotFound
        else if index_file st = [] then Inl RNotFound
        else resolve_candidate fs st (resolved @ [index_file st]))"

definition require_regular :: "filesystem \<Rightarrow> fs_path \<Rightarrow> resolution_error + fs_path" where
  "require_regular fs resolved = (case fs_is_regular_file fs resolved of
      (True, ec) \<Rightarrow> Inr resolved
    | (False, ec) \<Rightarrow> if is_permission_denied ec then Inl RForbidden else Inl RNotFound)"

definition resolve_request_path :: "filesystem \<Rightarrow> static_state \<Rightarrow> string \<Rightarrow> resolution_error + fs_path" where
  "resolve_request_path fs st request_path = (case percent_decode_path request_path of
      None \<Rightarrow> Inl RForbidden
    | Some decoded \<Rightarrow> (case add_segments (canonical_root st) (split_validated_segments decoded) of
        Inl e \<Rightarrow> Inl e
      | Inr candidate \<Rightarrow> (case resolve_candidate fs st candidate of
          Inl e \<Rightarrow> Inl e
        | Inr resolved \<Rightarrow> (case resolve_directory fs st resolved of
            Inl e \<Rightarrow> Inl e
          | Inr resolved \<Rightarrow> require_regular fs resolved))))"

subsection \<open>Content type and body\<close>

definition path_extension :: "fs_path \<Rightarrow> string" where
  "path_extension p = (if p = [] then [] else
     let name = last p; tail = takeWhile (\<lambda>c. c \<noteq> CHR ''.'') (rev name) in
     if name = ''.'' \<or> name = ''..'' \<or> length tail = length name \<or> length tail + 1 = length name then []
     else CHR ''.'' # rev tail)"

definition kDefaults :: "(string \<times> string) list" where
  "kDefaults =
     [(''.html'', ''text/html''), (''.htm'', ''text/html''), (''.css'', ''text/css''),
      (''.js'', ''application/javascript''), (''.mjs'', ''application/javascript''),
      (''.json'', ''application/json''), (''.png'', ''image/png''), (''.jpg'', ''image/jpeg''),
      (''.jpeg'', ''image/jpeg''), (''.gif'', ''image/gif''), (''.svg'', ''image/svg+xml''),
      (''.ico'', ''image/x-icon''), (''.woff2'', ''font/woff2''), (''.txt'', ''text/plain''),
      (''.pdf'', ''application/pdf'')]"

definition default_mime_type :: "string \<Rightarrow> string" where
  "default_mime_type extension = (case map_of kDefaults extension of
     None \<Rightarrow> ''application/octet-stream'' | Some m \<Rightarrow> m)"

definition mime_type_for :: "static_state \<Rightarrow> fs_path \<Rightarrow> string" where
  "mime_type_for st p = (let extension = map ascii_lower (path_extension p) in
     case map_of (mime_overrides st) extension of Some m \<Rightarrow> m | None \<Rightarrow> default_mime_type extension)"

definition read_file_size :: "filesystem \<Rightarrow> fs_path \<Rightarrow> resolution_error + nat" where
  "read_file_size fs p = (case fs_file_size fs p of
      Inr sz \<Rightarrow> Inr sz
    | Inl ec \<Rightarrow> if is_permission_denied (Some ec) then Inl RForbidden else Inl RNotFound)"

text \<open>The size was read before; a file that has become shorter is refused, a longer one cut.\<close>

definition read_file_body :: "filesystem \<Rightarrow> fs_path \<Rightarrow> nat \<Rightarrow> string option" where
  "read_file_body fs p sz =
     (if sz \<ge> 2 ^ 64 then None
      else case fs_read fs p of
        None \<Rightarrow> None
      | Some content \<Rightarrow> if length content < sz then None else Some (take sz content))"

definition response_for_resolution_error :: "resolution_error \<Rightarrow> response" where
  "response_for_resolution_error e = (if e = RForbidden then forbidden [] else not_found [])"

subsection \<open>Configuration\<close>

definition make_state :: "filesystem \<Rightarrow> static_config \<Rightarrow> StaticFilesConfigError + static_state" where
  "make_state fs cfg = (case cfg_root cfg of
      EmptyRoot \<Rightarrow> Inl RootEmpty
    | RelativeRoot p \<Rightarrow> Inl RootRelative
    | AbsoluteRoot p \<Rightarrow> (case fs_canonical fs p of
        None \<Rightarrow> Inl RootNotFound
      | Some root \<Rightarrow>
          if \<not> fst (fs_is_directory fs root) \<or> snd (fs_is_directory fs root) \<noteq> None then Inl RootNotDirectory
          else if \<not> is_valid_url_prefix (cfg_url_prefix cfg) then Inl InvalidUrlPrefix
          else if \<not> is_valid_index_file (cfg_index_file cfg) then Inl InvalidIndexFile
          else if list_ex (\<lambda>(k, v). \<not> is_valid_mime_key k \<or> \<not> is_valid_mime_value v) (cfg_mime_overrides cfg)
            then Inl InvalidMimeOverride
          else Inr \<lparr>canonical_root = root, url_prefix = normalize_url_prefix (cfg_url_prefix cfg),
                     index_file = cfg_index_file cfg, mime_overrides = cfg_mime_overrides cfg\<rparr>))"

subsection \<open>The middleware\<close>

definition serve_file :: "filesystem \<Rightarrow> static_state \<Rightarrow> HttpMethod \<Rightarrow> string \<Rightarrow> response" where
  "serve_file fs st method path =
     (if method \<noteq> GET \<and> method \<noteq> HEAD then set_header ''Allow'' ''GET, HEAD'' (method_not_allowed [])
      else case resolve_request_path fs st (strip_prefix path (url_prefix st)) of
        Inl e \<Rightarrow> response_for_resolution_error e
      | Inr resolved \<Rightarrow> (case read_file_size fs resolved of
          Inl e \<Rightarrow> response_for_resolution_error e
        | Inr file_size \<Rightarrow>
            (let content_length = dec_string file_size; mime_type = mime_type_for st resolved in
             if method = HEAD then set_header ''Content-Length'' content_length (set_content_type mime_type (ok []))
             else case read_file_body fs resolved file_size of
               None \<Rightarrow> not_found []
             | Some body \<Rightarrow> set_header ''Content-Length'' content_length (set_content_type mime_type (ok body)))))"

definition static_files :: "filesystem \<Rightarrow> static_state \<Rightarrow> ('ty, 'v) request_impl
    \<Rightarrow> (('ty, 'v) request_impl \<Rightarrow> 's \<Rightarrow> response \<times> 's) \<Rightarrow> 's \<Rightarrow> response \<times> 's" where
  "static_files fs st req nxt s =
     (if \<not> sf_prefix_matches (path_view req) (url_prefix st) then nxt req s
      else (serve_file fs st (req_method req) (path_view req), s))"

subsection \<open>Confinement\<close>

lemma is_within_root_iff: "is_within_root root p \<longleftrightarrow> (\<exists>rest. p = root @ rest)"
  by (induction root p rule: is_within_root.induct) auto

lemma path_segments_no_slash: "list_all (\<lambda>s. slash \<notin> set s) (path_segments s)"
proof (induction s rule: path_segments.induct)
  case (1 s)
  then show ?case by (subst path_segments.simps) (simp add: Let_def from_first_Nil_iff)
qed

lemma segments_chars: "c \<in> set seg \<Longrightarrow> seg \<in> set (path_segments s) \<Longrightarrow> c \<in> set s"
proof (induction s rule: path_segments.induct)
  case (1 s)
  have sub: "set (before slash s) \<subseteq> set s" "set (from_first slash s) \<subseteq> set s"
    by (auto simp: before_def from_first_def dest: set_takeWhileD set_dropWhileD)
  show ?case
  proof (cases "from_first slash s = []")
    case True
    with 1 show ?thesis by (simp add: path_segments.simps [of s] Let_def)
  next
    case False
    have "set (tl (from_first slash s)) \<subseteq> set s" using sub(2) by (cases "from_first slash s") auto
    with False 1 sub(1) show ?thesis by (auto simp: path_segments.simps [of s] Let_def)
  qed
qed

lemma decoded_chars: "percent_decode_path s = Some d \<Longrightarrow> list_all (\<lambda>c. \<not> forbidden_char c) d"
  by (induction s arbitrary: d rule: percent_decode_path.induct)
     (auto simp: Let_def split: if_splits list.splits)

text \<open>A segment that can name nothing but an entry of its directory.\<close>

definition safe_segment :: "string \<Rightarrow> bool" where
  "safe_segment s \<longleftrightarrow> s \<noteq> [] \<and> s \<noteq> ''.'' \<and> s \<noteq> ''..'' \<and> slash \<notin> set s \<and> list_all (\<lambda>c. \<not> forbidden_char c) s"

lemma add_segments_iff:
  "add_segments root segs = (if list_ex is_dot_segment segs then Inl RForbidden else Inr (root @ segs))"
  by (induction segs arbitrary: root) (auto simp: is_dot_segment_def)

lemma resolve_candidate_Inr:
  "resolve_candidate fs st c = Inr p \<Longrightarrow> fs_weakly_canonical fs c = Some p \<and> (\<exists>rest. p = canonical_root st @ rest)"
  by (auto simp: resolve_candidate_def is_within_root_iff split: option.splits if_splits)

definition resolved_from :: "filesystem \<Rightarrow> static_state \<Rightarrow> string list \<Rightarrow> fs_path \<Rightarrow> bool" where
  "resolved_from fs st segs p \<longleftrightarrow>
     (fs_weakly_canonical fs (canonical_root st @ segs) = Some p
      \<or> (\<exists>d rest. fs_weakly_canonical fs (canonical_root st @ segs) = Some d \<and> d = canonical_root st @ rest
          \<and> fst (fs_is_directory fs d) \<and> fs_weakly_canonical fs (d @ [index_file st]) = Some p))"

lemma resolve_confined:
  assumes "resolve_request_path fs st rp = Inr p"
  shows "\<exists>segs rest. list_all safe_segment segs \<and> resolved_from fs st segs p
    \<and> p = canonical_root st @ rest \<and> fst (fs_is_regular_file fs p)"
proof -
  obtain d where d: "percent_decode_path rp = Some d"
    using assms by (auto simp: resolve_request_path_def split: option.splits)
  define segs where "segs = split_validated_segments d"
  from assms d obtain c r0 r1 where
    s: "add_segments (canonical_root st) segs = Inr c" "resolve_candidate fs st c = Inr r0"
      "resolve_directory fs st r0 = Inr r1" "require_regular fs r1 = Inr p"
    by (auto simp: resolve_request_path_def segs_def split: sum.splits)
  have c: "c = canonical_root st @ segs" "\<not> list_ex is_dot_segment segs"
    using s(1) by (auto simp: add_segments_iff split: if_splits)
  have "list_all safe_segment segs"
    using c(2) path_segments_no_slash [of d] decoded_chars [OF d] segments_chars [of _ _ d]
    by (auto simp: segs_def split_validated_segments_def safe_segment_def is_dot_segment_def list_all_iff list_ex_iff)
  moreover have r0: "fs_weakly_canonical fs (canonical_root st @ segs) = Some r0" "\<exists>rest. r0 = canonical_root st @ rest"
    using resolve_candidate_Inr [OF s(2)] c(1) by auto
  moreover have p: "p = r1" "fst (fs_is_regular_file fs p)"
    using s(4) by (auto simp: require_regular_def split: prod.splits bool.splits if_splits)
  moreover have "resolved_from fs st segs p \<and> (\<exists>rest. p = canonical_root st @ rest)"
  proof (cases "fst (fs_is_directory fs r0)")
    case True
    then have "resolve_candidate fs st (r0 @ [index_file st]) = Inr r1"
      using s(3) by (auto simp: resolve_directory_def split: prod.splits bool.splits if_splits)
    from resolve_candidate_Inr [OF this] True r0 p(1) show ?thesis by (auto simp: resolved_from_def)
  next
    case False
    then have "r1 = r0" using s(3) by (auto simp: resolve_directory_def split: prod.splits bool.splits)
    with r0 p(1) show ?thesis by (auto simp: resolved_from_def)
  qed
  ultimately show ?thesis by blast
qed

subsection \<open>What is served\<close>

lemmas response_simps = set_header_def set_content_type_def ok_def not_found_def forbidden_def
  method_not_allowed_def make_response_def response_status_def body_view_def get_header_def status_consts

text \<open>
  Claim C34. No request reads outside the served directory: under a matching prefix the next handler
  is not called and the status is 200, 403, 404 or 405; a 200 is a regular file that lies under the
  canonical root, reached from it through entries that name no separator, no dot segment and no
  control character (or as the index file of such a directory), and its body is the file's content.
\<close>

theorem static_files_confined:
  assumes "static_files fs st req nxt s = (r, s')"
    and "sf_prefix_matches (path_view req) (url_prefix st)"
  shows "s' = s \<and> response_status r \<in> {200, 403, 404, 405} \<and>
    (response_status r = 200 \<longrightarrow> (\<exists>segs rest p n.
       list_all safe_segment segs \<and> resolved_from fs st segs p \<and> p = canonical_root st @ rest
       \<and> fst (fs_is_regular_file fs p) \<and> fs_file_size fs p = Inr n
       \<and> get_header ''Content-Length'' r = Some (dec_string n)
       \<and> (if req_method req = HEAD then body_view r = []
          else \<exists>content. fs_read fs p = Some content \<and> n \<le> length content \<and> body_view r = take n content)))"
proof -
  let ?rp = "strip_prefix (path_view req) (url_prefix st)"
  have r: "r = serve_file fs st (req_method req) (path_view req)" "s' = s"
    using assms by (auto simp: static_files_def)
  show ?thesis
  proof (cases "resolve_request_path fs st ?rp")
    case (Inl e)
    then show ?thesis
      using r by (auto simp: serve_file_def response_for_resolution_error_def response_simps)
  next
    case (Inr p)
    from resolve_confined [OF Inr] obtain segs rest where c: "list_all safe_segment segs"
      "resolved_from fs st segs p" "p = canonical_root st @ rest" "fst (fs_is_regular_file fs p)" by blast
    show ?thesis
    proof (cases "read_file_size fs p")
      case e: (Inl e)
      then show ?thesis
        using r Inr by (auto simp: serve_file_def response_for_resolution_error_def response_simps)
    next
      case n: (Inr n)
      then have sz: "fs_file_size fs p = Inr n" by (auto simp: read_file_size_def split: sum.splits if_splits)
      have st: "response_status r \<in> {200, 403, 404, 405}"
        and hd: "response_status r = 200 \<longrightarrow> get_header ''Content-Length'' r = Some (dec_string n)
          \<and> (if req_method req = HEAD then body_view r = []
            else \<exists>content. fs_read fs p = Some content \<and> n \<le> length content \<and> body_view r = take n content)"
        using r(1) Inr n
        by (auto simp: serve_file_def read_file_body_def response_simps Let_def AList.update_conv'
            split: option.splits if_splits)
      show ?thesis using r(2) st hd c sz by blast
    qed
  qed
qed

definition sample_fs :: filesystem where
  "sample_fs = \<lparr>fs_canonical = Some, fs_weakly_canonical = Some,
     fs_is_directory = (\<lambda>p. (p = [''/'', ''srv''], None)),
     fs_is_regular_file = (\<lambda>p. (p = [''/'', ''srv'', ''a b.txt''], None)),
     fs_file_size = (\<lambda>p. if p = [''/'', ''srv'', ''a b.txt''] then Inr 2 else Inl OtherError),
     fs_read = (\<lambda>p. if p = [''/'', ''srv'', ''a b.txt''] then Some ''hi'' else None)\<rparr>"

definition sample_static :: static_state where
  "sample_static = \<lparr>canonical_root = [''/'', ''srv''], url_prefix = ''/s'', index_file = ''index.html'',
     mime_overrides = []\<rparr>"
definition sample_get :: "string \<Rightarrow> (nat, nat) request_impl" where
  "sample_get target = make_request (default_request\<lparr>pr_method := ''GET'', pr_target := target\<rparr>) Map.empty"

definition sample_response :: response where
  "sample_response = Some \<lparr>status_code = 200, resp_body = ''hi'',
     resp_headers = [(''Content-Type'', ''text/plain''), (''Content-Length'', ''2'')]\<rparr>"

lemma sample_get_simps [simp]:
  "path_view (sample_get ''/s/a%20b.txt'') = ''/s/a%20b.txt''"
  "req_method (sample_get ''/s/a%20b.txt'') = GET"
  by (simp_all add: sample_get_def make_request_def from_first_def before_def req_method_def Let_def)

lemma sample_fs_simps:
  "fs_weakly_canonical sample_fs = Some" "fs_is_directory sample_fs p = (p = [''/'', ''srv''], None)"
  "fs_is_regular_file sample_fs p = (p = [''/'', ''srv'', ''a b.txt''], None)"
  "fs_file_size sample_fs [''/'', ''srv'', ''a b.txt''] = Inr 2"
  "fs_read sample_fs [''/'', ''srv'', ''a b.txt''] = Some ''hi''"
  by (simp_all add: sample_fs_def)

lemma sample_resolve:
  "resolve_request_path sample_fs sample_static (strip_prefix ''/s/a%20b.txt'' (url_prefix sample_static))
     = Inr [''/'', ''srv'', ''a b.txt'']"
  "mime_type_for sample_static [''/'', ''srv'', ''a b.txt''] = ''text/plain''"
  "sf_prefix_matches ''/s/a%20b.txt'' (url_prefix sample_static)" "dec_string 2 = ''2''"
  by code_simp+

lemma sample_static_run:
  "static_files sample_fs sample_static (sample_get ''/s/a%20b.txt'') (\<lambda>_ s. (None, s)) (0 :: nat) = (sample_response, 0)"
  by (simp add: static_files_def serve_file_def sample_resolve read_file_size_def read_file_body_def
      sample_fs_simps sample_response_def response_simps)

theorem static_files_confined_witness:
  "\<exists>segs rest p n. list_all safe_segment segs \<and> resolved_from sample_fs sample_static segs p
     \<and> p = [''/'', ''srv''] @ rest \<and> fs_file_size sample_fs p = Inr n \<and> get_header ''Content-Length'' sample_response = Some (dec_string n)"
proof -
  have "sf_prefix_matches (path_view (sample_get ''/s/a%20b.txt'')) (url_prefix sample_static)"
    by (simp add: sample_resolve)
  note c = static_files_confined [OF sample_static_run this]
  have "response_status sample_response = 200" "canonical_root sample_static = [''/'', ''srv'']"
    by (simp_all add: sample_response_def sample_static_def response_status_def)
  then show ?thesis using c by metis
qed

subsection \<open>What a client can ask for\<close>

text \<open>
  The encodings of a path under RFC 3986: every octet but the percent sign may stand for itself, and every
  octet may be written as two hexadecimal digits of either case. The relation uses nothing of the
  program; a slash inside the path may be encoded like any other octet.
\<close>

definition hex_digit_of :: "char \<Rightarrow> nat \<Rightarrow> bool" where
  "hex_digit_of c n \<longleftrightarrow> n < 16 \<and> (c = ''0123456789ABCDEF'' ! n \<or> c = ''0123456789abcdef'' ! n)"

inductive pct_encoding :: "string \<Rightarrow> string \<Rightarrow> bool" where
  enc_end: "pct_encoding [] []"
| enc_plain: "c \<noteq> CHR ''%'' \<Longrightarrow> pct_encoding e s \<Longrightarrow> pct_encoding (c # e) (c # s)"
| enc_hex: "hex_digit_of a h \<Longrightarrow> hex_digit_of b l \<Longrightarrow> of_char c = 16 * h + l \<Longrightarrow> pct_encoding e s \<Longrightarrow>
    pct_encoding (CHR ''%'' # a # b # e) (c # s)"

fun path_text :: "string list \<Rightarrow> string" where
  "path_text [] = []"
| "path_text [name] = name"
| "path_text (name # names) = name @ CHR ''/'' # path_text names"

text \<open>
  The names the middleware serves: the ones a file system may refuse or read otherwise elsewhere (a drive, a
  separator of another system, a control character) are left out.
\<close>

definition servable_name :: "string \<Rightarrow> bool" where
  "servable_name name \<longleftrightarrow> name \<notin> {[], ''.'', ''..''}
     \<and> (\<forall>c \<in> set name. c \<notin> {CHR ''/'', CHR 0x5C, CHR '':''} \<and> 32 \<le> (of_char c :: nat) \<and> of_char c \<noteq> (127 :: nat))"

text \<open>
  The media type of a name, from its extension: what follows the last dot, unless that dot is the first
  character, in lower case and with its dot.
\<close>

fun after_last_dot :: "string \<Rightarrow> string option" where
  "after_last_dot [] = None"
| "after_last_dot (c # s) = (case after_last_dot s of
     Some e \<Rightarrow> Some e | None \<Rightarrow> if c = CHR ''.'' then Some s else None)"

definition name_extension :: "string \<Rightarrow> string" where
  "name_extension name = (if name = ''..'' then [] else case after_last_dot (tl name) of
     None \<Rightarrow> [] | Some e \<Rightarrow> CHR ''.'' # map ascii_lower e)"

definition media_type :: "string \<Rightarrow> string" where
  "media_type ext =
     (if ext \<in> {''.html'', ''.htm''} then ''text/html''
      else if ext = ''.css'' then ''text/css''
      else if ext \<in> {''.js'', ''.mjs''} then ''application/javascript''
      else if ext = ''.json'' then ''application/json''
      else if ext = ''.png'' then ''image/png''
      else if ext \<in> {''.jpg'', ''.jpeg''} then ''image/jpeg''
      else if ext = ''.gif'' then ''image/gif''
      else if ext = ''.svg'' then ''image/svg+xml''
      else if ext = ''.ico'' then ''image/x-icon''
      else if ext = ''.woff2'' then ''font/woff2''
      else if ext = ''.txt'' then ''text/plain''
      else if ext = ''.pdf'' then ''application/pdf''
      else ''application/octet-stream'')"

definition name_media_type :: "(string \<times> string) list \<Rightarrow> string \<Rightarrow> string" where
  "name_media_type overrides name = (case map_of overrides (name_extension name) of
     Some t \<Rightarrow> t | None \<Rightarrow> media_type (name_extension name))"

lemma servable_name_iff: "servable_name name \<longleftrightarrow> safe_segment name"
  by (auto simp: servable_name_def safe_segment_def list_all_iff forbidden_char_def is_ascii_control_def slash_def not_less)

lemma after_last_dot_takeWhile:
  "after_last_dot s = (if CHR ''.'' \<in> set s then Some (rev (takeWhile (\<lambda>c. c \<noteq> CHR ''.'') (rev s))) else None)"
  by (induction s) (auto simp: takeWhile_append takeWhile_eq_all_conv)

lemma name_extension_path: "p \<noteq> [] \<Longrightarrow> map ascii_lower (path_extension p) = name_extension (last p)"
proof -
  assume p: "p \<noteq> []"
  obtain c s where n: "last p = [] \<or> last p = c # s" by (cases "last p") auto
  let ?t = "takeWhile (\<lambda>c. c \<noteq> CHR ''.'') (rev s)"
  have in_s: "takeWhile (\<lambda>c. c \<noteq> CHR ''.'') (rev s @ [c]) = ?t" "length ?t < length s" if "CHR ''.'' \<in> set s"
  proof -
    show "takeWhile (\<lambda>c. c \<noteq> CHR ''.'') (rev s @ [c]) = ?t" using that by (auto simp: takeWhile_append)
    have "?t \<noteq> rev s" using that by (auto simp: takeWhile_eq_all_conv)
    then show "length ?t < length s" by (metis length_rev length_takeWhile_le order_le_less takeWhile_eq_take take_all)
  qed
  have out_s: "takeWhile (\<lambda>c. c \<noteq> CHR ''.'') (rev s @ [c]) = rev s @ (if c = CHR ''.'' then [] else [c])" if "CHR ''.'' \<notin> set s"
    using that by (auto simp: takeWhile_append)
  have lo: "ascii_lower (CHR ''.'') = CHR ''.''" by (simp add: ascii_lower_def)
  from n show ?thesis
  proof
    assume "last p = []"
    with p show ?thesis by (simp add: path_extension_def name_extension_def Let_def)
  next
    assume l: "last p = c # s"
    show ?thesis
    proof (cases "CHR ''.'' \<in> set s")
      case True
      then have "c # s \<noteq> ''.''" by auto
      with True p in_s [OF True] lo show ?thesis
        by (simp add: path_extension_def name_extension_def l after_last_dot_takeWhile Let_def rev_map)
    next
      case False
      with p out_s [OF False] show ?thesis
        by (simp add: path_extension_def name_extension_def l after_last_dot_takeWhile Let_def)
    qed
  qed
qed

lemma media_type_default: "default_mime_type ext = media_type ext"
  by (simp add: default_mime_type_def kDefaults_def media_type_def)

lemma mime_type_for_name: "p \<noteq> [] \<Longrightarrow> mime_type_for st p = name_media_type (mime_overrides st) (last p)"
  by (simp add: mime_type_for_def name_media_type_def name_extension_path media_type_default Let_def split: option.split)

lemma hex_digit_table:
  "list_all (\<lambda>n. list_all (\<lambda>c. is_hex_digit c \<and> hex_value_of c = n) [''0123456789ABCDEF'' ! n, ''0123456789abcdef'' ! n]) [0..<16]"
  by (simp add: upt_rec [of _ 16] is_hex_digit_def hex_value_of_def Let_def)

lemma hex_digit_of_value: "hex_digit_of c n \<Longrightarrow> is_hex_digit c \<and> hex_value_of c = n"
  using hex_digit_table by (auto simp: list_all_iff hex_digit_of_def simp del: upt_rec_numeral)

lemma decode_encoding:
  "pct_encoding e s \<Longrightarrow> percent_decode_path e = (if list_all (\<lambda>c. \<not> forbidden_char c) s then Some s else None)"
proof (induction rule: pct_encoding.induct)
  case (enc_hex a h b l c e s)
  have "char_of (16 * h + l) = c" by (simp flip: enc_hex(3))
  then have "char_of (hex_value_of a * 16 + hex_value_of b) = c"
    using hex_digit_of_value [OF enc_hex(1)] hex_digit_of_value [OF enc_hex(2)] by (simp add: mult.commute)
  with enc_hex hex_digit_of_value [OF enc_hex(1)] hex_digit_of_value [OF enc_hex(2)] show ?case
    by (auto simp: Let_def)
qed auto

lemma path_segments_Cons: "slash \<notin> set s \<Longrightarrow> path_segments (s @ slash # r) = s # path_segments r"
  by (subst path_segments.simps) (simp add: from_first_append before_append)

lemma path_segments_last: "slash \<notin> set s \<Longrightarrow> path_segments s = [s]"
  by (subst path_segments.simps) (simp add: from_first_nodelim)

lemma path_segments_text:
  "segs \<noteq> [] \<Longrightarrow> list_all (\<lambda>s. slash \<notin> set s) segs \<Longrightarrow> path_segments (path_text segs) = segs"
  by (induction segs rule: path_text.induct) (auto simp: path_segments_last path_segments_Cons [unfolded slash_def] slash_def)

lemma split_text:
  assumes "segs \<noteq> []" "list_all (\<lambda>s. s \<noteq> [] \<and> slash \<notin> set s) segs"
  shows "split_validated_segments (slash # path_text segs) = segs"
proof -
  have "path_segments ([] @ slash # path_text segs) = [] # segs"
    using assms by (subst path_segments_Cons) (auto simp: path_segments_text list_all_iff)
  then show ?thesis using assms(2) by (auto simp: split_validated_segments_def list_all_iff filter_id_conv)
qed

lemma text_chars:
  "list_all (\<lambda>c. \<not> forbidden_char c) (path_text segs) \<longleftrightarrow> list_all (list_all (\<lambda>c. \<not> forbidden_char c)) segs"
  by (induction segs rule: path_text.induct) (auto simp: forbidden_char_def is_ascii_control_def)

lemma resolve_encoded:
  assumes "pct_encoding e (path_text segs)" "segs \<noteq> []" "list_all (\<lambda>s. s \<noteq> [] \<and> slash \<notin> set s) segs"
  shows "resolve_request_path fs st (slash # e) =
    (if list_all safe_segment segs then
       (case resolve_candidate fs st (canonical_root st @ segs) of
          Inl x \<Rightarrow> Inl x
        | Inr resolved \<Rightarrow> (case resolve_directory fs st resolved of
            Inl x \<Rightarrow> Inl x
          | Inr resolved \<Rightarrow> require_regular fs resolved))
     else Inl RForbidden)"
proof -
  have f: "slash \<noteq> CHR ''%''" "\<not> forbidden_char slash" by (simp_all add: slash_def forbidden_char_def is_ascii_control_def)
  have d: "percent_decode_path (slash # e)
      = (if list_all (list_all (\<lambda>c. \<not> forbidden_char c)) segs then Some (slash # path_text segs) else None)"
    using decode_encoding [OF assms(1)] f by (simp add: text_chars)
  have "list_all safe_segment segs \<longleftrightarrow> list_all (list_all (\<lambda>c. \<not> forbidden_char c)) segs \<and> \<not> list_ex is_dot_segment segs"
    using assms(3) by (auto simp: safe_segment_def list_all_iff list_ex_iff is_dot_segment_def)
  then show ?thesis
    unfolding resolve_request_path_def d by (simp add: split_text [OF assms(2,3)] add_segments_iff)
qed

lemma strip_own_prefix:
  "strip_prefix ((if url_prefix st = [slash] then [] else url_prefix st) @ slash # e) (url_prefix st) = slash # e"
  "sf_prefix_matches ((if url_prefix st = [slash] then [] else url_prefix st) @ slash # e) (url_prefix st)"
  by (auto simp: strip_prefix_def sf_prefix_matches_def starts_with_def)


lemma sample_encoding: "pct_encoding ''a%20b.txt'' (path_text [''a b.txt''])"
  unfolding path_text.simps
  by (intro enc_plain enc_hex [where h = 2 and l = 0] enc_end) (simp_all add: hex_digit_of_def)


subsection \<open>The configuration\<close>

text \<open>The checks of \<open>make_state\<close>, in the order the documentation lists the errors.\<close>

definition config_checks :: "filesystem \<Rightarrow> static_config \<Rightarrow> (bool \<times> StaticFilesConfigError) list" where
  "config_checks fs cfg =
     (let root = (case cfg_root cfg of AbsoluteRoot p \<Rightarrow> fs_canonical fs p | _ \<Rightarrow> None) in
      [(cfg_root cfg \<noteq> EmptyRoot, RootEmpty),
       (\<exists>p. cfg_root cfg = AbsoluteRoot p, RootRelative),
       (root \<noteq> None, RootNotFound),
       (fs_is_directory fs (the root) = (True, None), RootNotDirectory),
       (is_valid_url_prefix (cfg_url_prefix cfg), InvalidUrlPrefix),
       (is_valid_index_file (cfg_index_file cfg), InvalidIndexFile),
       (\<forall>(k, v) \<in> set (cfg_mime_overrides cfg). is_valid_mime_key k \<and> is_valid_mime_value v, InvalidMimeOverride)])"

definition first_failing :: "(bool \<times> 'e) list \<Rightarrow> 'e option" where
  "first_failing checks = map_option snd (List.find (Not \<circ> fst) checks)"

text \<open>What the middleware relies on while it serves.\<close>

definition static_wf :: "filesystem \<Rightarrow> static_state \<Rightarrow> bool" where
  "static_wf fs st \<longleftrightarrow> fs_is_directory fs (canonical_root st) = (True, None)
     \<and> starts_with (url_prefix st) [slash] \<and> (last (url_prefix st) = slash \<longrightarrow> url_prefix st = [slash])
     \<and> (index_file st = [] \<or> safe_segment (index_file st))
     \<and> list_all (\<lambda>(k, v). is_valid_mime_key k \<and> v \<noteq> []) (mime_overrides st)"

lemma normalize_url_prefix_props:
  "p \<noteq> [] \<Longrightarrow> hd p = slash \<Longrightarrow> starts_with (normalize_url_prefix p) [slash]
     \<and> (last (normalize_url_prefix p) = slash \<longrightarrow> normalize_url_prefix p = [slash])"
proof (induction p rule: normalize_url_prefix.induct)
  case (1 p)
  show ?case
  proof (cases "length p > 1 \<and> last p = slash")
    case True
    then have "butlast p \<noteq> []" "hd (butlast p) = slash"
      using 1(3) by (cases p; auto)+
    then show ?thesis using 1(1) True by (subst (1 2 3) normalize_url_prefix.simps) simp
  next
    case False
    then have "normalize_url_prefix p = p" by (subst normalize_url_prefix.simps) auto
    then show ?thesis using False 1(2,3) by (cases p) (auto simp: starts_with_def neq_Nil_conv)
  qed
qed

text \<open>
  The configuration is checked completely and in the documented order: \<open>make_state\<close> refuses with
  the error of the first check that fails and with no other, and a state it does return has a
  directory as its root, a prefix that starts with a slash and ends with one only if it is the slash,
  and an index name that can only be an entry of the directory it is looked up in.
\<close>

lemma static_config_checked:
  "(case make_state fs cfg of
      Inl e \<Rightarrow> first_failing (config_checks fs cfg) = Some e
    | Inr st \<Rightarrow> first_failing (config_checks fs cfg) = None \<and> static_wf fs st)"
proof -
  have p: "starts_with (normalize_url_prefix u) [slash]"
    "last (normalize_url_prefix u) = slash \<Longrightarrow> normalize_url_prefix u = [slash]" if "is_valid_url_prefix u" for u
    using that normalize_url_prefix_props [of u] by (auto simp: is_valid_url_prefix_def split: if_splits)
  have i: "f = [] \<or> safe_segment f" if "is_valid_index_file f" for f
    using that by (auto simp: is_valid_index_file_def safe_segment_def forbidden_char_def list_ex_iff list_all_iff split: if_splits)
  have m: "list_ex (\<lambda>(k, v). \<not> is_valid_mime_key k \<or> \<not> is_valid_mime_value v) xs
      \<longleftrightarrow> \<not> (\<forall>(k, v) \<in> set xs. is_valid_mime_key k \<and> is_valid_mime_value v)" for xs
    by (auto simp: list_ex_iff)
  have v: "list_all (\<lambda>(k, v). is_valid_mime_key k \<and> v \<noteq> []) xs"
    if "\<forall>(k, v) \<in> set xs. is_valid_mime_key k \<and> is_valid_mime_value v" for xs
    using that by (auto simp: list_all_iff is_valid_mime_value_def)
  show ?thesis
    unfolding make_state_def m using p i v
    by (cases "cfg_root cfg")
       (auto simp: config_checks_def first_failing_def static_wf_def Let_def prod_eq_iff
         split: option.splits if_splits)
qed
end
