(* ===== verification/Traceparent.thy ===== *)
theory Traceparent
  imports Prelude
begin

text \<open>
  The W3C traceparent header of \<^verbatim>\<open>src/http/traceparent.hpp\<close>. The two identifier loops are one
  function over the index range they read; an early \<^verbatim>\<open>return std::nullopt\<close> is \<open>None\<close>.
\<close>

definition kTraceParentLength :: nat where "kTraceParentLength = 55"
definition kTraceIdStartIndex :: nat where "kTraceIdStartIndex = 3"
definition kTraceIdLength :: nat where "kTraceIdLength = 32"
definition kParentIdStartIndex :: nat where "kParentIdStartIndex = 36"
definition kParentIdLength :: nat where "kParentIdLength = 16"
definition kTraceFlagsStartIndex :: nat where "kTraceFlagsStartIndex = 53"
definition kTraceFlagsLength :: nat where "kTraceFlagsLength = 2"

lemmas trace_consts = kTraceParentLength_def kTraceIdStartIndex_def kTraceIdLength_def
  kParentIdStartIndex_def kParentIdLength_def kTraceFlagsStartIndex_def kTraceFlagsLength_def

record TraceParent =
  trace_id :: string
  parent_id :: string
  trace_flags :: octet

definition in_range :: "char \<Rightarrow> char \<Rightarrow> char \<Rightarrow> bool" where
  "in_range lo hi c \<longleftrightarrow> (of_char lo :: nat) \<le> of_char c \<and> (of_char c :: nat) \<le> of_char hi"

definition is_lower_hex :: "char \<Rightarrow> bool" where
  "is_lower_hex c \<longleftrightarrow> in_range (CHR ''0'') (CHR ''9'') c \<or> in_range (CHR ''a'') (CHR ''f'') c"

definition is_upper_hex :: "char \<Rightarrow> bool" where
  "is_upper_hex c \<longleftrightarrow> in_range (CHR ''A'') (CHR ''F'') c"

text \<open>The loop over an identifier: the characters written so far and the all-zero flag.\<close>

fun read_id :: "string \<Rightarrow> string \<Rightarrow> bool \<Rightarrow> (string \<times> bool) option" where
  "read_id [] out all_zero = Some (out, all_zero)"
| "read_id (c # cs) out all_zero =
     (if is_upper_hex c then read_id cs (out @ [char_of (of_char c - 65 + 97 :: nat)]) False
      else if is_lower_hex c then read_id cs (out @ [c]) (if c \<noteq> CHR ''0'' then False else all_zero)
      else None)"

definition hex_nibble :: "char \<Rightarrow> octet" where
  "hex_nibble c =
     (if in_range (CHR ''0'') (CHR ''9'') c then word_of_nat (of_char c - 48)
      else if in_range (CHR ''a'') (CHR ''f'') c then word_of_nat (of_char c - 97 + 10)
      else if in_range (CHR ''A'') (CHR ''F'') c then word_of_nat (of_char c - 65 + 10)
      else 0)"

definition substr :: "string \<Rightarrow> nat \<Rightarrow> nat \<Rightarrow> string" where
  "substr s start len = take len (drop start s)"

definition parse_traceparent :: "string \<Rightarrow> TraceParent option" where
  "parse_traceparent header =
     (if length header \<noteq> kTraceParentLength then None
      else if header ! 2 \<noteq> CHR ''-'' \<or> header ! 35 \<noteq> CHR ''-'' \<or> header ! 52 \<noteq> CHR ''-'' then None
      else if header ! 0 \<noteq> CHR ''0'' \<or> header ! 1 \<noteq> CHR ''0'' then None
      else case read_id (substr header kTraceIdStartIndex kTraceIdLength) [] True of
        None \<Rightarrow> None
      | Some (tid, True) \<Rightarrow> None
      | Some (tid, False) \<Rightarrow>
          (case read_id (substr header kParentIdStartIndex kParentIdLength) [] True of
             None \<Rightarrow> None
           | Some (pid, True) \<Rightarrow> None
           | Some (pid, False) \<Rightarrow>
               (if \<not> list_all (\<lambda>c. is_lower_hex c \<or> is_upper_hex c)
                     (substr header kTraceFlagsStartIndex kTraceFlagsLength) then None
                else Some \<lparr>trace_id = tid, parent_id = pid,
                  trace_flags = push_bit 4 (hex_nibble (header ! kTraceFlagsStartIndex))
                    OR hex_nibble (header ! (kTraceFlagsStartIndex + 1))\<rparr>)))"

subsection \<open>The header grammar\<close>

definition hex_digit :: "char \<Rightarrow> bool" where
  "hex_digit c \<longleftrightarrow> is_lower_hex c \<or> is_upper_hex c"

definition id_ok :: "nat \<Rightarrow> string \<Rightarrow> bool" where
  "id_ok n s \<longleftrightarrow> length s = n \<and> list_all hex_digit s \<and> s \<noteq> replicate n (CHR ''0'')"

lemma upper_hex_lower: "is_upper_hex c \<Longrightarrow> char_of (of_char c - 65 + 97 :: nat) = ascii_lower c"
  and lower_hex_lower: "is_lower_hex c \<Longrightarrow> ascii_lower c = c"
  by (auto simp: is_upper_hex_def is_lower_hex_def in_range_def ascii_lower_def Let_def)

lemma upper_not_zero: "is_upper_hex c \<Longrightarrow> c \<noteq> CHR ''0''"
  by (auto simp: is_upper_hex_def in_range_def)

lemma read_id_eq:
  "read_id s out z = (if list_all hex_digit s
     then Some (out @ map ascii_lower s, z \<and> list_all (\<lambda>c. c = CHR ''0'') s) else None)"
proof (induction s arbitrary: out z)
  case (Cons c s)
  show ?case
    using Cons upper_hex_lower [of c] lower_hex_lower [of c] upper_not_zero [of c]
    by (auto simp: hex_digit_def)
qed simp

lemma all_zero_replicate: "list_all (\<lambda>c. c = x) s \<longleftrightarrow> s = replicate (length s) x"
  by (induction s) auto

lemma header_split:
  assumes "length h = 55"
  shows "h = take 2 h @ h ! 2 # substr h 3 32 @ h ! 35 # substr h 36 16 @ h ! 52 # substr h 53 2"
proof -
  have d: "drop n h = h ! n # drop (Suc n) h" if "n < 55" for n
    using that assms by (simp add: Cons_nth_drop_Suc)
  have e: "substr h n k @ drop (n + k) h = drop n h" for n k
    by (metis substr_def append_take_drop_id drop_drop add.commute)
  have "h = take 2 h @ drop 2 h" by simp
  also have "drop 2 h = h ! 2 # substr h 3 32 @ drop 35 h"
    using d [of 2] e [of 3 32] by simp
  also have "drop 35 h = h ! 35 # substr h 36 16 @ drop 52 h"
    using d [of 35] e [of 36 16] by simp
  also have "drop 52 h = h ! 52 # substr h 53 2"
    using d [of 52] e [of 53 2] assms by simp
  finally show ?thesis by simp
qed

definition hex_value :: "char \<Rightarrow> nat" where
  "hex_value c = (let n = of_char c in if n \<le> 57 then n - 48 else if n \<le> 70 then n - 55 else n - 87)"

lemma hex_nibble_value:
  assumes "hex_digit c"
  shows "unat (hex_nibble c) = hex_value c \<and> hex_value c < 16"
proof -
  have w: "unat (word_of_nat n :: octet) = n" if "n < 16" for n using that by (simp add: unat_of_nat)
  from assms consider k where "of_char c = 48 + k" "k \<le> (9 :: nat)" | k where "of_char c = 97 + k" "k \<le> (5 :: nat)"
    | k where "of_char c = 65 + k" "k \<le> (5 :: nat)"
    by (auto simp: hex_digit_def is_lower_hex_def is_upper_hex_def in_range_def dest!: le_Suc_ex)
  then show ?thesis
    by cases (simp_all add: hex_nibble_def in_range_def hex_value_def w del: of_nat_add of_nat_Suc)
qed

lemma flags_value:
  assumes "hex_digit a" "hex_digit b"
  shows "unat (push_bit 4 (hex_nibble a) OR hex_nibble b) = 16 * hex_value a + hex_value b"
proof -
  have a: "unat (hex_nibble a) = hex_value a" "hex_value a < 16" and b: "unat (hex_nibble b) = hex_value b" "hex_value b < 16"
    using hex_nibble_value assms by simp_all
  have "unat (push_bit 4 (hex_nibble a)) = push_bit 4 (hex_value a)"
    using unat_push_bit_ucast [of "hex_nibble a" 4, where 'a = 8] a by (simp add: push_bit_nat_def)
  then show ?thesis
    using b nat_or_shift [of "hex_value b" 4 "hex_value a"] by (simp add: unsigned_or_eq)
qed

lemma hex_digits_iff: "list_all (\<lambda>c. is_lower_hex c \<or> is_upper_hex c) s \<longleftrightarrow> list_all hex_digit s"
  by (simp add: hex_digit_def [abs_def])

definition traceparent_text :: "string \<Rightarrow> string \<Rightarrow> string \<Rightarrow> string" where
  "traceparent_text tid pid fl = ''00-'' @ tid @ ''-'' @ pid @ ''-'' @ fl"

lemma nth_append_at: "length xs = n \<Longrightarrow> (xs @ y # ys) ! n = y"
  by (metis nth_append_length)

lemma text_parts:
  assumes "length tid = 32" "length pid = 16" "length fl = 2"
  shows "length (traceparent_text tid pid fl) = 55" "substr (traceparent_text tid pid fl) 3 32 = tid"
    "substr (traceparent_text tid pid fl) 36 16 = pid" "substr (traceparent_text tid pid fl) 53 2 = fl"
    "traceparent_text tid pid fl ! 0 = CHR ''0''" "traceparent_text tid pid fl ! 1 = CHR ''0''"
    "traceparent_text tid pid fl ! 2 = CHR ''-''" "traceparent_text tid pid fl ! 35 = CHR ''-''"
    "traceparent_text tid pid fl ! 52 = CHR ''-''"
    "traceparent_text tid pid fl ! 53 = fl ! 0" "traceparent_text tid pid fl ! 54 = fl ! 1"
proof -
  let ?t = "traceparent_text tid pid fl"
  have t1: "?t = (''00-'' @ tid) @ CHR ''-'' # pid @ ''-'' @ fl" and t2: "?t = (''00-'' @ tid @ ''-'' @ pid) @ CHR ''-'' # fl"
    and t3: "?t = (''00-'' @ tid @ ''-'' @ pid @ ''-'') @ fl"
    by (simp_all add: traceparent_text_def)
  show "?t ! 35 = CHR ''-''" unfolding t1 by (rule nth_append_at) (simp add: assms)
  show "?t ! 52 = CHR ''-''" unfolding t2 by (rule nth_append_at) (simp add: assms)
  show "?t ! 53 = fl ! 0" "?t ! 54 = fl ! 1" unfolding t3 nth_append by (simp_all add: assms)
  show "substr ?t 36 16 = pid" "substr ?t 53 2 = fl" "substr ?t 3 32 = tid" "length ?t = 55"
    by (simp_all add: traceparent_text_def substr_def assms)
qed (simp_all add: traceparent_text_def)

text \<open>
  Claim C23. The accepted headers are exactly the grammar \<^verbatim>\<open>00-trace-parent-flags\<close>: 32 and 16
  hexadecimal digits that are not all zero and two hexadecimal digits. The identifiers
  come out in lower case, so that two spellings of one trace agree, and the flags are the
  value of the two digits.
\<close>

theorem parse_traceparent_iff:
  "parse_traceparent h = Some tp \<longleftrightarrow> (\<exists>tid pid fl. h = traceparent_text tid pid fl \<and> id_ok 32 tid \<and> id_ok 16 pid
     \<and> length fl = 2 \<and> list_all hex_digit fl
     \<and> trace_id tp = map ascii_lower tid \<and> parent_id tp = map ascii_lower pid
     \<and> unat (trace_flags tp) = 16 * hex_value (fl ! 0) + hex_value (fl ! 1))" (is "?l \<longleftrightarrow> ?r")
proof -
  have flags: "push_bit 4 (hex_nibble (fl ! 0)) OR hex_nibble (fl ! 1) = f \<longleftrightarrow>
      unat f = 16 * hex_value (fl ! 0) + hex_value (fl ! 1)"
    if "length fl = 2" "list_all hex_digit fl" for fl f
    using that flags_value [of "fl ! 0" "fl ! 1"] by (auto simp: list_all_length word_unat_eq_iff)
  have tx: "parse_traceparent (traceparent_text tid pid fl) = Some tp \<longleftrightarrow>
      id_ok 32 tid \<and> id_ok 16 pid \<and> list_all hex_digit fl
      \<and> trace_id tp = map ascii_lower tid \<and> parent_id tp = map ascii_lower pid
      \<and> unat (trace_flags tp) = 16 * hex_value (fl ! 0) + hex_value (fl ! 1)"
    if l: "length tid = 32" "length pid = 16" "length fl = 2" for tid pid fl
  proof (cases "list_all hex_digit tid \<and> list_all hex_digit pid \<and> list_all hex_digit fl
      \<and> tid \<noteq> replicate 32 (CHR ''0'') \<and> pid \<noteq> replicate 16 (CHR ''0'')")
    case True
    then have z: "\<not> list_all (\<lambda>c. c = CHR ''0'') tid" "\<not> list_all (\<lambda>c. c = CHR ''0'') pid"
      using l by (simp_all only: all_zero_replicate simp_thms)
    have "parse_traceparent (traceparent_text tid pid fl) = Some \<lparr>trace_id = map ascii_lower tid,
        parent_id = map ascii_lower pid, trace_flags = push_bit 4 (hex_nibble (fl ! 0)) OR hex_nibble (fl ! 1)\<rparr>"
      using True l z text_parts [OF l]
      by (simp add: parse_traceparent_def trace_consts read_id_eq hex_digits_iff)
    then show ?thesis using True l flags [of fl "trace_flags tp"]
      by (cases tp) (auto simp: id_ok_def)
  next
    case False
    then have "parse_traceparent (traceparent_text tid pid fl) = None"
      using l text_parts [OF l] all_zero_replicate [of "CHR ''0''" tid] all_zero_replicate [of "CHR ''0''" pid]
      by (auto simp: parse_traceparent_def trace_consts read_id_eq hex_digits_iff split: if_splits)
    with False l show ?thesis by (auto simp: id_ok_def)
  qed
  show ?thesis
  proof
    assume p: ?l
    then have len: "length h = 55" and sep: "h ! 0 = CHR ''0''" "h ! 1 = CHR ''0''" "h ! 2 = CHR ''-''"
      "h ! 35 = CHR ''-''" "h ! 52 = CHR ''-''"
      by (auto simp: parse_traceparent_def trace_consts split: if_splits)
    have t2: "take 2 h = [h ! 0, h ! 1]"
      using len by (simp add: numeral_2_eq_2 take_Suc_conv_app_nth)
    have h: "h = traceparent_text (substr h 3 32) (substr h 36 16) (substr h 53 2)"
      using header_split [OF len] unfolding t2 sep by (simp add: traceparent_text_def)
    have l: "length (substr h 3 32) = 32" "length (substr h 36 16) = 16" "length (substr h 53 2) = 2"
      using len by (simp_all add: substr_def)
    from p h have "parse_traceparent (traceparent_text (substr h 3 32) (substr h 36 16) (substr h 53 2)) = Some tp" by simp
    with tx [OF l] h l(3) show ?r by blast
  next
    assume ?r
    then show ?l using tx by (auto simp: id_ok_def)
  qed
qed
end
