(* ===== verification/Connection.thy ===== *)
theory Connection
  imports Request Response Traceparent
begin

text \<open>
  The connection handler of \<^verbatim>\<open>App::listen\<close> (\<^verbatim>\<open>src/router/app_impl.cpp\<close>): read, feed,
  dispatch, write, until the connection ends. Its environment is the list of what the stream does
  in each round: the result of the read (\<open>None\<close> for an error) and whether a write in that round
  succeeds. Dispatch is an argument: the response to the n-th request of the connection.
\<close>

type_synonym dispatcher = "nat \<Rightarrow> (nat, nat) request_impl \<Rightarrow> response"

record conn_config =
  cc_max_body :: nat
  cc_max_headers :: nat

record round_env =
  re_read :: "octets option"
  re_write_ok :: bool

datatype close_reason = ReadFailed | CleanEof | ProtocolFailure | UpgradedToWebSocket | WriteFailed | NotKeepAlive

datatype conn_event = Wrote octets | ClosedConn close_reason

text \<open>
  The request context set up before dispatch: the id and the trace fields. The 64-bit counter of the ids is
  one atomic of the whole process, shared by all connections; \<open>ids n\<close> is the value its \<^verbatim>\<open>fetch_add\<close> returns for
  the \<open>n\<close>-th request of the connection, whatever the others take in between.
\<close>

definition request_id_text :: "64 word \<Rightarrow> string" where
  "request_id_text next_id = hex_padded 16 (unat next_id)"

definition build_request :: "conn_config \<Rightarrow> 64 word \<Rightarrow> ParsedRequest \<Rightarrow> (nat, nat) request_impl" where
  "build_request cfg next_id parsed =
     (let req = set_request_id (request_id_text next_id) (set_max_payload (cc_max_body cfg)
            (set_topic_bus (set_stream (make_request parsed Map.empty)))) in
      case req_header ''traceparent'' req of
        None \<Rightarrow> req
      | Some tp_hdr \<Rightarrow>
          (case parse_traceparent tp_hdr of
             None \<Rightarrow> req
           | Some tp \<Rightarrow> set_traceparent tp_hdr (set_span_id (parent_id tp) (set_trace_id (trace_id tp) req))))"

definition error_bytes :: octets where
  "error_bytes = serialize_response id (bad_request ''Bad Request'')"

fun connection_loop :: "conn_config \<Rightarrow> 'p llhttp \<Rightarrow> ((string \<times> string) list \<Rightarrow> (string \<times> string) list)
    \<Rightarrow> dispatcher \<Rightarrow> (nat \<Rightarrow> 64 word) \<Rightarrow> round_env list \<Rightarrow> nat \<Rightarrow> 'p http_parser \<Rightarrow> conn_event list" where
  "connection_loop cfg L iter handle ids [] n parser = []"
| "connection_loop cfg L iter handle ids (env # envs) n parser =
     (case re_read env of
        None \<Rightarrow> [ClosedConn ReadFailed]
      | Some buf \<Rightarrow>
          if buf = [] then [ClosedConn CleanEof]
          else
            (case feed L buf parser of
               (Inl e, parser') \<Rightarrow>
                 if e = Incomplete then connection_loop cfg L iter handle ids envs n parser'
                 else [Wrote error_bytes, ClosedConn ProtocolFailure]
             | (Inr parsed, parser') \<Rightarrow>
                 (let keep_alive = pr_keep_alive parsed;
                      next_id = ids n + 1;
                      req = build_request cfg next_id parsed;
                      response = handle n req in
                  if response_status response = kStatusSwitchingProtocols then [ClosedConn UpgradedToWebSocket]
                  else
                    (let resp_bytes = serialize_response iter response in
                     Wrote resp_bytes #
                       (if \<not> re_write_ok env then [ClosedConn WriteFailed]
                        else if \<not> keep_alive then [ClosedConn NotKeepAlive]
                        else connection_loop cfg L iter handle ids envs (n + 1) (reset L parser'))))))"

definition run_connection :: "conn_config \<Rightarrow> 'p llhttp \<Rightarrow> ((string \<times> string) list \<Rightarrow> (string \<times> string) list)
    \<Rightarrow> dispatcher \<Rightarrow> (nat \<Rightarrow> 64 word) \<Rightarrow> round_env list \<Rightarrow> conn_event list" where
  "run_connection cfg L iter handle ids envs =
     connection_loop cfg L iter handle ids envs 0
       (new_parser L \<lparr>max_header_count = cc_max_headers cfg, max_body_bytes = cc_max_body cfg\<rparr>)"

subsection \<open>Answers of a whole connection\<close>

lemma same_parser_reset: "same_parser s t \<Longrightarrow> same_parser (reset_impl s) (reset_impl t)"
  by (cases s; cases t) (auto simp: same_parser_def reset_impl_def split: if_splits)

lemma connection_loop_same:
  "hp_ll hp = hp_ll hq \<Longrightarrow> same_parser (hp_impl hp) (hp_impl hq) \<Longrightarrow>
     connection_loop cfg L iter handle ids envs n hp = connection_loop cfg L iter handle ids envs n hq"
proof (induction envs arbitrary: hp hq n)
  case (Cons env envs)
  show ?case
  proof (cases "re_read env")
    case (Some buf)
    obtain r hp' where f: "feed L buf hp = (r, hp')" by fastforce
    obtain r' hq' where g: "feed L buf hq = (r', hq')" by fastforce
    from feed_same [OF Cons.prems, of L buf] f g
    have e: "r' = r" "hp_ll hp' = hp_ll hq'" "same_parser (hp_impl hp') (hp_impl hq')" by simp_all
    have "connection_loop cfg L iter handle ids envs n' (reset L hp') = connection_loop cfg L iter handle ids envs n' (reset L hq')"
      for n'
      by (rule Cons.IH) (simp_all add: reset_def e same_parser_reset)
    then show ?thesis using Cons.IH [OF e(2,3)] Some f g e(1)
      by (cases r) (simp_all add: Let_def)
  qed simp
qed simp

definition delivered_ok :: "octets list \<Rightarrow> round_env list" where
  "delivered_ok ds = map (\<lambda>d. \<lparr>re_read = Some d, re_write_ok = True\<rparr>) ds"

definition feed_state :: "'p llhttp \<Rightarrow> octets list \<Rightarrow> 'p http_parser \<Rightarrow> 'p http_parser" where
  "feed_state L ds hp = foldl (\<lambda>h d. snd (feed L d h)) hp ds"

lemma feed_state_reachable: "parser_reachable L c hp \<Longrightarrow> parser_reachable L c (feed_state L ds hp)"
  by (induction ds arbitrary: hp) (simp_all add: feed_state_def reach_feed)

lemma connection_one_request:
  assumes "feed_all L ds hp = replicate (length ds - 1) (Inl Incomplete) @ [Inr req]" "\<forall>d \<in> set ds. d \<noteq> []"
    and "pr_keep_alive req" "response_status (handle n (build_request cfg (ids n + 1) req)) \<noteq> kStatusSwitchingProtocols"
  shows "connection_loop cfg L iter handle ids (delivered_ok ds @ envs) n hp
    = Wrote (serialize_response iter (handle n (build_request cfg (ids n + 1) req)))
      # connection_loop cfg L iter handle ids envs (n + 1) (reset L (feed_state L ds hp))"
  using assms(1,2)
proof (induction ds arbitrary: hp)
  case (Cons d ds)
  obtain r hp' where f: "feed L d hp = (r, hp')" by fastforce
  show ?case
  proof (cases "ds = []")
    case True
    with Cons.prems f have "r = Inr req" by simp
    with True Cons.prems(2) f assms(3,4) show ?thesis
      by (simp add: delivered_ok_def feed_state_def Let_def)
  next
    case False
    then obtain k where k: "length ds = Suc k" by (cases ds) auto
    with Cons.prems(1) f have "r = Inl Incomplete"
      and "feed_all L ds hp' = replicate (length ds - 1) (Inl Incomplete) @ [Inr req]" by simp_all
    with Cons.IH [of hp'] Cons.prems(2) f show ?thesis
      by (simp add: delivered_ok_def feed_state_def)
  qed
qed simp

text \<open>
  A request as the client sends it: the buffers it arrives in and the events llhttp reports for
  each of them.
\<close>

record sent_request =
  sr_buffers :: "octets list"
  sr_events :: "ll_event list list"
  sr_request :: ParsedRequest

definition sent_ok :: "'p llhttp \<Rightarrow> conn_config \<Rightarrow> sent_request \<Rightarrow> bool" where
  "sent_ok L cfg sr \<longleftrightarrow> delivers L (ll_init L) (sr_buffers sr) (sr_events sr)
     \<and> sr_events sr \<noteq> [] \<and> last (sr_events sr) \<noteq> []
     \<and> request_events (sr_request sr) (concat (sr_events sr))
     \<and> length (pr_headers (sr_request sr)) \<le> cc_max_headers cfg
     \<and> length (pr_body (sr_request sr)) \<le> cc_max_body cfg
     \<and> list_all (\<lambda>d. d \<noteq> []) (sr_buffers sr) \<and> pr_keep_alive (sr_request sr)"

fun answers :: "conn_config \<Rightarrow> ((string \<times> string) list \<Rightarrow> (string \<times> string) list) \<Rightarrow> dispatcher
    \<Rightarrow> (nat \<Rightarrow> 64 word) \<Rightarrow> nat \<Rightarrow> ParsedRequest list \<Rightarrow> conn_event list" where
  "answers cfg iter handle ids n [] = []"
| "answers cfg iter handle ids n (req # reqs) =
     Wrote (serialize_response iter (handle n (build_request cfg (ids n + 1) req))) # answers cfg iter handle ids (n + 1) reqs"

lemma delivers_length: "delivers L p ds ess \<Longrightarrow> length ds = length ess"
  by (induction ds arbitrary: p ess) (auto split: list.splits)

lemma connection_answers:
  assumes rs: "\<forall>p. ll_reset L p = ll_init L" and h: "\<forall>n r. response_status (handle n r) \<noteq> kStatusSwitchingProtocols"
    and "\<forall>sr \<in> set srs. sent_ok L cfg sr"
    and "hp_ll hp = ll_init L"
    and "same_parser (hp_impl hp) (new_impl \<lparr>max_header_count = cc_max_headers cfg, max_body_bytes = cc_max_body cfg\<rparr>)"
    and "parser_reachable L \<lparr>max_header_count = cc_max_headers cfg, max_body_bytes = cc_max_body cfg\<rparr> hp"
  shows "connection_loop cfg L iter handle ids (delivered_ok (concat (map sr_buffers srs))) n hp
    = answers cfg iter handle ids n (map sr_request srs)"
  using assms(3-)
proof (induction srs arbitrary: hp n)
  case Nil
  then show ?case by (simp add: delivered_ok_def)
next
  case (Cons sr srs)
  let ?pc = "\<lparr>max_header_count = cc_max_headers cfg, max_body_bytes = cc_max_body cfg\<rparr>"
  from Cons.prems(1) have s: "sent_ok L cfg sr" by simp
  from request_run [of "sr_request sr" "concat (sr_events sr)" ?pc] s
  obtain front sf where f: "concat (sr_events sr) = front @ [OnMessageComplete]"
    "run_events front (new_impl ?pc) = (HPE_OK, sf)" "\<not> has_error sf"
    "(pending sf)\<lparr>pr_body := chunk_buf sf\<rparr> = sr_request sr" by (auto simp: sent_ok_def)
  have fa: "feed_all L (sr_buffers sr) (new_parser L ?pc)
      = replicate (length (sr_buffers sr) - 1) (Inl Incomplete) @ [Inr (sr_request sr)]"
    using feed_delivered [of L "ll_init L" "sr_buffers sr" "sr_events sr" front "new_impl ?pc" sf] s f new_impl_inv
    by (simp add: sent_ok_def new_parser_def)
  have "feed_all L (sr_buffers sr) hp = feed_all L (sr_buffers sr) (new_parser L ?pc)"
    using Cons.prems(2,3) by (intro feed_all_same) (simp_all add: new_parser_def)
  with fa have fb: "feed_all L (sr_buffers sr) hp
      = replicate (length (sr_buffers sr) - 1) (Inl Incomplete) @ [Inr (sr_request sr)]" by simp
  let ?hp = "feed_state L (sr_buffers sr) hp"
  have re: "parser_reachable L ?pc ?hp" by (rule feed_state_reachable [OF Cons.prems(4)])
  have "ip_config (hp_impl ?hp) = ?pc" using reachable_inv [OF re] by simp
  then have sm: "same_parser (hp_impl (reset L ?hp)) (new_impl ?pc)"
    by (simp add: reset_def reset_impl_def new_impl_def same_parser_def)
  have "connection_loop cfg L iter handle ids (delivered_ok (sr_buffers sr) @ delivered_ok (concat (map sr_buffers srs))) n hp
      = Wrote (serialize_response iter (handle n (build_request cfg (ids n + 1) (sr_request sr))))
        # connection_loop cfg L iter handle ids (delivered_ok (concat (map sr_buffers srs))) (n + 1) (reset L ?hp)"
    using s h by (intro connection_one_request [OF fb]) (auto simp: sent_ok_def list_all_iff)
  also have "connection_loop cfg L iter handle ids (delivered_ok (concat (map sr_buffers srs))) (n + 1) (reset L ?hp)
      = answers cfg iter handle ids (n + 1) (map sr_request srs)"
    using Cons.prems(1) rs sm reach_reset [OF re]
    by (intro Cons.IH) (simp_all add: reset_def)
  finally show ?case by (simp add: delivered_ok_def)
qed

lemma run_connection_answers:
  assumes "\<forall>p. ll_reset L p = ll_init L"
    and "\<forall>n r. response_status (handle n r) \<noteq> kStatusSwitchingProtocols"
    and "list_all (sent_ok L cfg) srs"
  shows "run_connection cfg L iter handle ids (delivered_ok (concat (map sr_buffers srs)))
    = answers cfg iter handle ids 0 (map sr_request srs)"
  unfolding run_connection_def
  using assms
  by (intro connection_answers) (auto simp: list_all_iff new_parser_def same_parser_def intro: reach_new [unfolded new_parser_def])

text \<open>
  Claim C5. Keep-alive connections answer every request, in order: if the client sends requests one after
  another, each starting in a buffer of its own and within the limits, each over any number of
  buffers, and asks to keep the connection alive, then exactly their responses are written, in the
  order of the requests, and the connection stays open. This holds for any values of the process-wide
  request counter, so for any number of other connections that draw from it in between.
\<close>

theorem connection_answers_in_order:
  assumes "\<forall>p. ll_reset L p = ll_init L"
    and "\<forall>n r. response_status (handle n r) \<noteq> kStatusSwitchingProtocols"
    and "list_all (sent_ok L cfg) srs"
  shows "run_connection cfg L iter handle ids (delivered_ok (concat (map sr_buffers srs)))
    = answers cfg iter handle ids 0 (map sr_request srs)"
  by (rule run_connection_answers [OF assms])

text \<open>A concrete library for the witness: it reports the same request for every buffer.\<close>

definition fixed_llhttp :: "ll_event list \<Rightarrow> unit llhttp" where
  "fixed_llhttp es = \<lparr>ll_init = (), ll_execute = (\<lambda>_ _. straight es ()), ll_resume = (\<lambda>p. p), ll_reset = (\<lambda>_. ())\<rparr>"

definition sample_events :: "ll_event list" where
  "sample_events = [OnMethod ''GET'', OnUrl ''/'', OnHeadersComplete 1 1 True False, OnMessageComplete]"

definition sample_request :: ParsedRequest where
  "sample_request = default_request\<lparr>pr_method := ''GET'', pr_target := ''/''\<rparr>"

lemma sample_sent:
  "sent_ok (fixed_llhttp sample_events) \<lparr>cc_max_body = 10, cc_max_headers = 10\<rparr>
     \<lparr>sr_buffers = [[0x47]], sr_events = [sample_events], sr_request = sample_request\<rparr>"
proof -
  have "request_events sample_request sample_events"
    unfolding request_events_def frags_def
    by (intro exI [of _ "[OnMethod ''GET'']"] exI [of _ "[OnUrl ''/'']"] exI [of _ "[]"])
       (auto simp: sample_request_def sample_events_def default_request_def no_headers
         intro: exI [of _ "[''GET'']"] exI [of _ "[''/'']"])
  then show ?thesis
    by (simp add: sent_ok_def fixed_llhttp_def sample_request_def default_request_def sample_events_def)
qed

theorem connection_answers_in_order_witness:
  "run_connection \<lparr>cc_max_body = 10, cc_max_headers = 10\<rparr> (fixed_llhttp sample_events) id (\<lambda>n r. ok (path_view r)) (\<lambda>n. 3 * of_nat n)
     [\<lparr>re_read = Some [0x47], re_write_ok = True\<rparr>, \<lparr>re_read = Some [0x47], re_write_ok = True\<rparr>]
   = answers \<lparr>cc_max_body = 10, cc_max_headers = 10\<rparr> id (\<lambda>n r. ok (path_view r)) (\<lambda>n. 3 * of_nat n) 0 [sample_request, sample_request]"
proof -
  let ?sr = "\<lparr>sr_buffers = [[0x47]], sr_events = [sample_events], sr_request = sample_request\<rparr>"
  have "\<forall>p. ll_reset (fixed_llhttp sample_events) p = ll_init (fixed_llhttp sample_events)"
    by (simp add: fixed_llhttp_def)
  moreover have "\<forall>n r. response_status ((\<lambda>n r. ok (path_view r)) n r) \<noteq> kStatusSwitchingProtocols"
    by (simp add: ok_def make_response_def response_status_def status_consts)
  moreover have "list_all (sent_ok (fixed_llhttp sample_events) \<lparr>cc_max_body = 10, cc_max_headers = 10\<rparr>) [?sr, ?sr]"
    using sample_sent by simp
  ultimately show ?thesis
    using connection_answers_in_order [of "fixed_llhttp sample_events" "\<lambda>n r. ok (path_view r)"
        "\<lparr>cc_max_body = 10, cc_max_headers = 10\<rparr>" "[?sr, ?sr]" id "\<lambda>n. 3 * of_nat n"]
    by (simp add: delivered_ok_def del: answers.simps)
qed

definition is_wrote :: "conn_event \<Rightarrow> bool" where
  "is_wrote e = (case e of Wrote _ \<Rightarrow> True | ClosedConn _ \<Rightarrow> False)"

text \<open>
  Whatever the client, the library and the handlers do, a connection writes at most one
  response per read and nothing once it is closed: every event but the last is a write. (So when
  one read delivers two pipelined requests, only one of them is answered.)
\<close>

lemma connection_writes_bounded:
  "length (filter is_wrote (run_connection cfg L iter handle ids envs)) \<le> length envs
   \<and> list_all is_wrote (butlast (run_connection cfg L iter handle ids envs))"
proof -
  have "length (filter is_wrote (connection_loop cfg L iter handle ids envs n hp)) \<le> length envs
     \<and> list_all is_wrote (butlast (connection_loop cfg L iter handle ids envs n hp))" for n hp
  proof (induction envs arbitrary: n hp)
    case (Cons env envs)
    have b: "list_all is_wrote (butlast (Wrote x # es)) \<longleftrightarrow> list_all is_wrote (butlast es)" for x es
      by (simp add: is_wrote_def)
    show ?case
    proof (cases "re_read env")
      case (Some buf)
      obtain r hp' where f: "feed L buf hp = (r, hp')" by fastforce
      show ?thesis using Cons.IH [of n hp'] Cons.IH [of "n + 1" "reset L hp'"] Some f b
        by (cases r) (auto simp: is_wrote_def Let_def le_SucI)
    qed (simp add: is_wrote_def)
  qed simp
  then show ?thesis unfolding run_connection_def by simp
qed

end
