(* ===== verification/Task.thy ===== *)
theory Task
  imports Prelude
begin

text \<open>
  The coroutine type of \<^verbatim>\<open>include/aevox/task.hpp\<close> and the detached driver \<^verbatim>\<open>FireAndForget\<close> of
  \<^verbatim>\<open>include/aevox/async.hpp\<close>. What the compiler makes of a coroutine is a machine of frames: every
  coroutine has a heap frame with its promise, control is passed between frames through the handles
  that \<^verbatim>\<open>await_suspend\<close> returns, and a frame is destroyed by the \<^verbatim>\<open>Task\<close> that owns its handle. The body
  of a coroutine is a tree: it returns, throws, awaits a task, awaits an operation of the backend
  (what this gives back is an input of the machine), or drops a task it never awaited.
\<close>

text \<open>\<^verbatim>\<open>Task<T>\<close>, \<^verbatim>\<open>Task<void>\<close> and \<^verbatim>\<open>FireAndForget\<close>: the three promise types.\<close>

datatype task_kind = ValueTask | VoidTask | Detached

text \<open>
  \<^verbatim>\<open>Co_return None\<close> is \<^verbatim>\<open>co_return;\<close>, \<^verbatim>\<open>Co_return (Some v)\<close> is \<^verbatim>\<open>co_return v;\<close>.
\<close>

datatype ('x, 'v, 'e, 'i) body =
    Co_return "'v option"
  | Co_throw 'x
  | Co_await task_kind "('x, 'v, 'e, 'i) body" "'x + 'v option \<Rightarrow> ('x, 'v, 'e, 'i) body"
  | Co_wait 'e "'i \<Rightarrow> ('x, 'v, 'e, 'i) body"
  | Co_drop task_kind "('x, 'v, 'e, 'i) body" "('x, 'v, 'e, 'i) body"

text \<open>Where the frame is suspended, or what is left to run of its body.\<close>

datatype ('x, 'v, 'e, 'i) code =
    Initial "('x, 'v, 'e, 'i) body"
  | Exec "('x, 'v, 'e, 'i) body"
  | AwaitTask nat "'x + 'v option \<Rightarrow> ('x, 'v, 'e, 'i) body"
  | AwaitBackend 'e "'i \<Rightarrow> ('x, 'v, 'e, 'i) body"
  | Final

record ('x, 'v, 'e, 'i) frame =
  kind :: task_kind
  code :: "('x, 'v, 'e, 'i) code"
  continuation :: "nat option"
  result :: "'v option"
  exception :: "'x option"

text \<open>
  \<^verbatim>\<open>Running h\<close>: the thread executes the frame of handle \<^verbatim>\<open>h\<close>. \<^verbatim>\<open>Suspended h\<close>: \<^verbatim>\<open>h\<close> was handed to the
  backend. \<^verbatim>\<open>Noop\<close>: control went to \<^verbatim>\<open>std::noop_coroutine()\<close> or the detached driver ended.
  \<^verbatim>\<open>Terminated\<close>: \<^verbatim>\<open>std::terminate\<close>. \<^verbatim>\<open>Dangling\<close>: a destroyed or finished frame was resumed or read.
\<close>

datatype control = Running nat | Suspended nat | Noop | Terminated | Dangling

record ('x, 'v, 'e, 'i) machine =
  frames :: "nat \<Rightarrow> ('x, 'v, 'e, 'i) frame option"
  next_handle :: nat
  control :: control
  requests :: "'e list"

subsection \<open>Promises and handles\<close>

definition promise_init :: "task_kind \<Rightarrow> ('x, 'v, 'e, 'i) body \<Rightarrow> ('x, 'v, 'e, 'i) frame" where
  "promise_init kd b = \<lparr>kind = kd, code = (case kd of Detached \<Rightarrow> Exec b | _ \<Rightarrow> Initial b),
     continuation = None, result = None, exception = None\<rparr>"

text \<open>
  Calling a coroutine: the frame is allocated and its handle returned. \<^verbatim>\<open>Task\<close> suspends initially, so
  the body does not run.
\<close>

definition get_return_object :: "task_kind \<Rightarrow> ('x, 'v, 'e, 'i) body \<Rightarrow> ('x, 'v, 'e, 'i) machine
    \<Rightarrow> nat \<times> ('x, 'v, 'e, 'i) machine" where
  "get_return_object kd b m = (next_handle m,
     m\<lparr>frames := (frames m)(next_handle m \<mapsto> promise_init kd b), next_handle := next_handle m + 1\<rparr>)"

definition destroy :: "nat \<Rightarrow> ('x, 'v, 'e, 'i) machine \<Rightarrow> ('x, 'v, 'e, 'i) machine" where
  "destroy h m = m\<lparr>frames := (frames m)(h := None)\<rparr>"

definition set_code :: "nat \<Rightarrow> ('x, 'v, 'e, 'i) code \<Rightarrow> ('x, 'v, 'e, 'i) machine \<Rightarrow> ('x, 'v, 'e, 'i) machine" where
  "set_code h c m = m\<lparr>frames := (frames m)(h := map_option (code_update (\<lambda>_. c)) (frames m h))\<rparr>"

definition set_continuation :: "nat \<Rightarrow> nat \<Rightarrow> ('x, 'v, 'e, 'i) machine \<Rightarrow> ('x, 'v, 'e, 'i) machine" where
  "set_continuation h caller m =
     m\<lparr>frames := (frames m)(h := map_option (continuation_update (\<lambda>_. Some caller)) (frames m h))\<rparr>"

text \<open>The awaitable interface of a task: register the caller, and transfer to the task.\<close>

definition task_await_suspend :: "nat \<Rightarrow> nat \<Rightarrow> ('x, 'v, 'e, 'i) machine \<Rightarrow> ('x, 'v, 'e, 'i) machine" where
  "task_await_suspend h caller m = (set_continuation h caller m)\<lparr>control := Running h\<rparr>"

text \<open>\<^verbatim>\<open>FinalAwaitable::await_suspend\<close>: transfer to the registered continuation, if there is one.\<close>

definition final_await_suspend :: "('x, 'v, 'e, 'i) frame \<Rightarrow> control" where
  "final_await_suspend f = (case continuation f of Some h \<Rightarrow> Running h | None \<Rightarrow> Noop)"

text \<open>\<^verbatim>\<open>co_return\<close>: \<^verbatim>\<open>return_value\<close> stores the value, \<^verbatim>\<open>return_void\<close> stores nothing.\<close>

definition return_result :: "'v option \<Rightarrow> ('x, 'v, 'e, 'i) frame \<Rightarrow> ('x, 'v, 'e, 'i) frame" where
  "return_result r f = (case kind f of ValueTask \<Rightarrow> f\<lparr>result := r\<rparr> | _ \<Rightarrow> f)"

definition unhandled_exception :: "'x \<Rightarrow> ('x, 'v, 'e, 'i) frame \<Rightarrow> ('x, 'v, 'e, 'i) frame option" where
  "unhandled_exception x f = (case kind f of Detached \<Rightarrow> None | _ \<Rightarrow> Some (f\<lparr>exception := Some x\<rparr>))"

text \<open>\<^verbatim>\<open>await_resume\<close>: rethrow, or give the value; \<^verbatim>\<open>None\<close> is \<^verbatim>\<open>std::terminate()\<close>.\<close>

definition value_await_resume :: "('x, 'v, 'e, 'i) frame \<Rightarrow> ('x + 'v option) option" where
  "value_await_resume f = (case exception f of
       Some x \<Rightarrow> Some (Inl x)
     | None \<Rightarrow> (case result f of Some v \<Rightarrow> Some (Inr (Some v)) | None \<Rightarrow> None))"

definition void_await_resume :: "('x, 'v, 'e, 'i) frame \<Rightarrow> ('x + 'v option) option" where
  "void_await_resume f = (case exception f of Some x \<Rightarrow> Some (Inl x) | None \<Rightarrow> Some (Inr None))"

definition task_await_resume :: "('x, 'v, 'e, 'i) frame \<Rightarrow> ('x + 'v option) option" where
  "task_await_resume f = (case kind f of VoidTask \<Rightarrow> void_await_resume f | _ \<Rightarrow> value_await_resume f)"

lemmas await_resume_defs = task_await_resume_def value_await_resume_def void_await_resume_def

subsection \<open>Running\<close>

text \<open>
  The end of a body. A task suspends in its final suspend point and transfers; the frame of the
  detached driver destroys itself, and an exception that leaves it terminates the process.
\<close>

definition finish_frame :: "nat \<Rightarrow> ('x, 'v, 'e, 'i) frame \<Rightarrow> ('x, 'v, 'e, 'i) machine \<Rightarrow> ('x, 'v, 'e, 'i) machine" where
  "finish_frame h f m = (case kind f of
       Detached \<Rightarrow> (destroy h m)\<lparr>control := Noop\<rparr>
     | _ \<Rightarrow> m\<lparr>frames := (frames m)(h \<mapsto> f\<lparr>code := Final\<rparr>), control := final_await_suspend f\<rparr>)"

definition exec_body :: "nat \<Rightarrow> ('x, 'v, 'e, 'i) frame \<Rightarrow> ('x, 'v, 'e, 'i) body \<Rightarrow> ('x, 'v, 'e, 'i) machine
    \<Rightarrow> ('x, 'v, 'e, 'i) machine" where
  "exec_body h f b m = (case b of
       Co_return r \<Rightarrow> finish_frame h (return_result r f) m
     | Co_throw x \<Rightarrow> (case unhandled_exception x f of
           None \<Rightarrow> m\<lparr>control := Terminated\<rparr>
         | Some f' \<Rightarrow> finish_frame h f' m)
     | Co_await kd b' k \<Rightarrow> (case get_return_object kd b' m of
           (c, m') \<Rightarrow> task_await_suspend c h (set_code h (AwaitTask c k) m'))
     | Co_wait e k \<Rightarrow> (set_code h (AwaitBackend e k) m)\<lparr>control := Suspended h, requests := requests m @ [e]\<rparr>
     | Co_drop kd b' b'' \<Rightarrow> (case get_return_object kd b' m of
           (c, m') \<Rightarrow> set_code h (Exec b'') (destroy c m')))"

text \<open>
  One transition of the running frame. A frame resumed at a \<^verbatim>\<open>co_await\<close> of a task reads the promise of
  this task, and the task object, a temporary of the expression, then destroys its frame.
\<close>

definition task_step :: "('x, 'v, 'e, 'i) machine \<Rightarrow> ('x, 'v, 'e, 'i) machine" where
  "task_step m = (case control m of
       Running h \<Rightarrow> (case frames m h of
           None \<Rightarrow> m\<lparr>control := Dangling\<rparr>
         | Some f \<Rightarrow> (case code f of
               Initial b \<Rightarrow> set_code h (Exec b) m
             | Exec b \<Rightarrow> exec_body h f b m
             | AwaitTask c k \<Rightarrow> (case frames m c of
                   None \<Rightarrow> m\<lparr>control := Dangling\<rparr>
                 | Some g \<Rightarrow> (case task_await_resume g of
                       None \<Rightarrow> m\<lparr>control := Terminated\<rparr>
                     | Some r \<Rightarrow> set_code h (Exec (k r)) (destroy c m)))
             | AwaitBackend _ _ \<Rightarrow> m\<lparr>control := Dangling\<rparr>
             | Final \<Rightarrow> m\<lparr>control := Dangling\<rparr>))
     | _ \<Rightarrow> m)"

text \<open>The backend resumes the handle it was given with the result of the operation.\<close>

definition resume_backend :: "'i \<Rightarrow> ('x, 'v, 'e, 'i) machine \<Rightarrow> ('x, 'v, 'e, 'i) machine" where
  "resume_backend i m = (case control m of
       Suspended h \<Rightarrow> (case frames m h of
           Some f \<Rightarrow> (case code f of
               AwaitBackend _ k \<Rightarrow> (set_code h (Exec (k i)) m)\<lparr>control := Running h\<rparr>
             | _ \<Rightarrow> m\<lparr>control := Dangling\<rparr>)
         | None \<Rightarrow> m\<lparr>control := Dangling\<rparr>)
     | _ \<Rightarrow> m)"

text \<open>One step of the whole: \<^verbatim>\<open>None\<close> when the machine is at rest, the inputs used up included.\<close>

definition machine_step :: "('x, 'v, 'e, 'i) machine \<times> 'i list \<Rightarrow> (('x, 'v, 'e, 'i) machine \<times> 'i list) option" where
  "machine_step s = (case s of (m, is) \<Rightarrow> (case control m of
       Running h \<Rightarrow> Some (task_step m, is)
     | Suspended h \<Rightarrow> (case is of [] \<Rightarrow> None | i # is' \<Rightarrow> Some (resume_backend i m, is'))
     | _ \<Rightarrow> None))"

fun run_machine :: "nat \<Rightarrow> ('x, 'v, 'e, 'i) machine \<times> 'i list \<Rightarrow> ('x, 'v, 'e, 'i) machine \<times> 'i list" where
  "run_machine 0 s = s"
| "run_machine (Suc n) s = (case machine_step s of None \<Rightarrow> s | Some s' \<Rightarrow> run_machine n s')"

definition empty_machine :: "('x, 'v, 'e, 'i) machine" where
  "empty_machine = \<lparr>frames = Map.empty, next_handle = 0, control = Noop, requests = []\<rparr>"

text \<open>
  \<^verbatim>\<open>dispatch_handler\<close>: the detached driver awaits the handler's task. It starts at once, since its
  promise never suspends initially.
\<close>

definition dispatch_handler :: "('x, 'v, 'e, 'i) body \<Rightarrow> ('x, 'v, 'e, 'i) machine" where
  "dispatch_handler handler =
     (let (h, m) = get_return_object Detached
            (Co_await VoidTask handler (\<lambda>r. case r of Inl x \<Rightarrow> Co_throw x | Inr _ \<Rightarrow> Co_return None)) empty_machine
      in m\<lparr>control := Running h\<rparr>)"

text \<open>\<^verbatim>\<open>co_await\<close> as sequential composition: result, backend requests in order, and the inputs left.\<close>

primrec eval_body :: "('x, 'v, 'e, 'i) body \<Rightarrow> 'i list \<Rightarrow> ('x + 'v option) option \<times> 'e list \<times> 'i list" where
  "eval_body (Co_return r) is = (Some (Inr r), [], is)"
| "eval_body (Co_throw x) is = (Some (Inl x), [], is)"
| "eval_body (Co_await kd b k) is = (case eval_body b is of
       (None, es, is') \<Rightarrow> (None, es, is')
     | (Some r, es, is') \<Rightarrow> (case eval_body (k r) is' of (q, es', is'') \<Rightarrow> (q, es @ es', is'')))"
| "eval_body (Co_wait e k) is = (case is of
       [] \<Rightarrow> (None, [e], [])
     | i # is' \<Rightarrow> (case eval_body (k i) is' of (q, es, is'') \<Rightarrow> (q, e # es, is'')))"
| "eval_body (Co_drop kd b b') is = eval_body b' is"

text \<open>The steps of a body until it is about to return or throw, or until the inputs are used up.\<close>

primrec body_cost :: "('x, 'v, 'e, 'i) body \<Rightarrow> 'i list \<Rightarrow> nat" where
  "body_cost (Co_return r) is = 0"
| "body_cost (Co_throw x) is = 0"
| "body_cost (Co_await kd b k) is = 2 + body_cost b is + (case eval_body b is of
       (None, _, _) \<Rightarrow> 0
     | (Some r, _, is') \<Rightarrow> 2 + body_cost (k r) is')"
| "body_cost (Co_wait e k) is = (case is of [] \<Rightarrow> 1 | i # is' \<Rightarrow> 2 + body_cost (k i) is')"
| "body_cost (Co_drop kd b b') is = 1 + body_cost b' is"

text \<open>
  What the C++ compiler accepts: a \<^verbatim>\<open>Task<T>\<close> returns a value, a \<^verbatim>\<open>Task<void>\<close> or the driver none, and
  only tasks are awaited; the rest of a body is typed for the results its task can have.
\<close>

definition fits :: "task_kind \<Rightarrow> 'x + 'v option \<Rightarrow> bool" where
  "fits kd r = (case r of Inl _ \<Rightarrow> True | Inr v \<Rightarrow> (v \<noteq> None) = (kd = ValueTask))"

inductive has_type :: "task_kind \<Rightarrow> ('x, 'v, 'e, 'i) body \<Rightarrow> bool" where
  type_return: "fits kd (Inr r :: 'x + 'v option) \<Longrightarrow> has_type kd (Co_return r :: ('x, 'v, 'e, 'i) body)"
| type_throw: "has_type kd (Co_throw x)"
| type_await: "kd' \<noteq> Detached \<Longrightarrow> has_type kd' b \<Longrightarrow> (\<And>r. fits kd' r \<Longrightarrow> has_type kd (k r)) \<Longrightarrow> has_type kd (Co_await kd' b k)"
| type_wait: "(\<And>i. has_type kd (k i)) \<Longrightarrow> has_type kd (Co_wait e k)"
| type_drop: "kd' \<noteq> Detached \<Longrightarrow> has_type kd' b' \<Longrightarrow> has_type kd b \<Longrightarrow> has_type kd (Co_drop kd' b' b)"

inductive_cases type_returnE [elim!]: "has_type kd (Co_return r)"
inductive_cases type_awaitE [elim!]: "has_type kd (Co_await kd' b k)"
inductive_cases type_waitE [elim!]: "has_type kd (Co_wait e k)"
inductive_cases type_dropE [elim!]: "has_type kd (Co_drop kd' b' b)"


lemma run_machine_rest: "machine_step s = None \<Longrightarrow> run_machine n s = s"
  by (cases n) simp_all

lemma run_machine_add: "run_machine (a + b) s = run_machine b (run_machine a s)"
proof (induction a arbitrary: s)
  case (Suc a)
  then show ?case by (cases "machine_step s") (simp_all add: run_machine_rest)
qed simp

lemma run_running: "control m = Running h \<Longrightarrow> run_machine (Suc n) (m, is) = run_machine n (task_step m, is)"
  by (simp add: machine_step_def)

lemma run_suspended: "control m = Suspended h \<Longrightarrow>
    run_machine (Suc n) (m, is) = (case is of [] \<Rightarrow> (m, []) | i # is' \<Rightarrow> run_machine n (resume_backend i m, is'))"
  by (simp add: machine_step_def split: list.split)

text \<open>What is left to run of a body that has come to its end.\<close>

definition ended :: "'x + 'v option \<Rightarrow> ('x, 'v, 'e, 'i) body" where
  "ended r = (case r of Inl x \<Rightarrow> Co_throw x | Inr v \<Rightarrow> Co_return v)"

lemma eval_fits: "has_type kd b \<Longrightarrow> eval_body b is = (Some r, es, is') \<Longrightarrow> fits kd r"
proof (induction arbitrary: "is" r es is' rule: has_type.induct)
  case (type_await kd' b kd k)
  then show ?case by (fastforce split: prod.splits option.splits)
next
  case (type_wait kd k e)
  then show ?case by (fastforce split: prod.splits list.splits)
qed (auto simp: fits_def)

text \<open>The machine with the frame of handle \<^verbatim>\<open>h\<close> replaced, running it.\<close>

definition fresh :: "('x, 'v, 'e, 'i) machine \<Rightarrow> bool" where
  "fresh m \<longleftrightarrow> (\<forall>h \<ge> next_handle m. frames m h = None)"

definition running :: "nat \<Rightarrow> ('x, 'v, 'e, 'i) frame \<Rightarrow> ('x, 'v, 'e, 'i) body \<Rightarrow> ('x, 'v, 'e, 'i) machine \<Rightarrow> bool" where
  "running h f b m \<longleftrightarrow> control m = Running h \<and> frames m h = Some f \<and> code f = Exec b \<and> fresh m"

lemma fresh_less: "fresh m \<Longrightarrow> frames m h = Some f \<Longrightarrow> h < next_handle m"
  by (metis fresh_def not_le option.distinct(1))

text \<open>Awaiting a task: the caller is suspended, the task's body starts.\<close>

lemma step_await:
  assumes "running h f (Co_await kd b k) m" "kd \<noteq> Detached"
  defines "c \<equiv> next_handle m"
  shows "run_machine 2 (m, is) = (m\<lparr>frames := (frames m)(h \<mapsto> f\<lparr>code := AwaitTask c k\<rparr>,
      c \<mapsto> \<lparr>kind = kd, code = Exec b, continuation = Some h, result = None, exception = None\<rparr>),
      next_handle := c + 1, control := Running c\<rparr>, is)"
proof -
  have "h \<noteq> c" using assms fresh_less [of m h f] by (auto simp: running_def)
  then show ?thesis using assms(1,2)
    by (cases kd) (auto simp: numeral_2_eq_2 machine_step_def task_step_def exec_body_def get_return_object_def promise_init_def set_code_def
        task_await_suspend_def set_continuation_def running_def c_def fun_upd_twist)
qed

text \<open>The end of an awaited task: its result reaches the caller and its frame is gone.\<close>

lemma step_resume:
  assumes "control m = Running c" "frames m c = Some g" "code g = Exec (ended r)" "kind g \<noteq> Detached"
    "result g = None" "exception g = None" "continuation g = Some h" "fits (kind g) r"
    "frames m h = Some f" "code f = AwaitTask c k" "c \<noteq> h"
  shows "run_machine 2 (m, is) = (m\<lparr>frames := (frames m)(c := None, h \<mapsto> f\<lparr>code := Exec (k r)\<rparr>), control := Running h\<rparr>, is)"
  using assms
  by (cases "kind g"; cases r)
     (auto simp: numeral_2_eq_2 machine_step_def task_step_def exec_body_def ended_def return_result_def finish_frame_def unhandled_exception_def
       final_await_suspend_def await_resume_defs set_code_def destroy_def fits_def fun_upd_twist)


lemma step_wait:
  assumes "running h f (Co_wait e k) m"
  shows "run_machine 1 (m, is) = (m\<lparr>frames := (frames m)(h \<mapsto> f\<lparr>code := AwaitBackend e k\<rparr>),
      control := Suspended h, requests := requests m @ [e]\<rparr>, is)"
  using assms by (simp add: machine_step_def task_step_def exec_body_def set_code_def running_def)

lemma step_wait_resume:
  assumes "running h f (Co_wait e k) m"
  shows "run_machine 2 (m, i # is) = (m\<lparr>frames := (frames m)(h \<mapsto> f\<lparr>code := Exec (k i)\<rparr>),
      requests := requests m @ [e]\<rparr>, is)"
  using assms
  by (simp add: numeral_2_eq_2 machine_step_def task_step_def exec_body_def set_code_def running_def resume_backend_def)

lemma step_drop:
  assumes "running h f (Co_drop kd b' b) m"
  shows "run_machine 1 (m, is) = (m\<lparr>frames := (frames m)(h \<mapsto> f\<lparr>code := Exec b\<rparr>),
      next_handle := next_handle m + 1\<rparr>, is)"
proof -
  have "frames m (next_handle m) = None" "h \<noteq> next_handle m"
    using assms fresh_less [of m h f] by (auto simp: running_def fresh_def)
  then show ?thesis using assms
    by (auto simp: machine_step_def task_step_def exec_body_def get_return_object_def set_code_def destroy_def running_def
        fun_upd_twist fun_upd_idem)
qed

text \<open>
  A body runs to its end in \<^verbatim>\<open>body_cost\<close> steps with the outcome, the requests and the inputs left that
  \<^verbatim>\<open>eval_body\<close> says. It leaves no frame behind and touches no other.
\<close>

definition body_done :: "nat \<Rightarrow> ('x, 'v, 'e, 'i) frame \<Rightarrow> ('x, 'v, 'e, 'i) machine \<Rightarrow> 'x + 'v option \<Rightarrow> 'e list
    \<Rightarrow> ('x, 'v, 'e, 'i) machine \<Rightarrow> bool" where
  "body_done h f m r es m' \<longleftrightarrow> (\<exists>n \<ge> next_handle m. m' = m\<lparr>frames := (frames m)(h \<mapsto> f\<lparr>code := Exec (ended r)\<rparr>),
     next_handle := n, requests := requests m @ es\<rparr>)"

definition body_runs :: "nat \<Rightarrow> ('x, 'v, 'e, 'i) frame \<Rightarrow> ('x, 'v, 'e, 'i) body \<Rightarrow> ('x, 'v, 'e, 'i) machine \<Rightarrow> 'i list \<Rightarrow> bool" where
  "body_runs h f b m is = (case run_machine (body_cost b is) (m, is) of (m', rest) \<Rightarrow>
     (case eval_body b is of
        (Some r, es, is') \<Rightarrow> rest = is' \<and> body_done h f m r es m'
      | (None, es, is') \<Rightarrow> rest = [] \<and> is' = [] \<and> (\<exists>h'. control m' = Suspended h') \<and> requests m' = requests m @ es))"

lemma body_runsI_done:
  assumes "eval_body b is = (Some r, es, is')" "run_machine (body_cost b is) (m, is) = (m', is')" "body_done h f m r es m'"
  shows "body_runs h f b m is"
  using assms by (simp add: body_runs_def)

lemma body_runsD_done:
  assumes "body_runs h f b m is" "eval_body b is = (Some r, es, is')"
  obtains m' where "run_machine (body_cost b is) (m, is) = (m', is')" "body_done h f m r es m'"
  using assms by (auto simp: body_runs_def split: prod.splits)

text \<open>The steps before a body's rest, the rest, and the two together.\<close>

lemma body_runs_prepend:
  assumes pre: "run_machine n (m, is) = (m1, is1)" and rest: "body_runs h f1 b1 m1 is1"
    and cost: "body_cost b is = n + body_cost b1 is1"
    and ev: "eval_body b is = (case eval_body b1 is1 of (q, es', is') \<Rightarrow> (q, es @ es', is'))"
    and m1: "m1 = m\<lparr>frames := (frames m)(h \<mapsto> f1), next_handle := n1, requests := requests m @ es\<rparr>"
    and n1: "next_handle m \<le> n1" and f1: "f1 = f\<lparr>code := c1\<rparr>"
  shows "body_runs h f b m is"
proof -
  have "run_machine (body_cost b is) (m, is) = run_machine (body_cost b1 is1) (m1, is1)"
    by (simp add: cost run_machine_add pre)
  with rest n1 show ?thesis
    by (auto simp: body_runs_def body_done_def ev m1 f1 split: prod.splits option.splits intro: le_trans)
qed

lemma ended_simps [simp]: "ended (Inl x) = Co_throw x" "ended (Inr v) = Co_return v"
  by (simp_all add: ended_def)

lemma body_runs_ended:
  assumes "running h f (ended r) m" "eval_body b is = (Some r, [], is)" "body_cost b is = 0"
  shows "body_runs h f b m is"
proof -
  have "m = m\<lparr>frames := (frames m)(h \<mapsto> f\<lparr>code := Exec (ended r)\<rparr>), next_handle := next_handle m, requests := requests m @ []\<rparr>"
    using assms(1) by (cases m; cases f) (auto simp: running_def)
  then have "body_done h f m r [] m" unfolding body_done_def by blast
  with assms show ?thesis by (simp add: body_runs_def)
qed

lemma body_runs_await:
  assumes rm: "running h f (Co_await kd b k) m" and kd: "kd \<noteq> Detached" and ty: "has_type kd b"
    and IHb: "\<And>c g m'. running c g b m' \<Longrightarrow> kind g = kd \<Longrightarrow> body_runs c g b m' is"
    and IHk: "\<And>r f' m' is'. fits kd r \<Longrightarrow> running h f' (k r) m' \<Longrightarrow> kind f' = kind f \<Longrightarrow> body_runs h f' (k r) m' is'"
  shows "body_runs h f (Co_await kd b k) m is"
proof -
  define c where "c = next_handle m"
  define g :: "('a, 'b, 'c, 'd) frame" where "g = \<lparr>kind = kd, code = Exec b, continuation = Some h, result = None, exception = None\<rparr>"
  define m1 where "m1 = m\<lparr>frames := (frames m)(h \<mapsto> f\<lparr>code := AwaitTask c k\<rparr>, c \<mapsto> g), next_handle := c + 1, control := Running c\<rparr>"
  have hc: "h < c" and fr: "fresh m" and fh: "frames m h = Some f" "control m = Running h"
    using rm fresh_less [of m h f] by (auto simp: running_def c_def)
  have s1: "run_machine 2 (m, is) = (m1, is)" using step_await [OF rm kd] by (simp add: m1_def c_def g_def)
  have g: "running c g b m1" using fr hc by (auto simp: running_def m1_def g_def fresh_def c_def)
  have b: "body_runs c g b m1 is" by (rule IHb [OF g]) (simp add: g_def)
  show ?thesis
  proof (cases "fst (eval_body b is)")
    case None
    then obtain es is' where ev: "eval_body b is = (None, es, is')" by (metis prod.collapse)
    have "run_machine (body_cost (Co_await kd b k) is) (m, is) = run_machine (body_cost b is) (m1, is)"
      unfolding body_cost.simps ev add_0_right prod.case option.case by (simp only: run_machine_add s1)
    with b ev show ?thesis by (auto simp: body_runs_def m1_def split: prod.splits)
  next
    case (Some r)
    then obtain es is' where ev: "eval_body b is = (Some r, es, is')" by (metis prod.collapse)
    from body_runsD_done [OF b ev] obtain m2 where m2: "run_machine (body_cost b is) (m1, is) = (m2, is')" "body_done c g m1 r es m2" .
    then obtain n where n: "c + 1 \<le> n" "m2 = m1\<lparr>frames := (frames m1)(c \<mapsto> g\<lparr>code := Exec (ended r)\<rparr>), next_handle := n, requests := requests m1 @ es\<rparr>"
      by (auto simp: body_done_def m1_def)
    define m3 where "m3 = m2\<lparr>frames := (frames m2)(c := None, h \<mapsto> f\<lparr>code := Exec (k r)\<rparr>), control := Running h\<rparr>"
    have fit: "fits kd r" by (rule eval_fits [OF ty ev])
    have s3: "run_machine 2 (m2, is') = (m3, is')" using hc kd fit
      by (subst step_resume [where c = c and g = "g\<lparr>code := Exec (ended r)\<rparr>" and f = "f\<lparr>code := AwaitTask c k\<rparr>" and h = h and r = r and k = k])
         (simp_all add: m3_def n m1_def g_def)
    have m3: "m3 = m\<lparr>frames := (frames m)(h \<mapsto> f\<lparr>code := Exec (k r)\<rparr>), next_handle := n, requests := requests m @ es\<rparr>"
      using hc fr fh(2) by (cases m) (auto simp: m3_def n m1_def fresh_def c_def fun_eq_iff)
    have "running h (f\<lparr>code := Exec (k r)\<rparr>) (k r) m3" using fr n(1) hc fh by (auto simp: m3 running_def fresh_def c_def)
    then have k: "body_runs h (f\<lparr>code := Exec (k r)\<rparr>) (k r) m3 is'" by (intro IHk fit) simp_all
    show ?thesis
    proof (rule body_runs_prepend [OF _ k])
      show "run_machine (2 + body_cost b is + 2) (m, is) = (m3, is')" by (simp only: run_machine_add s1 m2 s3)
    qed (use n(1) in \<open>auto simp: ev m3 c_def split: prod.split\<close>)
  qed
qed

lemma body_runs_typed:
  "has_type kd b \<Longrightarrow> running h f b m \<Longrightarrow> kind f = kd \<Longrightarrow> body_runs h f b m ins"
proof (induction arbitrary: h f m ins rule: has_type.induct)
  case type_return
  then show ?case by (intro body_runs_ended [OF _ eval_body.simps(1)]) simp_all
next
  case type_throw
  then show ?case by (intro body_runs_ended [OF _ eval_body.simps(2)]) simp_all
next
  case (type_await kd' b kd k)
  then show ?case by (intro body_runs_await) blast+
next
  case (type_wait kd k e h f m ins)
  show ?case
  proof (cases ins)
    case Nil
    then show ?thesis using step_wait [OF type_wait.prems(1), of "[]"] by (simp add: body_runs_def del: run_machine.simps One_nat_def)
  next
    case (Cons i ins')
    show ?thesis unfolding Cons
    proof (rule body_runs_prepend [OF step_wait_resume [OF type_wait.prems(1)]])
      show "body_runs h (f\<lparr>code := Exec (k i)\<rparr>) (k i) (m\<lparr>frames := (frames m)(h \<mapsto> f\<lparr>code := Exec (k i)\<rparr>), requests := requests m @ [e]\<rparr>) ins'"
        using type_wait.prems by (intro type_wait.IH) (auto simp: running_def fresh_def)
    qed (auto split: prod.splits)
  qed
next
  case (type_drop kd' b' kd b h f m ins)
  show ?case
  proof (rule body_runs_prepend [OF step_drop [OF type_drop.prems(1)]])
    show "body_runs h (f\<lparr>code := Exec b\<rparr>) b (m\<lparr>frames := (frames m)(h \<mapsto> f\<lparr>code := Exec b\<rparr>), next_handle := next_handle m + 1\<rparr>) ins"
      using type_drop.prems by (intro type_drop.IH(2)) (auto simp: running_def fresh_def)
  qed (auto split: prod.splits)
qed


lemma fresh_next: "fresh m \<Longrightarrow> frames m (next_handle m) = None"
  by (simp add: fresh_def)

subsection \<open>Type safety\<close>

text \<open>
  The frames that wait for the task of handle \<^verbatim>\<open>h\<close>, innermost first. Each is suspended at the \<^verbatim>\<open>co_await\<close>
  of the one before it and typed for the results this task can have.
\<close>

fun callers_ok :: "(nat \<Rightarrow> ('x, 'v, 'e, 'i) frame option) \<Rightarrow> nat \<Rightarrow> task_kind \<Rightarrow> nat option \<Rightarrow> nat list \<Rightarrow> bool" where
  "callers_ok fr h kd cont [] = (cont = None)"
| "callers_ok fr h kd cont (h' # hs) = (cont = Some h' \<and> kd \<noteq> Detached \<and> (\<exists>f k. fr h' = Some f \<and> code f = AwaitTask h k
     \<and> result f = None \<and> exception f = None \<and> (\<forall>r. fits kd r \<longrightarrow> has_type (kind f) (k r))
     \<and> callers_ok fr h' (kind f) (continuation f) hs))"

definition chain_ok :: "('x, 'v, 'e, 'i) machine \<Rightarrow> nat \<Rightarrow> ('x, 'v, 'e, 'i) frame \<Rightarrow> nat list \<Rightarrow> bool" where
  "chain_ok m h f hs \<longleftrightarrow> distinct (h # hs) \<and> dom (frames m) = set (h # hs) \<and> frames m h = Some f
     \<and> result f = None \<and> exception f = None \<and> callers_ok (frames m) h (kind f) (continuation f) hs"

text \<open>
  The typed states. The live frames are exactly the chain of the running one and its callers, up to
  the finished task whose result the running one is about to take.
\<close>

definition resume_ok :: "('x, 'v, 'e, 'i) machine \<Rightarrow> nat \<Rightarrow> bool" where
  "resume_ok m h \<longleftrightarrow> (\<exists>c g k hs r. frames m c = Some g \<and> code g = Final \<and> c \<noteq> h \<and> task_await_resume g = Some r
     \<and> (\<exists>f. code f = AwaitTask c k \<and> has_type (kind f) (k r) \<and> chain_ok (destroy c m) h f hs))"

definition machine_typed :: "('x, 'v, 'e, 'i) machine \<Rightarrow> bool" where
  "machine_typed m \<longleftrightarrow> fresh m \<and> (case control m of
       Running h \<Rightarrow> (\<exists>f hs b. chain_ok m h f hs \<and> (code f = Initial b \<or> code f = Exec b) \<and> has_type (kind f) b) \<or> resume_ok m h
     | Suspended h \<Rightarrow> \<exists>f hs e k. chain_ok m h f hs \<and> code f = AwaitBackend e k \<and> (\<forall>i. has_type (kind f) (k i))
     | Noop \<Rightarrow> \<forall>f \<in> ran (frames m). code f = Final
     | Terminated \<Rightarrow> \<exists>h f x. frames m = [h \<mapsto> f] \<and> kind f = Detached \<and> code f = Exec (Co_throw x)
     | Dangling \<Rightarrow> False)"

lemma callers_ok_cong:
  "(\<And>x. x \<in> set hs \<Longrightarrow> fr x = fr' x) \<Longrightarrow> callers_ok fr h kd cont hs = callers_ok fr' h kd cont hs"
  by (induction hs arbitrary: h kd cont) fastforce+

lemma chain_ok_set_code:
  assumes "chain_ok m h f hs"
  shows "chain_ok (set_code h c m) h (f\<lparr>code := c\<rparr>) hs"
proof -
  have "callers_ok (frames (set_code h c m)) h (kind f) (continuation f) hs"
    using assms by (subst callers_ok_cong [where fr' = "frames m"]) (auto simp: chain_ok_def set_code_def)
  then show ?thesis using assms by (auto simp: chain_ok_def set_code_def)
qed

lemma chain_ok_cong: "frames m' = frames m \<Longrightarrow> chain_ok m' h f hs = chain_ok m h f hs"
  by (simp add: chain_ok_def)

lemma fresh_set_code [intro]: "fresh m \<Longrightarrow> fresh (set_code h c m)"
  by (auto simp: fresh_def set_code_def)

lemma fresh_cong: "frames m' = frames m \<Longrightarrow> next_handle m' = next_handle m \<Longrightarrow> fresh m' = fresh m"
  by (simp add: fresh_def)

lemma chain_callers_Nil:
  "chain_ok m h f hs \<Longrightarrow> kind f = Detached \<Longrightarrow> hs = []"
  by (cases hs) (auto simp: chain_ok_def)

text \<open>A task whose promise holds a fitting result gives it to the frame that awaits it.\<close>

lemma finish_task_typed:
  assumes ch: "chain_ok m h f hs" and fr: "fresh m" and kd: "kind f \<noteq> Detached"
    and f': "kind f' = kind f" "continuation f' = continuation f" "task_await_resume f' = Some r" "fits (kind f) r"
  shows "machine_typed (finish_frame h f' m)"
proof -
  have m': "finish_frame h f' m = m\<lparr>frames := (frames m)(h \<mapsto> f'\<lparr>code := Final\<rparr>), control := final_await_suspend f'\<rparr>"
    using kd f'(1) by (cases "kind f") (simp_all add: finish_frame_def)
  have fr': "fresh (finish_frame h f' m)" using fr ch fresh_less [of m h f] by (auto simp: m' fresh_def chain_ok_def)
  show ?thesis
  proof (cases hs)
    case Nil
    then have "frames m = [h \<mapsto> f]" using ch by (auto simp: chain_ok_def dom_eq_singleton_conv)
    then show ?thesis using ch fr' Nil f' by (auto simp: machine_typed_def m' final_await_suspend_def chain_ok_def ran_def)
  next
    case (Cons h' hs')
    then obtain g k where g: "continuation f = Some h'" "frames m h' = Some g" "code g = AwaitTask h k" "result g = None" "exception g = None"
      "has_type (kind g) (k r)" "callers_ok (frames m) h' (kind g) (continuation g) hs'"
      using ch f'(4) by (auto simp: chain_ok_def)
    have d: "h \<noteq> h'" "h \<notin> set hs'" "h' \<notin> set hs'" "distinct hs'" "dom (frames m) = insert h (insert h' (set hs'))"
      using ch Cons by (auto simp: chain_ok_def)
    let ?m = "destroy h (finish_frame h f' m)"
    have "callers_ok (frames ?m) h' (kind g) (continuation g) hs'"
      using g(7) d by (subst callers_ok_cong [where fr' = "frames m"]) (auto simp: m' destroy_def)
    then have "chain_ok ?m h' g hs'" using g d by (auto simp: chain_ok_def m' destroy_def)
    then have "resume_ok (finish_frame h f' m) h'" unfolding resume_ok_def using d g f'(3)
      by (intro exI [of _ h] exI [of _ "f'\<lparr>code := Final\<rparr>"] exI [of _ k] exI [of _ hs'] exI [of _ r])
         (auto simp: m' await_resume_defs intro!: exI [of _ g] split: option.splits task_kind.splits)
    then show ?thesis using fr' f'(2) g(1) by (simp add: machine_typed_def m' final_await_suspend_def)
  qed
qed


lemma return_typed:
  assumes ch: "chain_ok m h f hs" and fr: "fresh m" and ty: "fits (kind f) (Inr r :: 'x + 'v option)"
  shows "machine_typed (finish_frame h (return_result r (f :: ('x, 'v, 'e, 'i) frame)) m)"
proof (cases "kind f = Detached")
  case True
  then have "frames m = [h \<mapsto> f]" using ch chain_callers_Nil [OF ch] by (auto simp: chain_ok_def dom_eq_singleton_conv)
  then show ?thesis using True fr by (auto simp: machine_typed_def finish_frame_def return_result_def destroy_def fresh_def)
next
  case False
  then have "task_await_resume (return_result r f) = Some (Inr r)" using ty ch
    by (cases "kind f") (auto simp: await_resume_defs return_result_def fits_def chain_ok_def)
  then show ?thesis using False ty ch fr
    by (intro finish_task_typed [where r = "Inr r"]) (auto simp: return_result_def split: task_kind.splits)
qed

lemma throw_typed:
  assumes ch: "chain_ok m h f hs" and fr: "fresh m" and c: "code f = Exec (Co_throw x)"
  shows "machine_typed (exec_body h f (Co_throw x) m)"
proof (cases "kind f = Detached")
  case True
  then have "frames m = [h \<mapsto> f]" using ch chain_callers_Nil [OF ch] by (auto simp: chain_ok_def dom_eq_singleton_conv)
  then show ?thesis using True fr c by (auto simp: machine_typed_def exec_body_def unhandled_exception_def fresh_def)
next
  case False
  then have u: "unhandled_exception x f = Some (f\<lparr>exception := Some x\<rparr>)"
    by (cases "kind f") (simp_all add: unhandled_exception_def)
  have "machine_typed (finish_frame h (f\<lparr>exception := Some x\<rparr>) m)" using False ch fr
    by (intro finish_task_typed [where r = "Inl x"]) (simp_all add: await_resume_defs fits_def split: task_kind.split)
  then show ?thesis by (simp add: exec_body_def u)
qed

lemma await_typed:
  assumes ch: "chain_ok m h f hs" and fr: "fresh m"
    and ty: "kd \<noteq> Detached" "has_type kd b" "\<And>r. fits kd r \<Longrightarrow> has_type (kind f) (k r)"
  shows "machine_typed (exec_body h f (Co_await kd b k) m)"
proof -
  define c where "c = next_handle m"
  let ?g = "(promise_init kd b)\<lparr>continuation := Some h\<rparr>" and ?m = "exec_body h f (Co_await kd b k) m"
  have fh: "frames m h = Some f" and c: "c \<notin> set (h # hs)" "frames m c = None" using ch fresh_next [OF fr] by (auto simp: chain_ok_def c_def)
  then have m': "?m = m\<lparr>frames := (frames m)(h \<mapsto> f\<lparr>code := AwaitTask c k\<rparr>, c \<mapsto> ?g), next_handle := c + 1, control := Running c\<rparr>"
    by (simp add: exec_body_def get_return_object_def task_await_suspend_def set_continuation_def set_code_def c_def [symmetric] fun_upd_twist)
  have "callers_ok (frames ?m) h (kind f) (continuation f) hs"
    using ch c by (subst callers_ok_cong [where fr' = "frames m"]) (auto simp: m' chain_ok_def)
  moreover have g: "code ?g = Initial b" "kind ?g = kd" "result ?g = None" "exception ?g = None" "continuation ?g = Some h"
    using ty(1) by (cases kd; simp add: promise_init_def)+
  ultimately have "chain_ok ?m c ?g (h # hs)" using ch c ty fh unfolding chain_ok_def by (auto simp: m')
  moreover have "fresh ?m" using fr ch fresh_less [of m h f] by (auto simp: m' fresh_def c_def chain_ok_def)
  ultimately show ?thesis using ty g(1,2) by (auto simp: machine_typed_def m')
qed

lemma exec_body_typed:
  assumes ch: "chain_ok m h f hs" and fr: "fresh m" and c: "code f = Exec b" "control m = Running h" and ty: "has_type (kind f) b"
  shows "machine_typed (exec_body h f b m)"
  using ty
proof cases
  case (type_return r)
  then show ?thesis using return_typed [OF ch fr, of r] by (simp add: exec_body_def)
next
  case (type_throw x)
  then show ?thesis using throw_typed [OF ch fr] c by simp
next
  case (type_await kd b' k)
  then show ?thesis using await_typed [OF ch fr] by blast
next
  case (type_wait k e)
  then have "machine_typed ((set_code h (AwaitBackend e k) m)\<lparr>control := Suspended h, requests := requests m @ [e]\<rparr>)"
    using chain_ok_set_code [OF ch, of "AwaitBackend e k"] fresh_set_code [OF fr, of h "AwaitBackend e k"]
    unfolding machine_typed_def by (auto simp: chain_ok_def fresh_def)
  then show ?thesis by (simp add: type_wait exec_body_def)
next
  case (type_drop kd b' b'')
  let ?m = "exec_body h f b m"
  have n: "h \<noteq> next_handle m" "frames m (next_handle m) = None" using fresh_next [OF fr] ch by (auto simp: chain_ok_def)
  then have m': "?m = (set_code h (Exec b'') m)\<lparr>next_handle := next_handle m + 1\<rparr>"
    by (auto simp: type_drop exec_body_def get_return_object_def destroy_def set_code_def fun_upd_twist fun_upd_idem)
  have "chain_ok ?m h (f\<lparr>code := Exec b''\<rparr>) hs"
    using chain_ok_set_code [OF ch, of "Exec b''"] by (simp add: m' chain_ok_def)
  moreover have "fresh ?m" using fresh_set_code [OF fr, of h "Exec b''"] by (auto simp: m' fresh_def set_code_def)
  moreover have "control ?m = Running h" using c by (simp add: m' set_code_def)
  ultimately show ?thesis using type_drop unfolding machine_typed_def by fastforce
qed

lemma task_step_typed:
  assumes m: "machine_typed m" and c: "control m = Running h"
  shows "machine_typed (task_step m)"
proof -
  from m c consider f hs b where "chain_ok m h f hs" "code f = Initial b" "has_type (kind f) b"
    | f hs b where "chain_ok m h f hs" "code f = Exec b" "has_type (kind f) b" | "resume_ok m h"
    by (auto simp: machine_typed_def)
  then show ?thesis
  proof cases
    case (1 f hs b)
    then have "task_step m = set_code h (Exec b) m" using c by (simp add: task_step_def chain_ok_def)
    then show ?thesis using chain_ok_set_code [OF 1(1), of "Exec b"] fresh_set_code [of m h "Exec b"] m c 1(3)
      by (fastforce simp: machine_typed_def set_code_def)
  next
    case (2 f hs b)
    then show ?thesis using exec_body_typed [of m h f hs b] m c by (simp add: machine_typed_def task_step_def chain_ok_def)
  next
    case 3
    then obtain cc g k hs r f where r: "frames m cc = Some g" "cc \<noteq> h" "task_await_resume g = Some r"
      "code f = AwaitTask cc k" "has_type (kind f) (k r)" "chain_ok (destroy cc m) h f hs" by (auto simp: resume_ok_def)
    then have "task_step m = set_code h (Exec (k r)) (destroy cc m)" using c by (auto simp: task_step_def chain_ok_def destroy_def)
    moreover have "fresh (destroy cc m)" using m by (auto simp: machine_typed_def fresh_def destroy_def)
    ultimately show ?thesis using chain_ok_set_code [OF r(6), of "Exec (k r)"] fresh_set_code [of "destroy cc m" h "Exec (k r)"] c r(5)
      by (fastforce simp: machine_typed_def set_code_def destroy_def)
  qed
qed

lemma resume_backend_typed:
  assumes m: "machine_typed m" and c: "control m = Suspended h"
  shows "machine_typed (resume_backend i m)"
proof -
  from m c obtain f hs e k where f: "chain_ok m h f hs" "code f = AwaitBackend e k" "has_type (kind f) (k i)" "fresh m"
    by (auto simp: machine_typed_def)
  then have m': "resume_backend i m = (set_code h (Exec (k i)) m)\<lparr>control := Running h\<rparr>"
    using c by (simp add: resume_backend_def chain_ok_def)
  then show ?thesis using chain_ok_set_code [OF f(1), of "Exec (k i)"] fresh_set_code [OF f(4), of h "Exec (k i)"] f(3)
    by (fastforce simp: machine_typed_def chain_ok_def fresh_def)
qed

lemma machine_step_typed: "machine_typed m \<Longrightarrow> machine_step (m, ins) = Some (m', ins') \<Longrightarrow> machine_typed m'"
  using task_step_typed resume_backend_typed by (fastforce simp: machine_step_def split: control.splits list.splits)

lemma run_machine_typed: "machine_typed m \<Longrightarrow> machine_typed (fst (run_machine n (m, ins)))"
proof (induction n arbitrary: m ins)
  case (Suc n)
  then show ?case using machine_step_typed by (fastforce split: option.split)
qed simp


subsection \<open>The detached driver\<close>

definition driver :: "('x, 'v, 'e, 'i) body \<Rightarrow> ('x, 'v, 'e, 'i) body" where
  "driver handler = Co_await VoidTask handler (\<lambda>r. case r of Inl x \<Rightarrow> Co_throw x | Inr _ \<Rightarrow> Co_return None)"

definition driver_frame :: "('x, 'v, 'e, 'i) body \<Rightarrow> ('x, 'v, 'e, 'i) frame" where
  "driver_frame handler = \<lparr>kind = Detached, code = Exec (driver handler), continuation = None, result = None, exception = None\<rparr>"

lemma dispatch_handler_eq:
  "dispatch_handler handler = \<lparr>frames = [0 \<mapsto> driver_frame handler], next_handle = 1, control = Running 0, requests = []\<rparr>"
  by (simp add: dispatch_handler_def get_return_object_def empty_machine_def promise_init_def driver_frame_def driver_def)

lemma driver_typed: "has_type VoidTask handler \<Longrightarrow> has_type Detached (driver handler)"
  unfolding driver_def by (rule type_await) (auto simp: fits_def intro: has_type.intros split: sum.splits)

lemma dispatch_handler_typed:
  assumes "has_type VoidTask handler"
  shows "machine_typed (dispatch_handler handler)"
proof -
  have "chain_ok (dispatch_handler handler) 0 (driver_frame handler) []"
    by (simp add: chain_ok_def dispatch_handler_eq driver_frame_def)
  then show ?thesis using driver_typed [OF assms] unfolding machine_typed_def
    by (auto simp: fresh_def dispatch_handler_eq driver_frame_def intro!: exI)
qed

lemma driver_runs:
  assumes "has_type VoidTask handler"
  shows "body_runs 0 (driver_frame handler) (driver handler) (dispatch_handler handler) ins"
  using driver_typed [OF assms]
  by (rule body_runs_typed) (simp_all add: running_def dispatch_handler_eq driver_frame_def fresh_def)

text \<open>What a machine does from the end of the driver's body on.\<close>

lemma driver_end:
  assumes "body_done 0 (driver_frame handler) (dispatch_handler handler) r es m"
  defines "m' \<equiv> task_step m"
  shows "control m = Running 0" and "requests m' = es"
    and "r = Inr v \<Longrightarrow> control m' = Noop \<and> frames m' = Map.empty"
    and "r = Inl x \<Longrightarrow> control m' = Terminated"
proof -
  obtain k where "m = \<lparr>frames = [0 \<mapsto> (driver_frame handler)\<lparr>code := Exec (ended r)\<rparr>], next_handle = k, control = Running 0, requests = es\<rparr>"
    using assms(1) by (auto simp: body_done_def dispatch_handler_eq)
  then show "control m = Running 0" "requests m' = es" "r = Inr v \<Longrightarrow> control m' = Noop \<and> frames m' = Map.empty"
    "r = Inl x \<Longrightarrow> control m' = Terminated"
    by (cases r; simp add: m'_def task_step_def exec_body_def return_result_def unhandled_exception_def finish_frame_def
        destroy_def driver_frame_def)+
qed

definition handler_ends :: "('x, 'v, 'e, 'i) body \<Rightarrow> 'i list \<Rightarrow> ('x, 'v, 'e, 'i) machine \<times> 'i list \<Rightarrow> bool" where
  "handler_ends handler ins s = (case s of (m, rest) \<Rightarrow> (case eval_body handler ins of
       (Some (Inr _), es, ins') \<Rightarrow> rest = ins' \<and> requests m = es \<and> control m = Noop \<and> frames m = Map.empty
     | (Some (Inl _), es, ins') \<Rightarrow> rest = ins' \<and> requests m = es \<and> control m = Terminated
     | (None, es, _) \<Rightarrow> rest = [] \<and> requests m = es \<and> (\<exists>h. control m = Suspended h)))"

lemma handler_ends_rest: "handler_ends handler ins s \<Longrightarrow> machine_step s = None"
  by (auto simp: handler_ends_def machine_step_def split: prod.splits option.splits sum.splits)

lemma driver_terminates:
  assumes "has_type VoidTask handler" "body_cost handler ins + 5 \<le> n"
  shows "handler_ends handler ins (run_machine n (dispatch_handler handler, ins))"
proof -
  let ?f = "driver_frame handler" and ?m = "dispatch_handler handler" and ?c = "body_cost (driver handler) ins"
  have c: "?c \<le> body_cost handler ins + 4" by (simp add: driver_def split: prod.splits option.splits sum.splits)
  have runs: "body_runs 0 ?f (driver handler) ?m ins" by (rule driver_runs [OF assms(1)])
  have "n = ?c + Suc (n - ?c - 1)" using c assms(2) by simp
  then obtain k where n: "n = ?c + Suc k" by blast
  show ?thesis
  proof (cases "eval_body handler ins")
    case (fields q es ins')
    show ?thesis
    proof (cases q)
      case None
      then have ev: "eval_body (driver handler) ins = (None, es, ins')" using fields by (simp add: driver_def)
      with runs obtain m where m: "run_machine ?c (?m, ins) = (m, [])" "\<exists>h. control m = Suspended h" "requests m = es"
        by (auto simp: body_runs_def dispatch_handler_eq split: prod.splits)
      then have "machine_step (m, []) = None" by (auto simp: machine_step_def)
      then have "run_machine n (?m, ins) = (m, [])" unfolding n run_machine_add m(1) by (rule run_machine_rest)
      then show ?thesis using m None fields by (simp add: handler_ends_def)
    next
      case (Some r)
      then have ev: "eval_body (driver handler) ins = (Some (case r of Inl x \<Rightarrow> Inl x | Inr _ \<Rightarrow> Inr None), es, ins')"
        using fields by (simp add: driver_def split: sum.split)
      from body_runsD_done [OF runs ev] obtain m where m: "run_machine ?c (?m, ins) = (m, ins')"
        "body_done 0 ?f ?m (case r of Inl x \<Rightarrow> Inl x | Inr _ \<Rightarrow> Inr None) es m" .
      have e: "handler_ends handler ins (task_step m, ins')"
        using driver_end(2-4) [OF m(2)] Some fields by (cases r) (simp_all add: handler_ends_def)
      have "run_machine n (?m, ins) = run_machine k (task_step m, ins')"
        unfolding n run_machine_add m(1) using driver_end(1) [OF m(2)] by (simp add: machine_step_def)
      then show ?thesis using e run_machine_rest [OF handler_ends_rest [OF e]] by simp
    qed
  qed
qed

text \<open>A step that is never taken again: what the machine ends in it has not passed.\<close>

lemma run_machine_absorbed:
  assumes "machine_step (run_machine n s) = None"
  shows "run_machine (max n k) s = run_machine n s"
  using assms run_machine_add [of n "max n k - n" s] by (simp add: run_machine_rest)

text \<open>
  Claim C29. Awaiting tasks is sequential composition and always comes to an end: a typed handler run by the
  detached driver is finished after \<^verbatim>\<open>body_cost handler ins + 5\<close> transitions, however deeply its tasks
  await each other, and then has made the requests and used the inputs that the direct reading
  \<^verbatim>\<open>eval_body\<close> says. If the handler returned, no coroutine frame is left; if an exception left it, the
  process is terminated; and if the inputs were used up, it is suspended in the backend.
\<close>

theorem handler_runs_to_end:
  assumes "has_type VoidTask handler" "body_cost handler ins + 5 \<le> n"
  shows "case run_machine n (dispatch_handler handler, ins) of (m, rest) \<Rightarrow> (case eval_body handler ins of
       (Some (Inr _), es, ins') \<Rightarrow> rest = ins' \<and> requests m = es \<and> control m = Noop \<and> frames m = Map.empty
     | (Some (Inl _), es, ins') \<Rightarrow> rest = ins' \<and> requests m = es \<and> control m = Terminated
     | (None, es, _) \<Rightarrow> rest = [] \<and> requests m = es \<and> (\<exists>h. control m = Suspended h))"
  using driver_terminates [OF assms] by (simp add: handler_ends_def)

definition echo_handler :: "(string, nat, string, nat) body" where
  "echo_handler = Co_drop VoidTask (Co_throw ''never run'')
     (Co_await ValueTask (Co_wait ''read'' (\<lambda>i. Co_return (Some i)))
       (\<lambda>r. case r of Inl x \<Rightarrow> Co_throw x | Inr _ \<Rightarrow> Co_wait ''write'' (\<lambda>i. if i = 0 then Co_throw ''reset'' else Co_return None)))"

lemma echo_handler_typed: "has_type VoidTask echo_handler"
  unfolding echo_handler_def by (auto simp: fits_def intro!: has_type.intros split: sum.splits)

theorem handler_runs_to_end_witness:
  "(let (m, rest) = run_machine 20 (dispatch_handler echo_handler, [7, 1, 9])
    in rest = [9] \<and> requests m = [''read'', ''write''] \<and> control m = Noop \<and> frames m = Map.empty)"
  using handler_runs_to_end [OF echo_handler_typed, of "[7, 1, 9]" 20] by (simp add: echo_handler_def Let_def del: run_machine.simps)

lemma driver_safe:
  assumes "has_type VoidTask handler"
  shows "case run_machine n (dispatch_handler handler, ins) of (m, rest) \<Rightarrow>
     machine_typed m \<and> control m \<noteq> Dangling \<and>
     (control m = Terminated \<longrightarrow> (\<exists>x es. eval_body handler ins = (Some (Inl x), es, rest)))"
proof -
  obtain m rest where r: "run_machine n (dispatch_handler handler, ins) = (m, rest)" by fastforce
  have t: "machine_typed m"
    using run_machine_typed [OF dispatch_handler_typed [OF assms], of n ins] by (simp add: r)
  have "\<exists>x es. eval_body handler ins = (Some (Inl x), es, rest)" if "control m = Terminated"
  proof -
    have "machine_step (run_machine n (dispatch_handler handler, ins)) = None" using that by (simp add: r machine_step_def)
    from run_machine_absorbed [OF this, of "body_cost handler ins + 5"] driver_terminates [OF assms, of ins "max n (body_cost handler ins + 5)"]
    show ?thesis using that by (auto simp: r handler_ends_def split: prod.splits option.splits sum.splits)
  qed
  with t show ?thesis by (auto simp: r machine_typed_def)
qed

text \<open>
  Claim C30. Tasks are type safe: whenever a typed handler is stopped, the live coroutine frames are exactly the
  chain from the running or suspended one through the tasks awaiting it to the driver, each typed for
  the result it waits for, apart from the one finished task whose result is about to be taken. So no
  destroyed or finished frame is ever resumed, \<^verbatim>\<open>await_resume\<close> never meets a task without result, and
  the process terminates only for an exception that leaves the handler.
\<close>

theorem handler_type_safe:
  assumes "has_type VoidTask handler"
  shows "case run_machine n (dispatch_handler handler, ins) of (m, rest) \<Rightarrow>
     machine_typed m \<and> control m \<noteq> Dangling \<and>
     (control m = Terminated \<longrightarrow> (\<exists>x es. eval_body handler ins = (Some (Inl x), es, rest)))"
  by (rule driver_safe [OF assms])

theorem handler_type_safe_witness:
  "machine_typed (fst (run_machine 9 (dispatch_handler echo_handler, [7, 0])))
     \<and> control (fst (run_machine 9 (dispatch_handler echo_handler, [7, 0]))) \<noteq> Dangling"
  using handler_type_safe [OF echo_handler_typed, where n = 9 and ins = "[7, 0]"]
  by (simp add: case_prod_unfold del: run_machine.simps)


subsection \<open>Ownership of the frames\<close>

text \<open>
  The \<^verbatim>\<open>Task\<close> objects of a program, by the variable that holds them; each is a handle or empty.
\<close>

type_synonym ('x, 'v, 'e, 'i) task_store = "(nat \<Rightarrow> nat option) \<times> ('x, 'v, 'e, 'i) machine"

definition destroy_handle :: "nat option \<Rightarrow> ('x, 'v, 'e, 'i) machine \<Rightarrow> ('x, 'v, 'e, 'i) machine" where
  "destroy_handle ho m = (case ho of Some h \<Rightarrow> destroy h m | None \<Rightarrow> m)"

definition task_construct :: "nat \<Rightarrow> task_kind \<Rightarrow> ('x, 'v, 'e, 'i) body \<Rightarrow> ('x, 'v, 'e, 'i) task_store \<Rightarrow> ('x, 'v, 'e, 'i) task_store" where
  "task_construct i kd b s = (case s of (ts, m) \<Rightarrow> (case get_return_object kd b m of (h, m') \<Rightarrow> (ts(i \<mapsto> h), m')))"

definition task_move_construct :: "nat \<Rightarrow> nat \<Rightarrow> ('x, 'v, 'e, 'i) task_store \<Rightarrow> ('x, 'v, 'e, 'i) task_store" where
  "task_move_construct i j s = (case s of (ts, m) \<Rightarrow> (ts(i := ts j, j := None), m))"

definition task_move_assign :: "nat \<Rightarrow> nat \<Rightarrow> ('x, 'v, 'e, 'i) task_store \<Rightarrow> ('x, 'v, 'e, 'i) task_store" where
  "task_move_assign i j s = (case s of (ts, m) \<Rightarrow>
     if i = j then (ts, m) else (ts(i := ts j, j := None), destroy_handle (ts i) m))"

definition task_destruct :: "nat \<Rightarrow> ('x, 'v, 'e, 'i) task_store \<Rightarrow> ('x, 'v, 'e, 'i) task_store" where
  "task_destruct i s = (case s of (ts, m) \<Rightarrow> (ts(i := None), destroy_handle (ts i) m))"

definition task_valid :: "nat \<Rightarrow> ('x, 'v, 'e, 'i) task_store \<Rightarrow> bool" where
  "task_valid i s = (fst s i \<noteq> None)"

text \<open>Every frame belongs to exactly one task object, and every non-empty task object to a frame.\<close>

definition owned :: "('x, 'v, 'e, 'i) task_store \<Rightarrow> bool" where
  "owned s \<longleftrightarrow> inj_on (fst s) (dom (fst s)) \<and> ran (fst s) = dom (frames (snd s)) \<and> fresh (snd s)"

lemma owned_construct: "owned s \<Longrightarrow> \<not> task_valid i s \<Longrightarrow> owned (task_construct i kd b s) \<and> task_valid i (task_construct i kd b s)"
proof -
  assume o: "owned s" and v: "\<not> task_valid i s"
  obtain ts m where s: "s = (ts, m)" by (cases s)
  have n: "next_handle m \<notin> ran ts" "ts i = None" using o v fresh_next [of m] by (auto simp: s owned_def task_valid_def)
  then have "inj_on (ts(i \<mapsto> next_handle m)) (dom (ts(i \<mapsto> next_handle m)))"
    using o by (auto simp: s owned_def inj_on_def ran_def)
  then show ?thesis using o n by (auto simp: s owned_def task_construct_def get_return_object_def task_valid_def fresh_def)
qed

lemma frames_destroy_handle: "dom (frames (destroy_handle ho m)) = dom (frames m) - set_option ho"
  by (cases ho) (auto simp: destroy_handle_def destroy_def dom_def)

lemma fresh_destroy_handle: "fresh m \<Longrightarrow> fresh (destroy_handle ho m)"
  by (auto simp: destroy_handle_def destroy_def fresh_def split: option.split)

lemma ran_minus: "inj_on ts (dom ts) \<Longrightarrow> ran (ts(i := None)) = ran ts - set_option (ts i)"
  by (auto simp: ran_def inj_on_def dom_def)

lemma ran_move: "i \<noteq> j \<Longrightarrow> ran (ts(i := ts j, j := None)) = ran (ts(i := None))"
  by (auto simp: ran_def split: if_splits)

lemma owned_destruct: "owned s \<Longrightarrow> owned (task_destruct i s) \<and> \<not> task_valid i (task_destruct i s)"
  by (cases s) (auto simp: owned_def task_destruct_def task_valid_def ran_minus frames_destroy_handle fresh_destroy_handle inj_on_def)

lemma owned_move_assign:
  assumes "owned s" "i \<noteq> j"
  shows "owned (task_move_assign i j s) \<and> \<not> task_valid j (task_move_assign i j s) \<and> task_valid i (task_move_assign i j s) = task_valid j s"
proof -
  obtain ts m where s: "s = (ts, m)" by (cases s)
  have "inj_on (ts(i := ts j, j := None)) (dom (ts(i := ts j, j := None)))"
    using assms by (auto simp: s owned_def inj_on_def dom_def split: if_splits)
  then show ?thesis using assms
    by (simp add: s owned_def task_move_assign_def task_valid_def ran_move ran_minus frames_destroy_handle fresh_destroy_handle)
qed

lemma owned_move_construct:
  "owned s \<Longrightarrow> \<not> task_valid i s \<Longrightarrow> i \<noteq> j \<Longrightarrow> owned (task_move_construct i j s) \<and> task_valid i (task_move_construct i j s) = task_valid j s"
  using owned_move_assign [of s i j]
  by (cases s) (simp add: task_move_construct_def task_move_assign_def task_valid_def destroy_handle_def)

end
