(* ===== verification/Async_Ops.thy ===== *)
theory Async_Ops
  imports Prelude Errors Task
begin

text \<open>
  The operations that suspend a coroutine in the backend: \<^verbatim>\<open>TcpStream::read\<close> and \<^verbatim>\<open>write\<close> of
  \<^verbatim>\<open>net/asio_tcp_stream.cpp\<close>, and \<^verbatim>\<open>pool\<close> and \<^verbatim>\<open>sleep\<close> of \<^verbatim>\<open>include/aevox/async.hpp\<close> over the two thread
  pools and the timers of the executor.
\<close>

subsection \<open>Reading and writing a TCP stream\<close>

text \<open>The error codes of asio the stream tells apart, and what a read or write completes with.\<close>

datatype asio_error = NoError | AsioEof | OperationAborted | ConnectionReset | OtherError

record read_awaitable =
  ra_max_bytes :: nat
  ra_buffer :: octets
  ra_error :: "IoError option"

definition read_suspend :: "nat \<Rightarrow> read_awaitable" where
  "read_suspend max_bytes = \<lparr>ra_max_bytes = max_bytes, ra_buffer = replicate max_bytes 0, ra_error = None\<rparr>"

text \<open>asio has written \<^verbatim>\<open>received\<close> to the start of the buffer; the handler then cuts it to \<^verbatim>\<open>n\<close> octets.\<close>

definition buffer_fill :: "octets \<Rightarrow> octets \<Rightarrow> octets" where
  "buffer_fill buf received = received @ drop (length received) buf"

definition read_complete :: "asio_error \<Rightarrow> octets \<Rightarrow> read_awaitable \<Rightarrow> read_awaitable" where
  "read_complete ec received a =
     (let a = a\<lparr>ra_buffer := buffer_fill (ra_buffer a) received\<rparr> in
      case ec of
        NoError \<Rightarrow> a\<lparr>ra_buffer := take (length received) (ra_buffer a)\<rparr>
      | AsioEof \<Rightarrow> a\<lparr>ra_error := Some IoEof, ra_buffer := []\<rparr>
      | OperationAborted \<Rightarrow> a\<lparr>ra_error := Some IoCancelled\<rparr>
      | ConnectionReset \<Rightarrow> a\<lparr>ra_error := Some IoReset\<rparr>
      | OtherError \<Rightarrow> a\<lparr>ra_error := Some IoUnknown\<rparr>)"

definition read_resume :: "read_awaitable \<Rightarrow> IoError + octets" where
  "read_resume a = (case ra_error a of Some e \<Rightarrow> Inl e | None \<Rightarrow> Inr (ra_buffer a))"

record write_awaitable =
  wa_data :: octets
  wa_error :: "IoError option"

definition write_ready :: "write_awaitable \<Rightarrow> bool" where
  "write_ready a \<longleftrightarrow> wa_data a = []"

definition write_complete :: "asio_error \<Rightarrow> write_awaitable \<Rightarrow> write_awaitable" where
  "write_complete ec a = (case ec of
       NoError \<Rightarrow> a
     | OperationAborted \<Rightarrow> a\<lparr>wa_error := Some IoCancelled\<rparr>
     | ConnectionReset \<Rightarrow> a\<lparr>wa_error := Some IoReset\<rparr>
     | _ \<Rightarrow> a\<lparr>wa_error := Some IoUnknown\<rparr>)"

definition write_resume :: "write_awaitable \<Rightarrow> IoError + unit" where
  "write_resume a = (case wa_error a of Some e \<Rightarrow> Inl e | None \<Rightarrow> Inr ())"

text \<open>
  The requests of the two coroutines to asio, and their results as values of a task. The other
  requests of a program and the results of its other tasks are parameters, and a completion carries
  the result of such a request beside the error code and the octets of a stream operation.
\<close>

datatype 'e backend_request = ReadSome nat | WriteAll octets | OtherRequest 'e

datatype 'r task_value = ReadResult "IoError + octets" | WriteResult "IoError + unit" | TaskResult 'r

type_synonym 'i completion = "asio_error \<times> octets \<times> 'i"

type_synonym ('x, 'r, 'e, 'i) io_body = "('x, 'r task_value, 'e backend_request, 'i completion) body"

definition tcp_read :: "nat \<Rightarrow> ('x, 'r, 'e, 'i) io_body" where
  "tcp_read max_bytes = Co_wait (ReadSome max_bytes)
     (\<lambda>(ec, received, _). Co_return (Some (ReadResult (read_resume (read_complete ec received (read_suspend max_bytes))))))"

definition tcp_write :: "octets \<Rightarrow> ('x, 'r, 'e, 'i) io_body" where
  "tcp_write data =
     (let a = \<lparr>wa_data = data, wa_error = None\<rparr> in
      if write_ready a then Co_return (Some (WriteResult (write_resume a)))
      else Co_wait (WriteAll data) (\<lambda>(ec, _). Co_return (Some (WriteResult (write_resume (write_complete ec a))))))"

text \<open>A \<^verbatim>\<open>TcpStream\<close>: its implementation is gone once it has been moved from.\<close>

definition stream_valid :: "'s option \<Rightarrow> bool" where
  "stream_valid impl \<longleftrightarrow> impl \<noteq> None"

definition stream_move :: "'s option \<Rightarrow> 's option \<times> 's option" where
  "stream_move impl = (impl, None)"

lemma tcp_read_typed: "has_type ValueTask (tcp_read n)"
  by (auto simp: tcp_read_def fits_def split: prod.split intro!: type_wait type_return)

lemma tcp_write_typed: "has_type ValueTask (tcp_write data)"
  by (auto simp: tcp_write_def Let_def fits_def split: prod.split intro!: type_wait type_return)

lemma read_resume_complete:
  "read_resume (read_complete ec received (read_suspend n)) = (case ec of
       NoError \<Rightarrow> Inr received
     | AsioEof \<Rightarrow> Inl IoEof | OperationAborted \<Rightarrow> Inl IoCancelled | ConnectionReset \<Rightarrow> Inl IoReset | OtherError \<Rightarrow> Inl IoUnknown)"
  by (simp add: read_resume_def read_complete_def read_suspend_def buffer_fill_def Let_def split: asio_error.split)

lemma eval_tcp_read:
  "eval_body (tcp_read n) ((ec, received, x) # ins)
     = (Some (Inr (Some (ReadResult (read_resume (read_complete ec received (read_suspend n)))))), [ReadSome n], ins)"
  by (simp add: tcp_read_def)

text \<open>A write of no octets is not a request to the backend; an end of file while writing is an unknown error.\<close>

lemma eval_tcp_write:
  "eval_body (tcp_write data) ((ec, x) # ins) =
     (if data = [] then (Some (Inr (Some (WriteResult (Inr ())))), [], (ec, x) # ins)
      else (Some (Inr (Some (WriteResult (case ec of NoError \<Rightarrow> Inr () | OperationAborted \<Rightarrow> Inl IoCancelled
              | ConnectionReset \<Rightarrow> Inl IoReset | _ \<Rightarrow> Inl IoUnknown)))), [WriteAll data], ins))"
  by (simp add: tcp_write_def Let_def write_ready_def write_resume_def write_complete_def split: asio_error.split)


subsection \<open>Offloading to the CPU pool, and sleeping\<close>

text \<open>
  The awaitable of \<^verbatim>\<open>pool(fn)\<close>. A callable returns \<^verbatim>\<open>Some v\<close>, returns nothing if it is \<^verbatim>\<open>void\<close>, or
  throws; \<^verbatim>\<open>pa_void\<close> is the compile-time test on its result type.
\<close>

record ('x, 'v) pool_awaitable =
  pa_void :: bool
  pa_result :: "'v option"
  pa_exception :: "'x option"

definition pool_invoke :: "'x + 'v option \<Rightarrow> ('x, 'v) pool_awaitable \<Rightarrow> ('x, 'v) pool_awaitable" where
  "pool_invoke outcome a = (case outcome of
       Inl x \<Rightarrow> a\<lparr>pa_exception := Some x\<rparr>
     | Inr v \<Rightarrow> if pa_void a then a else a\<lparr>pa_result := v\<rparr>)"

text \<open>\<^verbatim>\<open>None\<close> is \<^verbatim>\<open>std::terminate\<close>.\<close>

definition pool_resume :: "('x, 'v) pool_awaitable \<Rightarrow> ('x + 'v option) option" where
  "pool_resume a = (case pa_exception a of
       Some x \<Rightarrow> Some (Inl x)
     | None \<Rightarrow> if \<not> pa_void a then (case pa_result a of Some v \<Rightarrow> Some (Inr (Some v)) | None \<Rightarrow> None)
               else Some (Inr None))"

text \<open>
  What waits in the thread pools: the callable of a suspended caller, or the resumption of a caller.
  A caller that sleeps waits for a timer; an expired timer resumes it on an I/O thread.
\<close>

datatype pool_job = RunFn nat | ResumeCaller nat

datatype which_pool = CpuPool | IoPool

datatype ('x, 'v) async_event =
    Called nat which_pool
  | ResumedWith nat "('x + 'v option) option"
  | WokeAt nat int

record ('x, 'v) async_state =
  has_cpu_pool :: bool
  cpu_jobs :: "pool_job list"
  io_jobs :: "pool_job list"
  timers :: "(int \<times> nat) list"
  clock :: int
  pool_ops :: "nat \<Rightarrow> ('x, 'v) pool_awaitable option"
  sleep_ops :: "nat \<Rightarrow> int option"
  async_log :: "('x, 'v) async_event list"

definition async_start :: "bool \<Rightarrow> ('x, 'v) async_state" where
  "async_start cpu = \<lparr>has_cpu_pool = cpu, cpu_jobs = [], io_jobs = [], timers = [], clock = 0,
     pool_ops = Map.empty, sleep_ops = Map.empty, async_log = []\<rparr>"

definition post_to_io :: "pool_job \<Rightarrow> ('x, 'v) async_state \<Rightarrow> ('x, 'v) async_state" where
  "post_to_io j s = s\<lparr>io_jobs := io_jobs s @ [j]\<rparr>"

text \<open>Without a CPU pool its bridge is bound to the I/O pool.\<close>

definition post_to_cpu :: "pool_job \<Rightarrow> ('x, 'v) async_state \<Rightarrow> ('x, 'v) async_state" where
  "post_to_cpu j s = (if has_cpu_pool s then s\<lparr>cpu_jobs := cpu_jobs s @ [j]\<rparr> else post_to_io j s)"

definition schedule_after :: "int \<Rightarrow> nat \<Rightarrow> ('x, 'v) async_state \<Rightarrow> ('x, 'v) async_state" where
  "schedule_after duration c s = s\<lparr>timers := timers s @ [(clock s + duration, c)]\<rparr>"

definition pool_suspend :: "bool \<Rightarrow> nat \<Rightarrow> ('x, 'v) async_state \<Rightarrow> ('x, 'v) async_state" where
  "pool_suspend is_void c s = post_to_cpu (RunFn c)
     (s\<lparr>pool_ops := (pool_ops s)(c \<mapsto> \<lparr>pa_void = is_void, pa_result = None, pa_exception = None\<rparr>)\<rparr>)"

definition sleep_suspend :: "int \<Rightarrow> nat \<Rightarrow> ('x, 'v) async_state \<Rightarrow> ('x, 'v) async_state" where
  "sleep_suspend duration c s = schedule_after duration c (s\<lparr>sleep_ops := (sleep_ops s)(c \<mapsto> clock s + duration)\<rparr>)"

text \<open>A thread of a pool runs a job it took; \<open>fns c\<close> is what the callable of caller \<open>c\<close> does.\<close>

definition run_pool_job :: "(nat \<Rightarrow> 'x + 'v option) \<Rightarrow> which_pool \<Rightarrow> pool_job \<Rightarrow> ('x, 'v) async_state \<Rightarrow> ('x, 'v) async_state" where
  "run_pool_job fns p j s = (case j of
       RunFn c \<Rightarrow> post_to_io (ResumeCaller c)
         (s\<lparr>pool_ops := (pool_ops s)(c := map_option (pool_invoke (fns c)) (pool_ops s c)), async_log := async_log s @ [Called c p]\<rparr>)
     | ResumeCaller c \<Rightarrow> s\<lparr>async_log := async_log s @ [ResumedWith c (Option.bind (pool_ops s c) pool_resume)]\<rparr>)"

definition remove_at :: "nat \<Rightarrow> 'a list \<Rightarrow> 'a list" where
  "remove_at i xs = take i xs @ drop (Suc i) xs"

text \<open>
  The steps, in any order: callers suspend, threads take any waiting job, time passes, timers fire.
\<close>

inductive async_step :: "(nat \<Rightarrow> 'x + 'v option) \<Rightarrow> ('x, 'v) async_state \<Rightarrow> ('x, 'v) async_state \<Rightarrow> bool" for fns where
  as_pool: "pool_ops s c = None \<Longrightarrow> (\<forall>v. fns c = Inr v \<longrightarrow> is_void = (v = None)) \<Longrightarrow> async_step fns s (pool_suspend is_void c s)"
| as_sleep: "sleep_ops s c = None \<Longrightarrow> async_step fns s (sleep_suspend duration c s)"
| as_cpu: "i < length (cpu_jobs s) \<Longrightarrow>
    async_step fns s (run_pool_job fns CpuPool (cpu_jobs s ! i) (s\<lparr>cpu_jobs := remove_at i (cpu_jobs s)\<rparr>))"
| as_io: "i < length (io_jobs s) \<Longrightarrow>
    async_step fns s (run_pool_job fns IoPool (io_jobs s ! i) (s\<lparr>io_jobs := remove_at i (io_jobs s)\<rparr>))"
| as_timer: "i < length (timers s) \<Longrightarrow> timers s ! i = (d, c) \<Longrightarrow> d \<le> clock s \<Longrightarrow>
    async_step fns s (s\<lparr>timers := remove_at i (timers s), async_log := async_log s @ [WokeAt c (clock s)]\<rparr>)"
| as_tick: "clock s \<le> now \<Longrightarrow> async_step fns s (s\<lparr>clock := now\<rparr>)"

text \<open>The two coroutines: what they return is what their awaitable resumes with.\<close>

definition pool_task :: "'e \<Rightarrow> ('x, 'v, 'e, 'x + 'v option) body" where
  "pool_task req = Co_wait req (\<lambda>r. case r of Inl x \<Rightarrow> Co_throw x | Inr v \<Rightarrow> Co_return v)"

definition sleep_task :: "'e \<Rightarrow> ('x, 'v, 'e, 'i) body" where
  "sleep_task req = Co_wait req (\<lambda>_. Co_return None)"

lemma eval_pool_task: "eval_body (pool_task req) (r # ins) = (Some r, [req], ins)"
  by (simp add: pool_task_def split: sum.split)

lemma sleep_task_typed: "has_type VoidTask (sleep_task req)"
  by (simp add: sleep_task_def type_wait type_return fits_def)

subsection \<open>What happens to one caller\<close>

definition job_caller :: "pool_job \<Rightarrow> nat" where
  "job_caller j = (case j of RunFn c \<Rightarrow> c | ResumeCaller c \<Rightarrow> c)"

definition jobs_of :: "nat \<Rightarrow> pool_job list \<Rightarrow> pool_job list" where
  "jobs_of c js = filter (\<lambda>j. job_caller j = c) js"

definition pool_log :: "nat \<Rightarrow> ('x, 'v) async_event list \<Rightarrow> ('x, 'v) async_event list" where
  "pool_log c evs = filter (\<lambda>e. case e of Called c' _ \<Rightarrow> c' = c | ResumedWith c' _ \<Rightarrow> c' = c | WokeAt _ _ \<Rightarrow> False) evs"

definition wake_log :: "nat \<Rightarrow> ('x, 'v) async_event list \<Rightarrow> int list" where
  "wake_log c evs = concat (map (\<lambda>e. case e of WokeAt c' t \<Rightarrow> if c' = c then [t] else [] | _ \<Rightarrow> []) evs)"

definition fn_pool :: "('x, 'v) async_state \<Rightarrow> which_pool" where
  "fn_pool s = (if has_cpu_pool s then CpuPool else IoPool)"

text \<open>A caller of \<^verbatim>\<open>pool\<close> is queued with its callable, then queued for resumption, then resumed.\<close>

definition pool_ok :: "(nat \<Rightarrow> 'x + 'v option) \<Rightarrow> nat \<Rightarrow> ('x, 'v) async_state \<Rightarrow> bool" where
  "pool_ok fns c s \<longleftrightarrow> (case pool_ops s c of
       None \<Rightarrow> jobs_of c (cpu_jobs s) = [] \<and> jobs_of c (io_jobs s) = [] \<and> pool_log c (async_log s) = []
     | Some a \<Rightarrow> (\<forall>v. fns c = Inr v \<longrightarrow> pa_void a = (v = None)) \<and>
         ((jobs_of c (cpu_jobs s) = (if has_cpu_pool s then [RunFn c] else []) \<and> jobs_of c (io_jobs s) = (if has_cpu_pool s then [] else [RunFn c])
            \<and> pool_log c (async_log s) = [] \<and> pa_result a = None \<and> pa_exception a = None)
        \<or> (jobs_of c (cpu_jobs s) = [] \<and> jobs_of c (io_jobs s) = [ResumeCaller c]
            \<and> pool_log c (async_log s) = [Called c (fn_pool s)] \<and> pool_resume a = Some (fns c))
        \<or> (jobs_of c (cpu_jobs s) = [] \<and> jobs_of c (io_jobs s) = []
            \<and> pool_log c (async_log s) = [Called c (fn_pool s), ResumedWith c (Some (fns c))])))"

definition sleep_ok :: "nat \<Rightarrow> ('x, 'v) async_state \<Rightarrow> bool" where
  "sleep_ok c s \<longleftrightarrow> (case sleep_ops s c of
       None \<Rightarrow> filter (\<lambda>t. snd t = c) (timers s) = [] \<and> wake_log c (async_log s) = []
     | Some d \<Rightarrow> (filter (\<lambda>t. snd t = c) (timers s) = [(d, c)] \<and> wake_log c (async_log s) = [])
         \<or> (filter (\<lambda>t. snd t = c) (timers s) = [] \<and> (\<exists>t \<ge> d. wake_log c (async_log s) = [t])))"

lemma filter_remove_at:
  assumes "i < length xs"
  shows "filter P xs = filter P (take i xs) @ (if P (xs ! i) then [xs ! i] else []) @ filter P (drop (Suc i) xs)"
  using assms by (subst id_take_nth_drop [OF assms]) simp

lemma filter_remove_at_single:
  assumes "i < length xs"
  shows "\<not> P (xs ! i) \<Longrightarrow> filter P (remove_at i xs) = filter P xs"
    and "P (xs ! i) \<Longrightarrow> filter P xs = [y] \<Longrightarrow> filter P (remove_at i xs) = [] \<and> xs ! i = y"
    and "P (xs ! i) \<Longrightarrow> filter P xs \<noteq> []"
  using filter_remove_at [OF assms, of P] by (auto simp: remove_at_def append_eq_Cons_conv Cons_eq_append_conv split: if_splits)


lemma pool_log_simps [simp]:
  "pool_log c [] = []" "pool_log c (evs @ evs') = pool_log c evs @ pool_log c evs'"
  "pool_log c [Called c' p] = (if c' = c then [Called c' p] else [])"
  "pool_log c [ResumedWith c' r] = (if c' = c then [ResumedWith c' r] else [])"
  "pool_log c [WokeAt c' t] = []"
  by (simp_all add: pool_log_def)

lemma wake_log_simps [simp]:
  "wake_log c [] = []" "wake_log c (evs @ evs') = wake_log c evs @ wake_log c evs'"
  "wake_log c [Called c' p] = []" "wake_log c [ResumedWith c' r] = []"
  "wake_log c [WokeAt c' t] = (if c' = c then [t] else [])"
  by (simp_all add: wake_log_def)

lemma jobs_of_simps [simp]:
  "jobs_of c [] = []" "jobs_of c (js @ js') = jobs_of c js @ jobs_of c js'"
  "jobs_of c [j] = (if job_caller j = c then [j] else [])"
  by (simp_all add: jobs_of_def)

lemma job_caller_simps [simp]: "job_caller (RunFn c) = c" "job_caller (ResumeCaller c) = c"
  by (simp_all add: job_caller_def)

lemma pool_ok_cong:
  assumes "pool_ops s' c = pool_ops s c" "jobs_of c (cpu_jobs s') = jobs_of c (cpu_jobs s)"
    "jobs_of c (io_jobs s') = jobs_of c (io_jobs s)" "pool_log c (async_log s') = pool_log c (async_log s)" "has_cpu_pool s' = has_cpu_pool s"
  shows "pool_ok fns c s' = pool_ok fns c s"
  using assms by (simp add: pool_ok_def fn_pool_def cong: option.case_cong)

lemma run_other:
  assumes "job_caller j \<noteq> c"
  shows "pool_ok fns c (run_pool_job fns p j s) = pool_ok fns c s"
  using assms by (cases j; intro pool_ok_cong) (simp_all add: run_pool_job_def post_to_io_def)

lemma jobs_of_remove_at:
  assumes "i < length js"
  shows "job_caller (js ! i) \<noteq> c \<Longrightarrow> jobs_of c (remove_at i js) = jobs_of c js"
    and "job_caller (js ! i) = c \<Longrightarrow> jobs_of c js = [j] \<Longrightarrow> jobs_of c (remove_at i js) = [] \<and> js ! i = j"
    and "job_caller (js ! i) = c \<Longrightarrow> jobs_of c js \<noteq> []"
  using filter_remove_at_single [OF assms, of "\<lambda>j. job_caller j = c"] by (auto simp: jobs_of_def)

lemma pool_resume_invoke:
  assumes "pa_result a = None" "pa_exception a = None" "\<forall>v. outcome = Inr v \<longrightarrow> pa_void a = (v = None)"
  shows "pool_resume (pool_invoke outcome a) = Some outcome" "pa_void (pool_invoke outcome a) = pa_void a"
  using assms by (cases outcome; auto simp: pool_resume_def pool_invoke_def split: option.split)+

text \<open>The two jobs of a caller, run.\<close>

lemma run_fn_ok:
  assumes "pool_ops s c = Some a" "\<forall>v. fns c = Inr v \<longrightarrow> pa_void a = (v = None)" "pa_result a = None" "pa_exception a = None"
    "jobs_of c (cpu_jobs s) = []" "jobs_of c (io_jobs s) = []" "pool_log c (async_log s) = []" "p = fn_pool s"
  shows "pool_ok fns c (run_pool_job fns p (RunFn c) s)"
  using assms pool_resume_invoke [of a "fns c"]
  by (auto simp: run_pool_job_def pool_ok_def post_to_io_def fn_pool_def)

lemma run_resume_ok:
  assumes "pool_ops s c = Some a" "\<forall>v. fns c = Inr v \<longrightarrow> pa_void a = (v = None)" "pool_resume a = Some (fns c)"
    "jobs_of c (cpu_jobs s) = []" "jobs_of c (io_jobs s) = []" "pool_log c (async_log s) = [Called c (fn_pool s)]"
  shows "pool_ok fns c (run_pool_job fns p (ResumeCaller c) s)"
  using assms by (simp add: run_pool_job_def pool_ok_def fn_pool_def)

lemma async_step_pool_ok:
  assumes "async_step fns s s'" "pool_ok fns c s"
  shows "pool_ok fns c s'"
  using assms(1)
proof cases
  case (as_pool c' is_void)
  show ?thesis
  proof (cases "c' = c")
    case True
    then show ?thesis using assms(2) as_pool
      by (auto simp: pool_ok_def pool_suspend_def post_to_cpu_def post_to_io_def)
  next
    case False
    have "pool_ok fns c s' = pool_ok fns c s"
      by (rule pool_ok_cong) (use False as_pool in \<open>simp_all add: pool_suspend_def post_to_cpu_def post_to_io_def\<close>)
    then show ?thesis using assms(2) by simp
  qed
next
  case (as_cpu i)
  let ?s = "s\<lparr>cpu_jobs := remove_at i (cpu_jobs s)\<rparr>" and ?j = "cpu_jobs s ! i"
  note r = jobs_of_remove_at [OF as_cpu(2), of c]
  show ?thesis
  proof (cases "job_caller ?j = c")
    case True
    with r(3) assms(2) obtain a where a: "pool_ops s c = Some a" "jobs_of c (cpu_jobs s) = [RunFn c]" "has_cpu_pool s"
      "jobs_of c (io_jobs s) = []" "pool_log c (async_log s) = []" "pa_result a = None" "pa_exception a = None"
      "\<forall>v. fns c = Inr v \<longrightarrow> pa_void a = (v = None)"
      by (auto simp: pool_ok_def split: option.splits if_splits)
    with r(2) [OF True a(2)] show ?thesis unfolding as_cpu(1)
      by (auto simp: fn_pool_def intro!: run_fn_ok [of ?s c a])
  next
    case False
    have "pool_ok fns c ?s = pool_ok fns c s" by (rule pool_ok_cong) (simp_all add: r(1) [OF False])
    then show ?thesis using assms(2) by (simp add: as_cpu(1) run_other [OF False])
  qed
next
  case (as_io i)
  let ?s = "s\<lparr>io_jobs := remove_at i (io_jobs s)\<rparr>" and ?j = "io_jobs s ! i"
  note r = jobs_of_remove_at [OF as_io(2), of c]
  show ?thesis
  proof (cases "job_caller ?j = c")
    case True
    from r(3) [OF True] assms(2) obtain a where a: "pool_ops s c = Some a" "\<forall>v. fns c = Inr v \<longrightarrow> pa_void a = (v = None)"
      and or: "(jobs_of c (io_jobs s) = [RunFn c] \<and> \<not> has_cpu_pool s \<and> jobs_of c (cpu_jobs s) = [] \<and> pool_log c (async_log s) = []
          \<and> pa_result a = None \<and> pa_exception a = None)
        \<or> (jobs_of c (io_jobs s) = [ResumeCaller c] \<and> jobs_of c (cpu_jobs s) = [] \<and> pool_log c (async_log s) = [Called c (fn_pool s)]
          \<and> pool_resume a = Some (fns c))"
      by (auto simp: pool_ok_def split: option.splits if_splits)
    from or show ?thesis
    proof (elim disjE conjE)
      assume *: "jobs_of c (io_jobs s) = [RunFn c]" "\<not> has_cpu_pool s" "jobs_of c (cpu_jobs s) = []" "pool_log c (async_log s) = []"
        "pa_result a = None" "pa_exception a = None"
      with a r(2) [OF True *(1)] show ?thesis unfolding as_io(1)
        by (auto simp: fn_pool_def intro!: run_fn_ok [of ?s c a])
    next
      assume *: "jobs_of c (io_jobs s) = [ResumeCaller c]" "jobs_of c (cpu_jobs s) = []" "pool_log c (async_log s) = [Called c (fn_pool s)]"
        "pool_resume a = Some (fns c)"
      with a r(2) [OF True *(1)] show ?thesis unfolding as_io(1)
        by (auto simp: fn_pool_def intro!: run_resume_ok [of ?s c a])
    qed
  next
    case False
    have "pool_ok fns c ?s = pool_ok fns c s" by (rule pool_ok_cong) (simp_all add: r(1) [OF False])
    then show ?thesis using assms(2) by (simp add: as_io(1) run_other [OF False])
  qed
qed (use assms(2) in \<open>simp_all add: pool_ok_def fn_pool_def sleep_suspend_def schedule_after_def cong: option.case_cong\<close>)


text \<open>A sleeping caller has one timer until it is woken, which is not before its deadline.\<close>

lemma sleep_ok_cong:
  assumes "sleep_ops s' c = sleep_ops s c" "timers s' = timers s" "wake_log c (async_log s') = wake_log c (async_log s)"
  shows "sleep_ok c s' = sleep_ok c s"
  using assms by (simp add: sleep_ok_def cong: option.case_cong)

lemma run_pool_job_sleep: "sleep_ok c (run_pool_job fns p j s) = sleep_ok c s"
  by (cases j; intro sleep_ok_cong) (simp_all add: run_pool_job_def post_to_io_def)

lemma async_step_sleep_ok:
  assumes "async_step fns s s'" "sleep_ok c s"
  shows "sleep_ok c s'"
  using assms(1)
proof cases
  case (as_pool c' is_void)
  have "sleep_ok c s' = sleep_ok c s"
    by (rule sleep_ok_cong) (simp_all add: as_pool pool_suspend_def post_to_cpu_def post_to_io_def)
  then show ?thesis using assms(2) by simp
next
  case (as_sleep c' duration)
  then show ?thesis using assms(2)
    by (cases "c' = c") (auto simp: sleep_ok_def sleep_suspend_def schedule_after_def split: option.splits)
next
  case (as_timer i d c')
  let ?P = "\<lambda>t :: int \<times> nat. snd t = c"
  note r = filter_remove_at_single [OF as_timer(2), of ?P]
  show ?thesis
  proof (cases "c' = c")
    case True
    then have p: "?P (timers s ! i)" using as_timer by simp
    with r(3) assms(2) obtain d' where s: "sleep_ops s c = Some d'" "filter ?P (timers s) = [(d', c)]" "wake_log c (async_log s) = []"
      by (auto simp: sleep_ok_def split: option.splits)
    with r(2) [OF p s(2)] show ?thesis using as_timer True by (auto simp: sleep_ok_def)
  next
    case False
    then show ?thesis using r(1) as_timer assms(2) by (simp add: sleep_ok_def cong: option.case_cong)
  qed
next
  case (as_cpu i)
  have "sleep_ok c (s\<lparr>cpu_jobs := remove_at i (cpu_jobs s)\<rparr>) = sleep_ok c s" by (rule sleep_ok_cong) simp_all
  then show ?thesis using assms(2) by (simp add: as_cpu(1) run_pool_job_sleep)
next
  case (as_io i)
  have "sleep_ok c (s\<lparr>io_jobs := remove_at i (io_jobs s)\<rparr>) = sleep_ok c s" by (rule sleep_ok_cong) simp_all
  then show ?thesis using assms(2) by (simp add: as_io(1) run_pool_job_sleep)
qed (use assms(2) in \<open>simp add: sleep_ok_def cong: option.case_cong\<close>)

text \<open>The states a program reaches from idle pools.\<close>

definition async_reachable :: "(nat \<Rightarrow> 'x + 'v option) \<Rightarrow> bool \<Rightarrow> ('x, 'v) async_state \<Rightarrow> bool" where
  "async_reachable fns cpu s \<longleftrightarrow> (async_step fns)\<^sup>*\<^sup>* (async_start cpu) s"

lemma async_step_pools: "async_step fns s s' \<Longrightarrow> has_cpu_pool s' = has_cpu_pool s"
  by (erule async_step.cases)
     (auto simp: pool_suspend_def sleep_suspend_def post_to_cpu_def post_to_io_def schedule_after_def run_pool_job_def split: pool_job.split)

interpretation pools: invariant_system "async_step fns" "\<lambda>s. pool_ok fns c s \<and> sleep_ok c s \<and> has_cpu_pool s = cpu" for fns c cpu
  by unfold_locales (metis async_step_pools async_step_pool_ok async_step_sleep_ok)

lemma reachable_ok: "async_reachable fns cpu s \<Longrightarrow> pool_ok fns c s \<and> sleep_ok c s \<and> has_cpu_pool s = cpu"
  unfolding async_reachable_def
  by (erule pools.inv_steps) (simp add: pool_ok_def sleep_ok_def async_start_def)

text \<open>
  Claim C28. \<^verbatim>\<open>pool\<close> and \<^verbatim>\<open>sleep\<close> bring every caller back, once and with the right result, under every
  interleaving of the pool threads and timers: the callable of a caller of \<^verbatim>\<open>pool\<close> runs at most once, on a
  thread of the CPU pool if there is one and else on an I/O thread; the caller is resumed at most
  once and only after it, with the value or the exception of its callable; when no job is left it has
  been resumed; and a caller of \<^verbatim>\<open>sleep\<close> whose timer is gone has been woken once, not before its time.
\<close>

theorem pool_and_sleep_resume_once:
  assumes "async_reachable fns cpu s"
  defines "p \<equiv> (if cpu then CpuPool else IoPool)"
  shows "pool_log c (async_log s) \<in> {[], [Called c p], [Called c p, ResumedWith c (Some (fns c))]}
    \<and> (pool_ops s c \<noteq> None \<and> cpu_jobs s = [] \<and> io_jobs s = [] \<longrightarrow> pool_log c (async_log s) = [Called c p, ResumedWith c (Some (fns c))])
    \<and> (case sleep_ops s c of None \<Rightarrow> wake_log c (async_log s) = []
        | Some d \<Rightarrow> if (d, c) \<in> set (timers s) then wake_log c (async_log s) = [] else (\<exists>t \<ge> d. wake_log c (async_log s) = [t]))"
proof (intro conjI)
  from reachable_ok [OF assms(1), of c] have ok: "pool_ok fns c s" "sleep_ok c s" "fn_pool s = p"
    by (auto simp: p_def fn_pool_def)
  show "pool_log c (async_log s) \<in> {[], [Called c p], [Called c p, ResumedWith c (Some (fns c))]}"
    using ok by (auto simp: pool_ok_def split: option.splits)
  show "pool_ops s c \<noteq> None \<and> cpu_jobs s = [] \<and> io_jobs s = [] \<longrightarrow> pool_log c (async_log s) = [Called c p, ResumedWith c (Some (fns c))]"
    using ok by (auto simp: pool_ok_def split: option.splits if_splits)
  show "case sleep_ops s c of None \<Rightarrow> wake_log c (async_log s) = []
      | Some d \<Rightarrow> if (d, c) \<in> set (timers s) then wake_log c (async_log s) = [] else (\<exists>t \<ge> d. wake_log c (async_log s) = [t])"
    using ok(2) by (auto simp: sleep_ok_def filter_eq_Cons_iff filter_empty_conv split: option.splits)
qed

definition one_pool_run :: "(string, nat) async_state" where
  "one_pool_run = (async_start True)\<lparr>pool_ops := [5 \<mapsto> \<lparr>pa_void = False, pa_result = Some 42, pa_exception = None\<rparr>],
     async_log := [Called 5 CpuPool, ResumedWith 5 (Some (Inr (Some 42)))]\<rparr>"

lemma one_pool_run_reachable: "async_reachable (\<lambda>_. Inr (Some 42)) True one_pool_run"
proof -
  let ?f = "\<lambda>_ :: nat. Inr (Some 42) :: string + nat option"
  let ?s1 = "pool_suspend False 5 (async_start True) :: (string, nat) async_state"
  let ?s2 = "run_pool_job ?f CpuPool (RunFn 5) (?s1\<lparr>cpu_jobs := []\<rparr>)"
  have "async_step ?f (async_start True) ?s1" by (rule as_pool) (simp_all add: async_start_def)
  moreover have "async_step ?f ?s1 ?s2" using as_cpu [of 0 ?s1 ?f]
    by (simp add: pool_suspend_def post_to_cpu_def async_start_def remove_at_def)
  moreover have "async_step ?f ?s2 one_pool_run" using as_io [of 0 ?s2 ?f]
    by (simp add: pool_suspend_def post_to_cpu_def post_to_io_def async_start_def remove_at_def run_pool_job_def one_pool_run_def
        pool_invoke_def pool_resume_def)
  ultimately show ?thesis unfolding async_reachable_def by (meson rtranclp.rtrancl_refl rtranclp.rtrancl_into_rtrancl)
qed

theorem pool_and_sleep_resume_once_witness:
  "pool_log 5 (async_log one_pool_run) = [Called 5 CpuPool, ResumedWith 5 (Some (Inr (Some 42)))]"
  using pool_and_sleep_resume_once [OF one_pool_run_reachable, of 5] by (simp add: one_pool_run_def async_start_def)

subsection \<open>Bodies over a stream\<close>

text \<open>\<^verbatim>\<open>co_await\<close> of a value task within an expression; its exceptions pass on.\<close>

definition await_value :: "('x, 'v, 'e, 'i) body \<Rightarrow> ('v \<Rightarrow> ('x, 'v, 'e, 'i) body) \<Rightarrow> ('x, 'v, 'e, 'i) body" where
  "await_value b k = Co_await ValueTask b
     (\<lambda>r. case r of Inl x \<Rightarrow> Co_throw x | Inr (Some v) \<Rightarrow> k v | Inr None \<Rightarrow> Co_return None)"

definition writes :: "'e backend_request list \<Rightarrow> octets list" where
  "writes es = concat (map (\<lambda>e. case e of WriteAll d \<Rightarrow> [d] | _ \<Rightarrow> []) es)"

lemma writes_simps [simp]: "writes [] = []" "writes (ReadSome k # es) = writes es" "writes (WriteAll d # es) = d # writes es"
  "writes (es @ es') = writes es @ writes es'"
  by (simp_all add: writes_def)

lemma await_value_typed: "has_type ValueTask b \<Longrightarrow> (\<And>v. has_type kd (k v)) \<Longrightarrow> kd \<noteq> ValueTask \<Longrightarrow> has_type kd (await_value b k)"
  unfolding await_value_def
  by (rule type_await) (auto simp: fits_def intro: has_type.intros split: sum.splits option.splits)

lemma return_none_typed: "kd \<noteq> ValueTask \<Longrightarrow> has_type kd (Co_return None)"
  by (simp add: type_return fits_def)

lemma eval_await_value:
  "eval_body b ins = (Some (Inr (Some v)), es, ins') \<Longrightarrow>
     eval_body (await_value b k) ins = (case eval_body (k v) ins' of (q, es', ins'') \<Rightarrow> (q, es @ es', ins''))"
  by (simp add: await_value_def)

lemma eval_await_suspended:
  "eval_body b ins = (None, es, ins') \<Longrightarrow> eval_body (await_value b k) ins = (None, es, ins')"
  by (simp add: await_value_def)

text \<open>What a run of a body makes of its inputs: the outcome, the writes it requests, and what is left.\<close>

definition outcome_of :: "('x + 'v option) option \<times> 'e backend_request list \<times> 'i list \<Rightarrow> ('x + 'v option) option \<times> octets list \<times> 'i list" where
  "outcome_of s = (case s of (r, es, rest) \<Rightarrow> (r, writes es, rest))"

lemma outcome_await:
  assumes "outcome_of (eval_body b ins) = (Some (Inr (Some v)), ws, rest)"
  shows "outcome_of (eval_body (await_value b k) ins)
    = (case outcome_of (eval_body (k v) rest) of (r, ws', rest') \<Rightarrow> (r, ws @ ws', rest'))"
  using assms by (auto simp: outcome_of_def eval_await_value split: prod.splits)

lemma outcome_read:
  "outcome_of (eval_body (await_value (tcp_read m) k) ((ec, d, u) # ins))
     = outcome_of (eval_body (k (ReadResult (case ec of NoError \<Rightarrow> Inr d | AsioEof \<Rightarrow> Inl IoEof | OperationAborted \<Rightarrow> Inl IoCancelled
          | ConnectionReset \<Rightarrow> Inl IoReset | OtherError \<Rightarrow> Inl IoUnknown))) ins)"
  by (simp add: outcome_of_def eval_await_value [OF eval_tcp_read] read_resume_complete split: prod.split)

lemma outcome_read_none: "outcome_of (eval_body (await_value (tcp_read m) k) []) = (None, [], [])"
  by (simp add: outcome_of_def eval_await_suspended tcp_read_def)

lemma eval_tcp_write_some:
  "d \<noteq> [] \<Longrightarrow> eval_body (tcp_write d) ((ec, x) # ins) = (Some (Inr (Some (WriteResult (case ec of NoError \<Rightarrow> Inr ()
      | OperationAborted \<Rightarrow> Inl IoCancelled | ConnectionReset \<Rightarrow> Inl IoReset | _ \<Rightarrow> Inl IoUnknown)))), [WriteAll d], ins)"
  by (simp add: eval_tcp_write)

lemma outcome_write:
  assumes "d \<noteq> []"
  shows "outcome_of (eval_body (await_value (tcp_write d) k) ((ec, x) # ins))
     = (case outcome_of (eval_body (k (WriteResult (case ec of NoError \<Rightarrow> Inr () | OperationAborted \<Rightarrow> Inl IoCancelled
          | ConnectionReset \<Rightarrow> Inl IoReset | _ \<Rightarrow> Inl IoUnknown))) ins) of (r, ws, rest) \<Rightarrow> (r, d # ws, rest))"
  by (simp add: outcome_of_def eval_await_value [OF eval_tcp_write_some [OF assms]] split: prod.split)

lemma outcome_return [simp]: "outcome_of (q, [], ins) = (q, [], ins)"
  by (simp add: outcome_of_def)

end
