(* ===== verification/Connection_Task.thy ===== *)
theory Connection_Task
  imports Connection Async_Ops
begin

text \<open>
  The connection handler of \<^verbatim>\<open>App::listen\<close> as the coroutine it is: its reads, writes and the dispatched
  handler are tasks awaited on the coroutine machine of theory Task. The rounds of its \<^verbatim>\<open>for (;;)\<close>
  loop are bounded by a number that exceeds the rounds the client gives it work for.
\<close>

type_synonym ('x, 'e, 'i) handler_task = "nat \<Rightarrow> (nat, nat) request_impl \<Rightarrow> ('x, response, 'e, 'i) io_body"

text \<open>One round after a request was parsed: dispatch it, write the response, and go on or end.\<close>

definition answer_request :: "('x, 'e, 'i) handler_task \<Rightarrow> ((string \<times> string) list \<Rightarrow> (string \<times> string) list)
    \<Rightarrow> nat \<Rightarrow> (nat, nat) request_impl \<Rightarrow> bool \<Rightarrow> ('x, response, 'e, 'i) io_body \<Rightarrow> ('x, response, 'e, 'i) io_body" where
  "answer_request handler iter n req keep_alive next_round =
     await_value (handler n req) (\<lambda>v. case v of
         TaskResult response \<Rightarrow>
           if response_status response = kStatusSwitchingProtocols then Co_return None
           else await_value (tcp_write (serialize_response iter response)) (\<lambda>w. case w of
               WriteResult (Inr _) \<Rightarrow> if \<not> keep_alive then Co_return None else next_round
             | _ \<Rightarrow> Co_return None)
       | _ \<Rightarrow> Co_return None)"

fun connection_task :: "conn_config \<Rightarrow> nat \<Rightarrow> 'p llhttp \<Rightarrow> ((string \<times> string) list \<Rightarrow> (string \<times> string) list)
    \<Rightarrow> ('x, 'e, 'i) handler_task \<Rightarrow> (nat \<Rightarrow> 64 word) \<Rightarrow> nat \<Rightarrow> nat \<Rightarrow> 'p http_parser \<Rightarrow> ('x, response, 'e, 'i) io_body" where
  "connection_task cfg max_read L iter handler ids 0 n parser = Co_return None"
| "connection_task cfg max_read L iter handler ids (Suc k) n parser =
     await_value (tcp_read max_read) (\<lambda>v. case v of
         ReadResult (Inr buf) \<Rightarrow>
           if buf = [] then Co_return None
           else (case feed L buf parser of
               (Inl e, parser') \<Rightarrow>
                 if e = Incomplete then connection_task cfg max_read L iter handler ids k n parser'
                 else await_value (tcp_write error_bytes) (\<lambda>_. Co_return None)
             | (Inr parsed, parser') \<Rightarrow>
                 (let next_id = ids n + 1 in
                  answer_request handler iter n (build_request cfg next_id parsed) (pr_keep_alive parsed)
                    (connection_task cfg max_read L iter handler ids k (n + 1) (reset L parser'))))
       | _ \<Rightarrow> Co_return None)"

text \<open>The task \<^verbatim>\<open>dispatch_handler\<close> runs for an accepted connection.\<close>

definition connection_handler :: "conn_config \<Rightarrow> nat \<Rightarrow> 'p llhttp \<Rightarrow> ((string \<times> string) list \<Rightarrow> (string \<times> string) list)
    \<Rightarrow> ('x, 'e, 'i) handler_task \<Rightarrow> (nat \<Rightarrow> 64 word) \<Rightarrow> nat \<Rightarrow> ('x, response, 'e, 'i) io_body" where
  "connection_handler cfg max_read L iter handler ids rounds =
     connection_task cfg max_read L iter handler ids rounds 0
       (new_parser L \<lparr>max_header_count = cc_max_headers cfg, max_body_bytes = cc_max_body cfg\<rparr>)"

text \<open>
  What the backend completes in the rounds of an environment: a read for each, then what the handler
  itself waits for (\<open>hins\<close>: results of the CPU pool, timers), and a write after each response. A failed
  read or write gives the error code \<open>err\<close>.
\<close>

fun completions :: "conn_config \<Rightarrow> 'p llhttp \<Rightarrow> dispatcher \<Rightarrow> (nat \<Rightarrow> (nat, nat) request_impl \<Rightarrow> 'i completion list)
    \<Rightarrow> (nat \<Rightarrow> 64 word) \<Rightarrow> asio_error \<Rightarrow> 'i \<Rightarrow> round_env list \<Rightarrow> nat \<Rightarrow> 'p http_parser \<Rightarrow> 'i completion list" where
  "completions cfg L handle hins ids err u [] n parser = []"
| "completions cfg L handle hins ids err u (env # envs) n parser =
     (let wrote = (if re_write_ok env then NoError else err, [], u) in
      case re_read env of
        None \<Rightarrow> [(err, [], u)]
      | Some buf \<Rightarrow> (NoError, buf, u) #
          (if buf = [] then []
           else (case feed L buf parser of
               (Inl e, parser') \<Rightarrow> if e = Incomplete then completions cfg L handle hins ids err u envs n parser' else [wrote]
             | (Inr parsed, parser') \<Rightarrow>
                 (let req = build_request cfg (ids n + 1) parsed in
                  hins n req @ (if response_status (handle n req) = kStatusSwitchingProtocols then []
                  else wrote # (if re_write_ok env \<and> pr_keep_alive parsed
                    then completions cfg L handle hins ids err u envs (n + 1) (reset L parser') else []))))))"

definition wrote :: "conn_event list \<Rightarrow> octets list" where
  "wrote evs = concat (map (\<lambda>e. case e of Wrote d \<Rightarrow> [d] | _ \<Rightarrow> []) evs)"

definition ended_conn :: "conn_event list \<Rightarrow> bool" where
  "ended_conn evs \<longleftrightarrow> (\<exists>r. ClosedConn r \<in> set evs)"

lemma wrote_simps [simp]: "wrote [] = []" "wrote (Wrote d # es) = d # wrote es" "wrote (ClosedConn r # es) = wrote es"
  by (simp_all add: wrote_def)

lemma ended_conn_simps [simp]: "\<not> ended_conn []" "ended_conn (Wrote d # es) = ended_conn es" "ended_conn (ClosedConn r # es)"
  by (auto simp: ended_conn_def)

lemma connection_task_typed:
  assumes "\<And>n req. has_type ValueTask (handler n req)"
  shows "has_type VoidTask (connection_task cfg max_read L iter handler ids k n parser)"
proof (induction k arbitrary: n parser)
  case (Suc k)
  have a: "has_type VoidTask (answer_request handler iter m req ka b)" if "has_type VoidTask b" for m req ka b
    unfolding answer_request_def using assms that
    by (auto intro!: await_value_typed tcp_write_typed return_none_typed split: task_value.split sum.split)
  show ?case
    by (auto simp: Let_def intro!: await_value_typed tcp_read_typed tcp_write_typed return_none_typed Suc a
        split: task_value.split sum.split prod.split)
qed (simp add: return_none_typed)

lemma serialize_response_nonempty [simp]: "serialize_response iter resp \<noteq> []"
  by (simp add: serialize_response_def serialize_head_lines crlf_def)

lemma error_bytes_nonempty [simp]: "error_bytes \<noteq> []"
  by (simp add: error_bytes_def)

lemma outcome_handler:
  assumes "outcome_of (eval_body b (hs @ ins)) = (Some (Inr (Some (TaskResult resp))), [], ins)"
  shows "outcome_of (eval_body (await_value b k) (hs @ ins)) = outcome_of (eval_body (k (TaskResult resp)) ins)"
  by (simp add: outcome_await [OF assms] split: prod.split)

lemma outcome_answer:
  assumes "\<And>ins. outcome_of (eval_body (handler n req) (hs @ ins)) = (Some (Inr (Some (TaskResult resp))), [], ins)"
    and "response_status resp \<noteq> kStatusSwitchingProtocols"
  shows "outcome_of (eval_body (answer_request handler iter n req ka b) (hs @ (ec, x) # ins)) =
     (if ec = NoError \<and> ka then (case outcome_of (eval_body b ins) of (r, ws, rest) \<Rightarrow> (r, serialize_response iter resp # ws, rest))
      else (Some (Inr None), [serialize_response iter resp], ins))"
  unfolding answer_request_def outcome_handler [OF assms(1)]
  by (simp add: assms(2) outcome_write split: asio_error.split)

lemma connection_task_outcome:
  assumes H: "\<And>n req ins. outcome_of (eval_body (handler n req) (hins n req @ ins)) = (Some (Inr (Some (TaskResult (handle n req)))), [], ins)"
    and err: "err \<noteq> NoError"
  shows "length envs < k \<Longrightarrow>
     outcome_of (eval_body (connection_task cfg max_read L iter handler ids k n parser) (completions cfg L handle hins ids err u envs n parser))
       = (let evs = connection_loop cfg L iter handle ids envs n parser in
          (if ended_conn evs then Some (Inr None) else None, wrote evs, []))"
proof (induction envs arbitrary: k n parser)
  case Nil
  then obtain k' where "k = Suc k'" by (cases k) auto
  then show ?case by (simp add: outcome_read_none)
next
  case (Cons env envs)
  then obtain k' where k: "k = Suc k'" "length envs < k'" by (cases k) auto
  note IH = Cons.IH [OF k(2)]
  show ?case
  proof (cases "re_read env")
    case None
    then show ?thesis using err by (cases err) (simp_all add: k(1) outcome_read)
  next
    case (Some buf)
    obtain r parser' where f: "feed L buf parser = (r, parser')" by fastforce
    show ?thesis
    proof (cases r)
      case (Inl e)
      then show ?thesis using Some f IH [of n parser'] by (simp add: k(1) outcome_read outcome_write)
    next
      case (Inr parsed)
      show ?thesis
      proof (cases "response_status (handle n (build_request cfg (ids n + 1) parsed)) = kStatusSwitchingProtocols")
        case True
        then show ?thesis using Some f Inr outcome_handler [OF H [of n "build_request cfg (ids n + 1) parsed" "[]"]]
          by (simp add: k(1) outcome_read answer_request_def Let_def)
      next
        case False
        then show ?thesis using Some f Inr IH [of "n + 1" "reset L parser'"] err
          by (auto simp: k(1) outcome_read outcome_answer [where handler = handler, OF H False] Let_def split: prod.splits)
      qed
    qed
  qed
qed

text \<open>
  Claim C27. The connection coroutine implements the connection loop: run by the detached driver on the machine
  of frames, with handlers that may wait for the backend (for completions \<open>hins\<close>) but write nothing of their
  own and compute the responses \<^verbatim>\<open>handle\<close>, the octets it asks the backend to write
  are those the loop writes, in order; if the loop closes the connection then the coroutine has
  returned and no frame is left, and otherwise it is suspended waiting for the client.
\<close>

theorem connection_coroutine_refines:
  fixes handler :: "('x, 'e, 'i) handler_task" and cfg and L :: "'p llhttp" and iter handle hins ids envs
  assumes "\<And>n req. has_type ValueTask (handler n req)"
    and "\<And>n req ins. outcome_of (eval_body (handler n req) (hins n req @ ins)) = (Some (Inr (Some (TaskResult (handle n req)))), [], ins)"
    and "err \<noteq> NoError" "length envs < rounds"
  defines "parser \<equiv> new_parser L \<lparr>max_header_count = cc_max_headers cfg, max_body_bytes = cc_max_body cfg\<rparr>"
    and "evs \<equiv> run_connection cfg L iter handle ids envs"
  shows "\<exists>N. \<forall>n \<ge> N. case run_machine n (dispatch_handler (connection_handler cfg max_read L iter handler ids rounds),
        completions cfg L handle hins ids err u envs 0 parser) of (m, rest) \<Rightarrow>
      writes (requests m) = wrote evs \<and> rest = []
      \<and> (if ended_conn evs then control m = Noop \<and> frames m = Map.empty else (\<exists>h. control m = Suspended h))"
proof -
  let ?b = "connection_handler cfg max_read L iter handler ids rounds" and ?ins = "completions cfg L handle hins ids err u envs 0 parser"
  have ty: "has_type VoidTask ?b" unfolding connection_handler_def by (rule connection_task_typed [OF assms(1)])
  have o: "outcome_of (eval_body ?b ?ins) = (if ended_conn evs then Some (Inr None) else None, wrote evs, [])"
    using connection_task_outcome [where handler = handler and n = 0 and parser = parser, OF assms(2,3,4)]
    by (simp add: connection_handler_def parser_def evs_def run_connection_def Let_def)
  have "handler_ends ?b ?ins (run_machine n (dispatch_handler ?b, ?ins))" if "body_cost ?b ?ins + 5 \<le> n" for n
    by (rule driver_terminates [OF ty that])
  then show ?thesis using o
    by (intro exI [of _ "body_cost ?b ?ins + 5"] allI impI)
       (fastforce simp: handler_ends_def outcome_of_def split: prod.splits option.splits sum.splits if_splits)
qed

text \<open>A handler that sleeps before it answers, so that the backend completes something of its own for it.\<close>

definition echo_later :: "(string, unit, unit) handler_task" where
  "echo_later n req = Co_await VoidTask (sleep_task (OtherRequest ()))
     (\<lambda>_. Co_return (Some (TaskResult (ok (path_view req)))))"

lemma echo_later_typed: "has_type ValueTask (echo_later n req)"
  by (simp add: echo_later_def type_await type_return sleep_task_typed fits_def)

lemma echo_later_outcome:
  "outcome_of (eval_body (echo_later n req) ([(NoError, [], ())] @ ins)) = (Some (Inr (Some (TaskResult (ok (path_view req))))), [], ins)"
  by (simp add: echo_later_def sleep_task_def outcome_of_def writes_def)

theorem connection_coroutine_refines_witness:
  "\<exists>n. writes (requests (fst (run_machine n (dispatch_handler (connection_handler \<lparr>cc_max_body = 10, cc_max_headers = 10\<rparr> 1
        (fixed_llhttp sample_events) id echo_later of_nat 2),
      completions \<lparr>cc_max_body = 10, cc_max_headers = 10\<rparr> (fixed_llhttp sample_events) (\<lambda>n r. ok (path_view r))
        (\<lambda>_ _. [(NoError, [], ())]) of_nat AsioEof ()
        [\<lparr>re_read = Some [0x47], re_write_ok = True\<rparr>] 0 (new_parser (fixed_llhttp sample_events) \<lparr>max_header_count = 10, max_body_bytes = 10\<rparr>)))))
    = wrote (run_connection \<lparr>cc_max_body = 10, cc_max_headers = 10\<rparr> (fixed_llhttp sample_events) id (\<lambda>n r. ok (path_view r)) of_nat
        [\<lparr>re_read = Some [0x47], re_write_ok = True\<rparr>])"
proof -
  note c = connection_coroutine_refines [where handler = echo_later and handle = "\<lambda>n r. ok (path_view r)"
      and hins = "\<lambda>_ _. [(NoError, [], ())]", OF echo_later_typed echo_later_outcome, where err = AsioEof and ids = of_nat
      and envs = "[\<lparr>re_read = Some [0x47], re_write_ok = True\<rparr>]" and rounds = 2 and L = "fixed_llhttp sample_events"
      and cfg = "\<lparr>cc_max_body = 10, cc_max_headers = 10\<rparr>" and max_read = 1 and iter = id and u = "()"]
  show ?thesis using c by (auto simp: case_prod_unfold simp del: completions.simps)
qed

end
