(* ===== verification/Grpc_Plugin.thy ===== *)
theory Grpc_Plugin
  imports Grpc_Session Executor
begin

text \<open>
  The gRPC plugin, \<^verbatim>\<open>src/plugins/grpc/grpc_plugin.cpp\<close>: registration of methods, installation, start and
  stop. A moved-from plugin is \<open>None\<close>. Its executor is the configuration it was made with and its
  phase; the runner is whether a thread has to be joined. That thread calls \<^verbatim>\<open>run\<close> at some time after the
  start (\<open>plugin_runner\<close>), so a stop may find the executor configured or running. It stops the executor and
  joins the runner, that is, waits for \<^verbatim>\<open>run\<close> to return: of a configured executor it returns at once, of
  a running one when it has drained, and both leave the executor stopped (claim of theory Executor on
  shutdown), the phase \<open>plugin_stop\<close> returns with.
\<close>

record plugin_config =
  gp_port :: "16 word"
  gp_max_concurrent_streams :: "16 word"
  gp_max_message_size :: "64 word"
  gp_worker_threads :: "16 word"
  gp_drain_timeout_ms :: int

definition default_plugin_config :: plugin_config where
  "default_plugin_config = \<lparr>gp_port = 50051, gp_max_concurrent_streams = 128,
     gp_max_message_size = 4 * 1024 * 1024, gp_worker_threads = 0, gp_drain_timeout_ms = 5000\<rparr>"

record grpc_plugin_impl =
  gp_config :: plugin_config
  gp_methods :: method_map
  gp_executor :: "(executor_config \<times> exec_phase) option"
  gp_runner :: bool
  gp_installed :: bool
  gp_running :: bool

type_synonym grpc_plugin = "grpc_plugin_impl option"

definition make_plugin :: "plugin_config \<Rightarrow> grpc_plugin" where
  "make_plugin cfg = Some \<lparr>gp_config = cfg, gp_methods = (\<lambda>_. None), gp_executor = None, gp_runner = False,
     gp_installed = False, gp_running = False\<rparr>"

text \<open>\<^verbatim>\<open>/package.Service/Method\<close>: two slashes, the first in front, and something after each.\<close>

definition is_valid_method :: "string \<Rightarrow> bool" where
  "is_valid_method m =
     (if \<not> starts_with m ''/'' then False
      else let rest = tl m; second = from_first (CHR ''/'') rest in
        if second = [] \<or> before (CHR ''/'') rest = [] \<or> tl second = [] then False
        else from_first (CHR ''/'') (tl second) = [])"

definition validate_config :: "plugin_config \<Rightarrow> GrpcError + unit" where
  "validate_config cfg =
     (if gp_port cfg = 0 \<or> gp_max_concurrent_streams cfg = 0 \<or> gp_max_message_size cfg = 0
      then Inl GInvalidConfig else Inr ())"

fun to_plugin_error :: "GrpcError \<Rightarrow> PluginError" where
  "to_plugin_error GInvalidConfig = PlInvalidArgument"
| "to_plugin_error GInvalidMethod = PlInvalidArgument"
| "to_plugin_error GDuplicateMethod = PlInvalidArgument"
| "to_plugin_error GAlreadyInstalled = PlAlreadyInstalled"
| "to_plugin_error GAlreadyRunning = PlAlreadyRunning"
| "to_plugin_error GListenFailed = PlStartFailed"
| "to_plugin_error GStartFailed = PlStartFailed"
| "to_plugin_error GProtocolError = PlInstallFailed"
| "to_plugin_error GMessageTooLarge = PlInstallFailed"
| "to_plugin_error GCompressionUnsupported = PlInstallFailed"
| "to_plugin_error GUnknown = PlUnknown"

text \<open>The handler is \<open>None\<close> when the function object is empty.\<close>

definition add_unary_method :: "string \<Rightarrow> (unary_request \<Rightarrow> handler_outcome) option \<Rightarrow> grpc_plugin
    \<Rightarrow> (GrpcError + unit) \<times> grpc_plugin" where
  "add_unary_method m handler p = (case p of
      None \<Rightarrow> (Inl GUnknown, p)
    | Some i \<Rightarrow>
        if gp_installed i then (Inl GAlreadyInstalled, p)
        else if handler = None \<or> \<not> is_valid_method m then (Inl GInvalidMethod, p)
        else if gp_methods i m \<noteq> None then (Inl GDuplicateMethod, p)
        else (Inr (), Some (i\<lparr>gp_methods := (gp_methods i)(m := handler)\<rparr>)))"

definition plugin_install :: "grpc_plugin \<Rightarrow> (PluginError + unit) \<times> grpc_plugin" where
  "plugin_install p = (case p of
      None \<Rightarrow> (Inl PlInvalidArgument, p)
    | Some i \<Rightarrow>
        if gp_installed i then (Inl PlAlreadyInstalled, p)
        else (case validate_config (gp_config i) of
          Inl e \<Rightarrow> (Inl (to_plugin_error e), Some (i\<lparr>gp_installed := False\<rparr>))
        | Inr _ \<Rightarrow> (Inr (), Some (i\<lparr>gp_installed := True\<rparr>))))"

text \<open>The configuration of the plugin's own executor: the grace period rounded up to seconds.\<close>

definition plugin_executor_config :: "plugin_config \<Rightarrow> executor_config" where
  "plugin_executor_config cfg =
     \<lparr>thread_count = (if gp_worker_threads cfg = 0 then 0 else unat (gp_worker_threads cfg)),
      cpu_pool_threads = 4, drain_timeout = - ((- gp_drain_timeout_ms cfg) div 1000)\<rparr>"

definition plugin_start :: "nat \<times> bind_outcome \<Rightarrow> grpc_plugin \<Rightarrow> (PluginError + unit) \<times> grpc_plugin" where
  "plugin_start env p = (case p of
      None \<Rightarrow> (Inl PlInvalidArgument, p)
    | Some i \<Rightarrow>
        if gp_running i then (Inl PlAlreadyRunning, p)
        else (case validate_config (gp_config i) of
          Inl e \<Rightarrow> (Inl (to_plugin_error e), Some (i\<lparr>gp_running := False\<rparr>))
        | Inr _ \<Rightarrow>
            (let cfg = make_executor_config (fst env) (plugin_executor_config (gp_config i)) in
             case exec_listen (snd env) (new_executor cfg) of
               (Inl _, _) \<Rightarrow> (Inl PlStartFailed, Some (i\<lparr>gp_executor := None, gp_running := False\<rparr>))
             | (Inr _, e) \<Rightarrow> (Inr (), Some (i\<lparr>gp_executor := Some (cfg, ex_state e), gp_runner := True, gp_running := True\<rparr>)))))"

text \<open>The runner thread's call of \<^verbatim>\<open>run\<close>, at any time after a start.\<close>

definition plugin_runner :: "grpc_plugin \<Rightarrow> grpc_plugin" where
  "plugin_runner p = map_option (\<lambda>i. if gp_runner i
     then i\<lparr>gp_executor := map_option (\<lambda>(cfg, ph). (cfg, if ph = Configured then Running else ph)) (gp_executor i)\<rparr>
     else i) p"

definition plugin_stop :: "grpc_plugin \<Rightarrow> grpc_plugin" where
  "plugin_stop p = (case p of
      None \<Rightarrow> None
    | Some i \<Rightarrow> Some (i\<lparr>gp_executor := map_option (\<lambda>(cfg, _). (cfg, Stopped)) (gp_executor i),
        gp_runner := False, gp_running := False\<rparr>))"

text \<open>
  A plugin that was moved from has no implementation. Assignment stops the plugin it replaces; the result
  is that plugin, the new value of the target and that of the source.
\<close>

definition plugin_name :: string where "plugin_name = ''aevox.grpc''"

definition plugin_destroy :: "grpc_plugin \<Rightarrow> grpc_plugin" where
  "plugin_destroy p = plugin_stop p"

definition plugin_move_construct :: "grpc_plugin \<Rightarrow> grpc_plugin \<times> grpc_plugin" where
  "plugin_move_construct other = (other, None)"

definition plugin_move_assign :: "grpc_plugin \<Rightarrow> grpc_plugin \<Rightarrow> grpc_plugin \<times> grpc_plugin \<times> grpc_plugin" where
  "plugin_move_assign self other = (plugin_stop self, other, None)"

subsection \<open>Properties\<close>

lemma is_valid_method_iff:
  "is_valid_method m \<longleftrightarrow> (\<exists>service name. m = ''/'' @ service @ ''/'' @ name
     \<and> service \<noteq> [] \<and> name \<noteq> [] \<and> CHR ''/'' \<notin> set service \<and> CHR ''/'' \<notin> set name)"
  (is "_ \<longleftrightarrow> ?rhs")
proof
  assume v: "is_valid_method m"
  then obtain rest where m: "m = CHR ''/'' # rest"
    by (cases m) (auto simp: is_valid_method_def starts_with_def split: if_splits)
  with v have s: "from_first (CHR ''/'') rest \<noteq> []" "before (CHR ''/'') rest \<noteq> []"
    "tl (from_first (CHR ''/'') rest) \<noteq> []" "CHR ''/'' \<notin> set (tl (from_first (CHR ''/'') rest))"
    by (auto simp: is_valid_method_def Let_def from_first_Nil_iff split: if_splits)
  then obtain name where n: "from_first (CHR ''/'') rest = CHR ''/'' # name"
    using from_first_Cons [of "CHR ''/''" rest] by (cases "from_first (CHR ''/'') rest") auto
  then have "rest = before (CHR ''/'') rest @ ''/'' @ name"
    using before_from_first [of "CHR ''/''" rest] by simp
  with m n s show ?rhs by (intro exI [of _ "before (CHR ''/'') rest"] exI [of _ name]) auto
next
  assume ?rhs
  then obtain service name where "m = ''/'' @ service @ ''/'' @ name" "service \<noteq> []" "name \<noteq> []"
    "CHR ''/'' \<notin> set service" "CHR ''/'' \<notin> set name" by blast
  then show "is_valid_method m"
    by (simp add: is_valid_method_def starts_with_def Let_def from_first_append before_append from_first_nodelim)
qed

text \<open>A plugin is up while its listener runs.\<close>

definition plugin_up :: "grpc_plugin \<Rightarrow> bool" where
  "plugin_up p = (case p of None \<Rightarrow> False | Some i \<Rightarrow>
     gp_running i \<and> gp_runner i \<and> (case gp_executor i of None \<Rightarrow> False
       | Some (cfg, ph) \<Rightarrow> ph \<in> {Configured, Running} \<and> 0 < thread_count cfg))"

text \<open>What every operation keeps: the plugin is up or its runner is joined and its executor, if any, stopped.\<close>

definition plugin_wf :: "grpc_plugin \<Rightarrow> bool" where
  "plugin_wf p = (case p of None \<Rightarrow> True | Some i \<Rightarrow>
     plugin_up p \<or> (\<not> gp_running i \<and> \<not> gp_runner i
       \<and> (case gp_executor i of None \<Rightarrow> True | Some (_, ph) \<Rightarrow> ph = Stopped)))"

lemma plugin_start_wf:
  assumes "plugin_wf p" "plugin_start env p = (r, p')"
  shows "plugin_wf p'" "(\<exists>u. r = Inr u) \<Longrightarrow> \<not> plugin_up p \<and> plugin_up p'" "\<exists>e. r = Inl e \<Longrightarrow> plugin_up p' = plugin_up p"
  using assms
  by (auto simp: plugin_start_def plugin_wf_def plugin_up_def exec_listen_def new_executor_def make_executor_config_def
      Let_def split: option.splits if_splits sum.splits bind_outcome.splits)

lemma plugin_stop_wf: "plugin_wf (plugin_stop p)" "\<not> plugin_up (plugin_stop p)"
  by (auto simp: plugin_stop_def plugin_wf_def plugin_up_def split: option.splits prod.splits)

text \<open>A plugin that is replaced or destroyed is down, and one that was moved from refuses everything.\<close>

lemma plugin_moved:
  "\<not> plugin_up (fst (plugin_move_assign p q))" "\<not> plugin_up (plugin_destroy p)"
  "snd (plugin_move_construct p) = None" "plugin_install None = (Inl PlInvalidArgument, None)"
  "plugin_start env None = (Inl PlInvalidArgument, None)" "add_unary_method m h None = (Inl GUnknown, None)"
  "plugin_stop None = None"
  by (simp_all add: plugin_move_assign_def plugin_destroy_def plugin_move_construct_def plugin_stop_wf(2)
      plugin_install_def plugin_start_def add_unary_method_def)
     (simp add: plugin_stop_def)

lemma plugin_stop_idem: "plugin_stop (plugin_stop p) = plugin_stop p"
proof (cases p)
  case (Some i)
  then show ?thesis by (cases "gp_executor i") (auto simp: plugin_stop_def)
qed (simp add: plugin_stop_def)

lemma plugin_runner_wf: "plugin_wf p \<Longrightarrow> plugin_wf (plugin_runner p) \<and> plugin_up (plugin_runner p) = plugin_up p"
  by (auto simp: plugin_runner_def plugin_wf_def plugin_up_def split: option.splits)

lemma plugin_other_wf:
  "plugin_wf p \<Longrightarrow> plugin_wf (snd (plugin_install p))" "plugin_wf p \<Longrightarrow> plugin_wf (snd (add_unary_method m h p))"
  "plugin_wf (make_plugin cfg)"
  by (auto simp: plugin_install_def add_unary_method_def make_plugin_def plugin_wf_def plugin_up_def
      split: option.splits sum.splits)
end
