(* ===== verification/Toml_Config.thy ===== *)
theory Toml_Config
  imports Executor Log_Writer
begin

text \<open>
  The configuration file loader, \<^verbatim>\<open>src/config/toml_loader.cpp\<close>, and the defaults of
  \<^verbatim>\<open>include/aevox/config.hpp\<close> and \<^verbatim>\<open>include/aevox/app.hpp\<close>. toml++ is a parameter: the record of
  the queries the loader makes of a node, which may convert between types as they like, and the
  outcome of parsing the file. A table is its entries in the order of iteration. The loader returns the
  lines it writes to \<^verbatim>\<open>std::clog\<close> beside its result.
\<close>

record 'n toml_api =
  node_int :: "'n \<Rightarrow> int option"
  node_bool :: "'n \<Rightarrow> bool option"
  node_string :: "'n \<Rightarrow> string option"
  node_table :: "'n \<Rightarrow> (string \<times> 'n) list option"

datatype 'n parse_outcome = ParsedTable "(string \<times> 'n) list" | ParseThrew string | ParseFailedOtherwise

record app_config =
  cfg_port :: "16 word"
  cfg_host :: string
  cfg_backlog :: int
  cfg_reuse_port :: bool
  cfg_executor :: executor_config
  cfg_max_body_size :: "64 word"
  cfg_request_timeout :: int
  cfg_max_header_count :: "64 word"
  cfg_max_read_bytes :: "64 word"
  cfg_logging :: log_config

definition default_executor_config :: executor_config where
  "default_executor_config = \<lparr>thread_count = 0, cpu_pool_threads = 4, drain_timeout = 30\<rparr>"

definition default_app_config :: app_config where
  "default_app_config = \<lparr>cfg_port = 8080, cfg_host = ''0.0.0.0'', cfg_backlog = 1024, cfg_reuse_port = True,
     cfg_executor = default_executor_config, cfg_max_body_size = 10 * 1024 * 1024, cfg_request_timeout = 30,
     cfg_max_header_count = 100, cfg_max_read_bytes = 65536, cfg_logging = default_log_config\<rparr>"

record error_detail =
  error_code :: ConfigError
  error_message :: string
  error_key :: string

definition kKnownTopLevelKeys :: "string list" where
  "kKnownTopLevelKeys = [''port'', ''host'', ''backlog'', ''max_body_size'', ''request_timeout'', ''max_header_count'',
     ''max_read_bytes'', ''executor'', ''logging'']"

definition kKnownExecutorKeys :: "string list" where
  "kKnownExecutorKeys = [''thread_count'', ''cpu_pool_threads'', ''drain_timeout'']"

definition kKnownLoggingKeys :: "string list" where
  "kKnownLoggingKeys = [''enabled'', ''level'', ''format'', ''destination'', ''file_path'', ''queue_capacity'']"

definition is_known_key :: "string \<Rightarrow> string list \<Rightarrow> bool" where
  "is_known_key key known = list_ex (\<lambda>k. k = key) known"

definition make_invalid :: "string \<Rightarrow> string \<Rightarrow> error_detail" where
  "make_invalid key reason = \<lparr>error_code = InvalidValue,
     error_message = ''invalid value for '' @ [CHR 0x27] @ key @ [CHR 0x27] @ '': '' @ reason, error_key = key\<rparr>"

text \<open>The warnings about unknown keys of a table, whose names carry the section in front.\<close>

definition unknown_key_warnings :: "string \<Rightarrow> string list \<Rightarrow> (string \<times> 'n) list \<Rightarrow> string list" where
  "unknown_key_warnings sect known tbl =
     map (\<lambda>(k, _). ''[aevox] config warning: unrecognised key '' @ [CHR 0x27] @ sect @ k @ [CHR 0x27]
           @ '' '' @ map char_of [0xE2 :: nat, 0x80, 0x94] @ '' ignored'' @ [CHR 0x0A])
       (filter (\<lambda>(k, _). \<not> is_known_key k known) tbl)"

subsection \<open>One key at a time\<close>

text \<open>
  A step looks one key up; a missing key leaves the configuration alone, and a value of the wrong
  type or out of range ends the loading.
\<close>

type_synonym config_step = "app_config \<Rightarrow> error_detail + app_config"

definition int_key :: "'n toml_api \<Rightarrow> (string \<times> 'n) list \<Rightarrow> string \<Rightarrow> string \<Rightarrow> int \<Rightarrow> int \<Rightarrow> string
    \<Rightarrow> (int \<Rightarrow> app_config \<Rightarrow> app_config) \<Rightarrow> config_step" where
  "int_key api tbl key name lo hi reason assign c = (case map_of tbl key of
      None \<Rightarrow> Inr c
    | Some v \<Rightarrow> (case node_int api v of
        None \<Rightarrow> Inl (make_invalid name reason)
      | Some raw \<Rightarrow> if raw < lo \<or> raw > hi then Inl (make_invalid name reason) else Inr (assign raw c)))"

definition bool_key :: "'n toml_api \<Rightarrow> (string \<times> 'n) list \<Rightarrow> string \<Rightarrow> string \<Rightarrow> string
    \<Rightarrow> (bool \<Rightarrow> app_config \<Rightarrow> app_config) \<Rightarrow> config_step" where
  "bool_key api tbl key name reason assign c = (case map_of tbl key of
      None \<Rightarrow> Inr c
    | Some v \<Rightarrow> (case node_bool api v of
        None \<Rightarrow> Inl (make_invalid name reason)
      | Some raw \<Rightarrow> Inr (assign raw c)))"

text \<open>A string, and what is made of it; \<open>None\<close> stands for a text that is not accepted.\<close>

definition string_key :: "'n toml_api \<Rightarrow> (string \<times> 'n) list \<Rightarrow> string \<Rightarrow> string \<Rightarrow> string \<Rightarrow> string
    \<Rightarrow> (string \<Rightarrow> 'a option) \<Rightarrow> ('a \<Rightarrow> app_config \<Rightarrow> app_config) \<Rightarrow> config_step" where
  "string_key api tbl key name no_string not_accepted accept assign c = (case map_of tbl key of
      None \<Rightarrow> Inr c
    | Some v \<Rightarrow> (case node_string api v of
        None \<Rightarrow> Inl (make_invalid name no_string)
      | Some raw \<Rightarrow> (case accept raw of
          None \<Rightarrow> Inl (make_invalid name not_accepted)
        | Some a \<Rightarrow> Inr (assign a c))))"

fun run_steps :: "config_step list \<Rightarrow> config_step" where
  "run_steps [] c = Inr c"
| "run_steps (s # ss) c = (case s c of Inl e \<Rightarrow> Inl e | Inr c' \<Rightarrow> run_steps ss c')"

definition non_empty :: "string \<Rightarrow> string option" where
  "non_empty s = (if s = [] then None else Some s)"

definition level_of :: "string \<Rightarrow> LogLevel option" where
  "level_of s =
     (if s = ''trace'' then Some Trace
      else if s = ''debug'' then Some Debug
      else if s = ''info'' then Some Info
      else if s = ''warn'' then Some Warn
      else if s = ''error'' then Some Error
      else if s = ''fatal'' then Some Fatal
      else None)"

definition format_of :: "string \<Rightarrow> LogFormat option" where
  "format_of s = (if s = ''json'' then Some Json else if s = ''pretty'' then Some Pretty else None)"

definition destination_of :: "string \<Rightarrow> LogDestination option" where
  "destination_of s =
     (if s = ''stdout'' then Some Stdout
      else if s = ''stderr'' then Some Stderr
      else if s = ''file'' then Some File
      else if s = ''disabled'' then Some Disabled
      else None)"

definition top_steps :: "'n toml_api \<Rightarrow> (string \<times> 'n) list \<Rightarrow> config_step list" where
  "top_steps api tbl =
     [int_key api tbl ''port'' ''port'' 1 65535 ''must be an integer in 1..65535''
        (\<lambda>raw c. c\<lparr>cfg_port := word_of_int raw\<rparr>),
      string_key api tbl ''host'' ''host'' ''must be a non-empty string'' ''must be a non-empty string'' non_empty
        (\<lambda>raw c. c\<lparr>cfg_host := raw\<rparr>),
      int_key api tbl ''backlog'' ''backlog'' 1 65535 ''must be an integer in 1..65535''
        (\<lambda>raw c. c\<lparr>cfg_backlog := raw\<rparr>),
      int_key api tbl ''max_body_size'' ''max_body_size'' 1 (2 * 1024 * 1024 * 1024)
        ''must be an integer in 1..2147483648'' (\<lambda>raw c. c\<lparr>cfg_max_body_size := word_of_int raw\<rparr>),
      int_key api tbl ''request_timeout'' ''request_timeout'' 1 3600 ''must be an integer in 1..3600 (seconds)''
        (\<lambda>raw c. c\<lparr>cfg_request_timeout := raw\<rparr>),
      int_key api tbl ''max_header_count'' ''max_header_count'' 1 1000 ''must be an integer in 1..1000''
        (\<lambda>raw c. c\<lparr>cfg_max_header_count := word_of_int raw\<rparr>),
      int_key api tbl ''max_read_bytes'' ''max_read_bytes'' 512 (16 * 1024 * 1024)
        ''must be an integer in 512..16777216'' (\<lambda>raw c. c\<lparr>cfg_max_read_bytes := word_of_int raw\<rparr>)]"

definition executor_steps :: "'n toml_api \<Rightarrow> (string \<times> 'n) list \<Rightarrow> config_step list" where
  "executor_steps api ex =
     [int_key api ex ''thread_count'' ''executor.thread_count'' 0 1024 ''must be an integer in 0..1024''
        (\<lambda>raw c. c\<lparr>cfg_executor := (cfg_executor c)\<lparr>thread_count := nat raw\<rparr>\<rparr>),
      int_key api ex ''cpu_pool_threads'' ''executor.cpu_pool_threads'' 0 256 ''must be an integer in 0..256''
        (\<lambda>raw c. c\<lparr>cfg_executor := (cfg_executor c)\<lparr>cpu_pool_threads := nat raw\<rparr>\<rparr>),
      int_key api ex ''drain_timeout'' ''executor.drain_timeout'' 1 3600 ''must be an integer in 1..3600 (seconds)''
        (\<lambda>raw c. c\<lparr>cfg_executor := (cfg_executor c)\<lparr>drain_timeout := raw\<rparr>\<rparr>)]"

definition logging_steps :: "'n toml_api \<Rightarrow> (string \<times> 'n) list \<Rightarrow> config_step list" where
  "logging_steps api lg =
     [bool_key api lg ''enabled'' ''logging.enabled'' ''must be a boolean''
        (\<lambda>raw c. c\<lparr>cfg_logging := (cfg_logging c)\<lparr>lc_enabled := raw\<rparr>\<rparr>),
      string_key api lg ''level'' ''logging.level'' ''must be a string''
        ''must be one of: trace, debug, info, warn, error, fatal'' level_of
        (\<lambda>l c. c\<lparr>cfg_logging := (cfg_logging c)\<lparr>lc_level := l\<rparr>\<rparr>),
      string_key api lg ''format'' ''logging.format'' ''must be a string'' ''must be one of: json, pretty'' format_of
        (\<lambda>f c. c\<lparr>cfg_logging := (cfg_logging c)\<lparr>lc_format := f\<rparr>\<rparr>),
      string_key api lg ''destination'' ''logging.destination'' ''must be a string''
        ''must be one of: stdout, stderr, file, disabled'' destination_of
        (\<lambda>d c. c\<lparr>cfg_logging := (cfg_logging c)\<lparr>lc_destination := d\<rparr>\<rparr>),
      string_key api lg ''file_path'' ''logging.file_path'' ''must be a string'' ''must be a string'' Some
        (\<lambda>p c. c\<lparr>cfg_logging := (cfg_logging c)\<lparr>lc_file_path := Some p\<rparr>\<rparr>),
      int_key api lg ''queue_capacity'' ''logging.queue_capacity'' 1 (1024 * 1024) ''must be an integer in 1..1048576''
        (\<lambda>raw c. c\<lparr>cfg_logging := (cfg_logging c)\<lparr>lc_queue_capacity := word_of_int raw\<rparr>\<rparr>)]"

text \<open>A section: it must be a table; its unknown keys are reported before its keys are read.\<close>

definition load_section :: "'n toml_api \<Rightarrow> (string \<times> 'n) list \<Rightarrow> string \<Rightarrow> string list
    \<Rightarrow> ((string \<times> 'n) list \<Rightarrow> config_step list) \<Rightarrow> app_config \<Rightarrow> (error_detail + app_config) \<times> string list" where
  "load_section api tbl sect known steps c = (case map_of tbl sect of
      None \<Rightarrow> (Inr c, [])
    | Some node \<Rightarrow> (case node_table api node of
        None \<Rightarrow> (Inl \<lparr>error_code = InvalidValue,
                   error_message = [CHR 0x27] @ sect @ [CHR 0x27] @ '' must be a TOML table section'',
                   error_key = sect\<rparr>, [])
      | Some t \<Rightarrow> (run_steps (steps t) c, unknown_key_warnings (sect @ ''.'') known t)))"

definition merge_table :: "'n toml_api \<Rightarrow> (string \<times> 'n) list \<Rightarrow> app_config \<Rightarrow> (error_detail + app_config) \<times> string list" where
  "merge_table api tbl base =
     (let w = unknown_key_warnings [] kKnownTopLevelKeys tbl in
      case run_steps (top_steps api tbl) base of
        Inl e \<Rightarrow> (Inl e, w)
      | Inr c1 \<Rightarrow> (case load_section api tbl ''executor'' kKnownExecutorKeys (executor_steps api) c1 of
          (Inl e, w1) \<Rightarrow> (Inl e, w @ w1)
        | (Inr c2, w1) \<Rightarrow>
            (case load_section api tbl ''logging'' kKnownLoggingKeys (logging_steps api) c2 of
              (r, w2) \<Rightarrow> (r, w @ w1 @ w2))))"

definition load_toml_config :: "'n toml_api \<Rightarrow> (string \<Rightarrow> bool) \<Rightarrow> (string \<Rightarrow> 'n parse_outcome) \<Rightarrow> string \<Rightarrow> app_config
    \<Rightarrow> (error_detail + app_config) \<times> string list" where
  "load_toml_config api exists parse_file path base =
     (if \<not> exists path then
        (Inl \<lparr>error_code = FileNotFound,
           error_message = ''config file not found: '' @ [CHR 0x27] @ path @ [CHR 0x27], error_key = []\<rparr>, [])
      else case parse_file path of
        ParseThrew description \<Rightarrow>
          (Inl \<lparr>error_code = ConfigParseError,
             error_message = ''TOML parse error in '' @ [CHR 0x27] @ path @ [CHR 0x27] @ '': '' @ description, error_key = []\<rparr>, [])
      | ParseFailedOtherwise \<Rightarrow>
          (Inl \<lparr>error_code = ConfigParseError,
             error_message = ''could not read config file '' @ [CHR 0x27] @ path @ [CHR 0x27], error_key = []\<rparr>, [])
      | ParsedTable tbl \<Rightarrow> merge_table api tbl base)"

text \<open>\<^verbatim>\<open>App::create\<close> up to the construction of the application.\<close>

definition app_create_config :: "'n toml_api \<Rightarrow> (string \<Rightarrow> bool) \<Rightarrow> (string \<Rightarrow> 'n parse_outcome) \<Rightarrow> string option
    \<Rightarrow> app_config \<Rightarrow> (error_detail + app_config) \<times> string list" where
  "app_create_config api exists parse_file path base = (case path of
      None \<Rightarrow> (Inr base, [])
    | Some p \<Rightarrow> if p = [] then (Inr base, []) else load_toml_config api exists parse_file p base)"

subsection \<open>What the documentation promises\<close>

fun node_at :: "'n toml_api \<Rightarrow> (string \<times> 'n) list \<Rightarrow> string list \<Rightarrow> 'n option" where
  "node_at api tbl [] = None"
| "node_at api tbl [k] = map_of tbl k"
| "node_at api tbl (k # ks) = Option.bind (Option.bind (map_of tbl k) (node_table api)) (\<lambda>t. node_at api t ks)"

definition in_range :: "'n toml_api \<Rightarrow> int \<Rightarrow> int \<Rightarrow> 'n \<Rightarrow> bool" where
  "in_range api lo hi v = (case node_int api v of None \<Rightarrow> False | Some raw \<Rightarrow> lo \<le> raw \<and> raw \<le> hi)"

definition one_of :: "'n toml_api \<Rightarrow> string list \<Rightarrow> 'n \<Rightarrow> bool" where
  "one_of api ws v = (case node_string api v of None \<Rightarrow> False | Some s \<Rightarrow> s \<in> set ws)"

text \<open>The keys in the order they are checked, with the values each accepts.\<close>

definition top_docs :: "'n toml_api \<Rightarrow> (string list \<times> ('n \<Rightarrow> bool)) list" where
  "top_docs api =
     [([''port''], in_range api 1 65535),
      ([''host''], \<lambda>v. case node_string api v of None \<Rightarrow> False | Some s \<Rightarrow> s \<noteq> []),
      ([''backlog''], in_range api 1 65535),
      ([''max_body_size''], in_range api 1 2147483648),
      ([''request_timeout''], in_range api 1 3600),
      ([''max_header_count''], in_range api 1 1000),
      ([''max_read_bytes''], in_range api 512 16777216)]"

definition executor_docs :: "'n toml_api \<Rightarrow> (string list \<times> ('n \<Rightarrow> bool)) list" where
  "executor_docs api =
     [([''executor'', ''thread_count''], in_range api 0 1024),
      ([''executor'', ''cpu_pool_threads''], in_range api 0 256),
      ([''executor'', ''drain_timeout''], in_range api 1 3600)]"

definition logging_docs :: "'n toml_api \<Rightarrow> (string list \<times> ('n \<Rightarrow> bool)) list" where
  "logging_docs api =
     [([''logging'', ''enabled''], \<lambda>v. node_bool api v \<noteq> None),
      ([''logging'', ''level''], one_of api [''trace'', ''debug'', ''info'', ''warn'', ''error'', ''fatal'']),
      ([''logging'', ''format''], one_of api [''json'', ''pretty'']),
      ([''logging'', ''destination''], one_of api [''stdout'', ''stderr'', ''file'', ''disabled'']),
      ([''logging'', ''file_path''], \<lambda>v. node_string api v \<noteq> None),
      ([''logging'', ''queue_capacity''], in_range api 1 1048576)]"

definition documented :: "'n toml_api \<Rightarrow> (string list \<times> ('n \<Rightarrow> bool)) list" where
  "documented api = top_docs api @ ([''executor''], \<lambda>v. node_table api v \<noteq> None) # executor_docs api
     @ ([''logging''], \<lambda>v. node_table api v \<noteq> None) # logging_docs api"

fun dotted :: "string list \<Rightarrow> string" where
  "dotted [] = []"
| "dotted [k] = k"
| "dotted (k # ks) = k @ ''.'' @ dotted ks"

definition key_problem :: "'n toml_api \<Rightarrow> (string \<times> 'n) list \<Rightarrow> string list \<times> ('n \<Rightarrow> bool) \<Rightarrow> (ConfigError \<times> string) option" where
  "key_problem api tbl d = (case node_at api tbl (fst d) of
      None \<Rightarrow> None
    | Some v \<Rightarrow> if snd d v then None else Some (InvalidValue, dotted (fst d)))"

fun first_some :: "'a option list \<Rightarrow> 'a option" where
  "first_some [] = None"
| "first_some (x # xs) = (case x of None \<Rightarrow> first_some xs | Some a \<Rightarrow> Some a)"

definition load_problem :: "'n toml_api \<Rightarrow> (string \<Rightarrow> bool) \<Rightarrow> (string \<Rightarrow> 'n parse_outcome) \<Rightarrow> string
    \<Rightarrow> (ConfigError \<times> string) option" where
  "load_problem api exists parse_file path =
     (if \<not> exists path then Some (FileNotFound, [])
      else case parse_file path of
        ParsedTable tbl \<Rightarrow> first_some (map (key_problem api tbl) (documented api))
      | _ \<Rightarrow> Some (ConfigParseError, []))"

lemma first_some_append: "first_some (xs @ ys) = (case first_some xs of None \<Rightarrow> first_some ys | Some a \<Rightarrow> Some a)"
  by (induction xs) (auto split: option.splits)

definition failure :: "error_detail + 'a \<Rightarrow> (ConfigError \<times> string) option" where
  "failure r = (case r of Inl e \<Rightarrow> Some (error_code e, error_key e) | Inr _ \<Rightarrow> None)"

lemma failure_simps [simp]: "failure (Inr a) = None" "failure (Inl (make_invalid k r)) = Some (InvalidValue, k)"
  "failure (Inl \<lparr>error_code = ec, error_message = m, error_key = k\<rparr>) = Some (ec, k)"
  by (simp_all add: failure_def make_invalid_def)

lemma run_steps_failure:
  "list_all2 (\<lambda>s k. \<forall>c. failure (s c) = k) ss ks \<Longrightarrow> failure (run_steps ss c) = first_some ks"
proof (induction ss ks arbitrary: c rule: list_all2_induct)
  case (Cons s ss k ks)
  then have "failure (s c) = k" by simp
  then show ?case using Cons.IH by (cases "s c") (auto simp: failure_def)
qed simp

lemma int_key_failure:
  "failure (int_key api tbl key name lo hi reason assign c)
     = (case map_of tbl key of None \<Rightarrow> None | Some v \<Rightarrow> if in_range api lo hi v then None else Some (InvalidValue, name))"
  by (auto simp: int_key_def in_range_def split: option.splits)

lemma bool_key_failure:
  "failure (bool_key api tbl key name reason assign c)
     = (case map_of tbl key of None \<Rightarrow> None | Some v \<Rightarrow> if node_bool api v \<noteq> None then None else Some (InvalidValue, name))"
  by (auto simp: bool_key_def split: option.splits)

lemma string_key_failure:
  "failure (string_key api tbl key name r r' accept assign c)
     = (case map_of tbl key of None \<Rightarrow> None
        | Some v \<Rightarrow> if Option.bind (node_string api v) accept = None then Some (InvalidValue, name) else None)"
  by (auto simp: string_key_def split: option.splits)

lemmas key_failures = int_key_failure bool_key_failure string_key_failure

lemma accepted_words:
  "Option.bind (node_string api v) level_of = None \<longleftrightarrow> \<not> one_of api [''trace'', ''debug'', ''info'', ''warn'', ''error'', ''fatal''] v"
  "Option.bind (node_string api v) format_of = None \<longleftrightarrow> \<not> one_of api [''json'', ''pretty''] v"
  "Option.bind (node_string api v) destination_of = None \<longleftrightarrow> \<not> one_of api [''stdout'', ''stderr'', ''file'', ''disabled''] v"
  "Option.bind (node_string api v) non_empty = None \<longleftrightarrow> \<not> (case node_string api v of None \<Rightarrow> False | Some s \<Rightarrow> s \<noteq> [])"
  "Option.bind (node_string api v) Some = None \<longleftrightarrow> node_string api v = None"
  by (auto simp: one_of_def level_of_def format_of_def destination_of_def non_empty_def split: option.splits)

lemma if_not_P_swap: "(if \<not> b then x else y) = (if b then y else x)"
  by simp

lemma top_failure:
  "failure (run_steps (top_steps api tbl) c) = first_some (map (key_problem api tbl) (top_docs api))"
  by (rule run_steps_failure)
     (simp add: top_steps_def top_docs_def key_failures key_problem_def accepted_words if_not_P_swap del: not_None_eq cong: option.case_cong if_cong)

lemma executor_failure:
  "map_of tbl ''executor'' = Some node \<Longrightarrow> node_table api node = Some t \<Longrightarrow>
     failure (run_steps (executor_steps api t) c) = first_some (map (key_problem api tbl) (executor_docs api))"
  by (rule run_steps_failure)
     (simp add: executor_steps_def executor_docs_def key_failures key_problem_def cong: option.case_cong if_cong)

lemma logging_failure:
  "map_of tbl ''logging'' = Some node \<Longrightarrow> node_table api node = Some t \<Longrightarrow>
     failure (run_steps (logging_steps api t) c) = first_some (map (key_problem api tbl) (logging_docs api))"
  by (rule run_steps_failure)
     (simp add: logging_steps_def logging_docs_def key_failures key_problem_def accepted_words if_not_P_swap del: not_None_eq cong: option.case_cong if_cong)

text \<open>A section that is missing has no problems.\<close>

lemma no_section:
  "map_of tbl ''executor'' = None \<Longrightarrow> first_some (map (key_problem api tbl) (executor_docs api)) = None"
  "map_of tbl ''logging'' = None \<Longrightarrow> first_some (map (key_problem api tbl) (logging_docs api)) = None"
  by (simp_all add: executor_docs_def logging_docs_def key_problem_def)

lemma executor_section_failure:
  "failure (fst (load_section api tbl ''executor'' known (executor_steps api) c))
     = first_some (map (key_problem api tbl) (([''executor''], \<lambda>v. node_table api v \<noteq> None) # executor_docs api))"
  by (auto simp: load_section_def executor_failure no_section key_problem_def split: option.splits)

lemma logging_section_failure:
  "failure (fst (load_section api tbl ''logging'' known (logging_steps api) c))
     = first_some (map (key_problem api tbl) (([''logging''], \<lambda>v. node_table api v \<noteq> None) # logging_docs api))"
  by (auto simp: load_section_def logging_failure no_section key_problem_def split: option.splits)

lemma documented_problem:
  "first_some (map (key_problem api tbl) (documented api)) =
     (case first_some (map (key_problem api tbl) (top_docs api)) of Some a \<Rightarrow> Some a | None \<Rightarrow>
     (case first_some (map (key_problem api tbl) (([''executor''], \<lambda>v. node_table api v \<noteq> None) # executor_docs api)) of
        Some a \<Rightarrow> Some a | None \<Rightarrow>
      first_some (map (key_problem api tbl) (([''logging''], \<lambda>v. node_table api v \<noteq> None) # logging_docs api))))"
proof -
  have "documented api = top_docs api @ (([''executor''], \<lambda>v. node_table api v \<noteq> None) # executor_docs api)
      @ (([''logging''], \<lambda>v. node_table api v \<noteq> None) # logging_docs api)"
    by (simp add: documented_def)
  then show ?thesis by (simp only: map_append first_some_append option.case_eq_if)
qed

lemma merge_failure:
  "failure (fst (merge_table api tbl base)) = first_some (map (key_problem api tbl) (documented api))"
proof -
  define r0 where "r0 = run_steps (top_steps api tbl) base"
  note f0 = top_failure [of api tbl base, folded r0_def]
  show ?thesis
  proof (cases r0)
    case (Inl e)
    with f0 have "fst (merge_table api tbl base) = Inl e"
      "first_some (map (key_problem api tbl) (top_docs api)) = Some (error_code e, error_key e)"
      by (simp_all add: merge_table_def Let_def failure_def r0_def)
    then show ?thesis by (simp only: documented_problem option.case) (simp add: failure_def)
  next
    case (Inr c1)
    define s1 where "s1 = load_section api tbl ''executor'' kKnownExecutorKeys (executor_steps api) c1"
    obtain r1 w1 where r1: "s1 = (r1, w1)" by (cases s1)
    note f1 = executor_section_failure [of api tbl kKnownExecutorKeys c1, folded s1_def, unfolded r1 fst_conv]
    have t: "first_some (map (key_problem api tbl) (top_docs api)) = None" using f0 Inr by simp
    have m: "fst (merge_table api tbl base) = (case r1 of Inl e \<Rightarrow> Inl e
        | Inr c2 \<Rightarrow> fst (load_section api tbl ''logging'' kKnownLoggingKeys (logging_steps api) c2))"
      using Inr r1 by (simp add: merge_table_def Let_def r0_def s1_def split: sum.splits prod.splits)
    show ?thesis
    proof (cases r1)
      case e: (Inl e)
      then have "first_some (map (key_problem api tbl) (([''executor''], \<lambda>v. node_table api v \<noteq> None) # executor_docs api))
          = Some (error_code e, error_key e)"
        using f1 by (simp only: failure_def sum.case)
      then show ?thesis unfolding documented_problem t m e by (simp only: option.case sum.case failure_def)
    next
      case c: (Inr c2)
      then have "first_some (map (key_problem api tbl) (([''executor''], \<lambda>v. node_table api v \<noteq> None) # executor_docs api)) = None"
        using f1 by (simp only: failure_def sum.case)
      then show ?thesis unfolding documented_problem t m c
        by (simp only: option.case sum.case logging_section_failure)
    qed
  qed
qed

text \<open>
  Claim C32. Loading a configuration file fails for the first documented reason and for no other: a missing
  file, a file that does not parse, or else the first key in the order of the documentation whose value
  has the wrong type or lies outside the documented range, which is the key the error names.
\<close>

theorem config_first_error:
  "failure (fst (load_toml_config api exists parse_file path base)) = load_problem api exists parse_file path"
  by (simp add: load_toml_config_def load_problem_def merge_failure split: parse_outcome.splits)

subsection \<open>What a loaded configuration holds\<close>

definition given :: "('a \<Rightarrow> app_config \<Rightarrow> app_config) \<Rightarrow> 'a option \<Rightarrow> app_config \<Rightarrow> app_config" where
  "given assign v c = (case v of None \<Rightarrow> c | Some x \<Rightarrow> assign x c)"

lemma int_key_Inr: "int_key api tbl key name lo hi r assign c = Inr c' \<Longrightarrow>
   c' = given assign (Option.bind (map_of tbl key) (node_int api)) c
   \<and> (\<forall>v. map_of tbl key = Some v \<longrightarrow> in_range api lo hi v)"
  by (auto simp: int_key_def given_def in_range_def split: option.splits if_splits)

lemma bool_key_Inr: "bool_key api tbl key name r assign c = Inr c' \<Longrightarrow>
   c' = given assign (Option.bind (map_of tbl key) (node_bool api)) c
   \<and> (\<forall>v. map_of tbl key = Some v \<longrightarrow> node_bool api v \<noteq> None)"
  by (auto simp: bool_key_def given_def split: option.splits)

lemma string_key_Inr: "string_key api tbl key name r r' accept assign c = Inr c' \<Longrightarrow>
   c' = given assign (Option.bind (map_of tbl key) (\<lambda>v. Option.bind (node_string api v) accept)) c
   \<and> (\<forall>v. map_of tbl key = Some v \<longrightarrow> Option.bind (node_string api v) accept \<noteq> None)"
  by (auto simp: string_key_def given_def split: option.splits)

lemma run_steps_Cons_Inr: "run_steps (s # ss) c = Inr c' \<longleftrightarrow> (\<exists>c1. s c = Inr c1 \<and> run_steps ss c1 = Inr c')"
  by (simp split: sum.splits)

text \<open>The integer settings, with the value a configuration has for each.\<close>

definition int_settings :: "(string list \<times> int \<times> int \<times> (app_config \<Rightarrow> int)) list" where
  "int_settings =
     [([''port''], 1, 65535, \<lambda>c. uint (cfg_port c)), ([''backlog''], 1, 65535, cfg_backlog),
      ([''max_body_size''], 1, 2147483648, \<lambda>c. uint (cfg_max_body_size c)),
      ([''request_timeout''], 1, 3600, cfg_request_timeout),
      ([''max_header_count''], 1, 1000, \<lambda>c. uint (cfg_max_header_count c)),
      ([''max_read_bytes''], 512, 16777216, \<lambda>c. uint (cfg_max_read_bytes c)),
      ([''executor'', ''thread_count''], 0, 1024, \<lambda>c. int (thread_count (cfg_executor c))),
      ([''executor'', ''cpu_pool_threads''], 0, 256, \<lambda>c. int (cpu_pool_threads (cfg_executor c))),
      ([''executor'', ''drain_timeout''], 1, 3600, \<lambda>c. drain_timeout (cfg_executor c)),
      ([''logging'', ''queue_capacity''], 1, 1048576, \<lambda>c. uint (lc_queue_capacity (cfg_logging c)))]"

text \<open>The other settings, with what a configuration says of a node for each.\<close>

definition other_settings :: "'n toml_api \<Rightarrow> (string list \<times> (app_config \<Rightarrow> 'n \<Rightarrow> bool)) list" where
  "other_settings api =
     [([''host''], \<lambda>c v. node_string api v = Some (cfg_host c)),
      ([''logging'', ''enabled''], \<lambda>c v. node_bool api v = Some (lc_enabled (cfg_logging c))),
      ([''logging'', ''level''], \<lambda>c v. \<exists>s. node_string api v = Some s \<and> level_of s = Some (lc_level (cfg_logging c))),
      ([''logging'', ''format''], \<lambda>c v. \<exists>s. node_string api v = Some s \<and> format_of s = Some (lc_format (cfg_logging c))),
      ([''logging'', ''destination''],
         \<lambda>c v. \<exists>s. node_string api v = Some s \<and> destination_of s = Some (lc_destination (cfg_logging c))),
      ([''logging'', ''file_path''], \<lambda>c v. node_string api v = lc_file_path (cfg_logging c))]"

lemma range_word:
  "in_range api lo hi v \<Longrightarrow> 0 \<le> lo \<Longrightarrow> hi < 2 ^ LENGTH('a :: len) \<Longrightarrow>
     \<exists>raw. node_int api v = Some raw \<and> lo \<le> raw \<and> raw \<le> hi \<and> uint (word_of_int raw :: 'a word) = raw"
  by (auto simp: in_range_def unsigned_of_int take_bit_int_eq_self split: option.splits)

definition top_values :: "'n toml_api \<Rightarrow> (string \<times> 'n) list \<Rightarrow> app_config \<Rightarrow> app_config" where
  "top_values api tbl c =
     given (\<lambda>raw c. c\<lparr>cfg_max_read_bytes := word_of_int raw\<rparr>) (Option.bind (map_of tbl ''max_read_bytes'') (node_int api))
    (given (\<lambda>raw c. c\<lparr>cfg_max_header_count := word_of_int raw\<rparr>) (Option.bind (map_of tbl ''max_header_count'') (node_int api))
    (given (\<lambda>raw c. c\<lparr>cfg_request_timeout := raw\<rparr>) (Option.bind (map_of tbl ''request_timeout'') (node_int api))
    (given (\<lambda>raw c. c\<lparr>cfg_max_body_size := word_of_int raw\<rparr>) (Option.bind (map_of tbl ''max_body_size'') (node_int api))
    (given (\<lambda>raw c. c\<lparr>cfg_backlog := raw\<rparr>) (Option.bind (map_of tbl ''backlog'') (node_int api))
    (given (\<lambda>raw c. c\<lparr>cfg_host := raw\<rparr>)
       (Option.bind (map_of tbl ''host'') (\<lambda>v. Option.bind (node_string api v) non_empty))
    (given (\<lambda>raw c. c\<lparr>cfg_port := word_of_int raw\<rparr>) (Option.bind (map_of tbl ''port'') (node_int api)) c))))))"

lemma top_run: "run_steps (top_steps api tbl) c = Inr c' \<Longrightarrow> c' = top_values api tbl c"
  by (auto simp: top_steps_def top_values_def run_steps_Cons_Inr simp del: run_steps.simps(2)
      dest!: int_key_Inr string_key_Inr)
definition executor_values :: "'n toml_api \<Rightarrow> (string \<times> 'n) list \<Rightarrow> app_config \<Rightarrow> app_config" where
  "executor_values api tbl c =
     given (\<lambda>raw c. c\<lparr>cfg_executor := (cfg_executor c)\<lparr>drain_timeout := raw\<rparr>\<rparr>)
       (Option.bind (node_at api tbl [''executor'', ''drain_timeout'']) (node_int api))
    (given (\<lambda>raw c. c\<lparr>cfg_executor := (cfg_executor c)\<lparr>cpu_pool_threads := nat raw\<rparr>\<rparr>)
       (Option.bind (node_at api tbl [''executor'', ''cpu_pool_threads'']) (node_int api))
    (given (\<lambda>raw c. c\<lparr>cfg_executor := (cfg_executor c)\<lparr>thread_count := nat raw\<rparr>\<rparr>)
       (Option.bind (node_at api tbl [''executor'', ''thread_count'']) (node_int api)) c))"

lemma executor_run:
  "load_section api tbl ''executor'' known (executor_steps api) c = (Inr c', w) \<Longrightarrow> c' = executor_values api tbl c"
  by (auto simp: load_section_def executor_steps_def executor_values_def run_steps_Cons_Inr given_def [of _ None]
      simp del: run_steps.simps(2) dest!: int_key_Inr split: option.splits)

definition logging_values :: "'n toml_api \<Rightarrow> (string \<times> 'n) list \<Rightarrow> app_config \<Rightarrow> app_config" where
  "logging_values api tbl c =
     given (\<lambda>raw c. c\<lparr>cfg_logging := (cfg_logging c)\<lparr>lc_queue_capacity := word_of_int raw\<rparr>\<rparr>)
       (Option.bind (node_at api tbl [''logging'', ''queue_capacity'']) (node_int api))
    (given (\<lambda>p c. c\<lparr>cfg_logging := (cfg_logging c)\<lparr>lc_file_path := Some p\<rparr>\<rparr>)
       (Option.bind (node_at api tbl [''logging'', ''file_path'']) (\<lambda>v. Option.bind (node_string api v) Some))
    (given (\<lambda>d c. c\<lparr>cfg_logging := (cfg_logging c)\<lparr>lc_destination := d\<rparr>\<rparr>)
       (Option.bind (node_at api tbl [''logging'', ''destination'']) (\<lambda>v. Option.bind (node_string api v) destination_of))
    (given (\<lambda>f c. c\<lparr>cfg_logging := (cfg_logging c)\<lparr>lc_format := f\<rparr>\<rparr>)
       (Option.bind (node_at api tbl [''logging'', ''format'']) (\<lambda>v. Option.bind (node_string api v) format_of))
    (given (\<lambda>l c. c\<lparr>cfg_logging := (cfg_logging c)\<lparr>lc_level := l\<rparr>\<rparr>)
       (Option.bind (node_at api tbl [''logging'', ''level'']) (\<lambda>v. Option.bind (node_string api v) level_of))
    (given (\<lambda>raw c. c\<lparr>cfg_logging := (cfg_logging c)\<lparr>lc_enabled := raw\<rparr>\<rparr>)
       (Option.bind (node_at api tbl [''logging'', ''enabled'']) (node_bool api)) c)))))"

lemma logging_run:
  "load_section api tbl ''logging'' known (logging_steps api) c = (Inr c', w) \<Longrightarrow> c' = logging_values api tbl c"
  by (auto simp: load_section_def logging_steps_def logging_values_def run_steps_Cons_Inr given_def [of _ None]
      simp del: run_steps.simps(2) dest!: int_key_Inr string_key_Inr bool_key_Inr split: option.splits)

lemma merge_values:
  "fst (merge_table api tbl base) = Inr c \<Longrightarrow>
     c = logging_values api tbl (executor_values api tbl (top_values api tbl base))"
  by (auto simp: merge_table_def Let_def split: sum.splits prod.splits dest: top_run executor_run logging_run)

lemma first_some_None: "first_some xs = None \<longleftrightarrow> (\<forall>x \<in> set xs. x = None)"
  by (induction xs) (auto split: option.splits)

lemma merge_accepted:
  assumes "fst (merge_table api tbl base) = Inr c" "(p, valid) \<in> set (documented api)" "node_at api tbl p = Some v"
  shows "valid v"
proof -
  have "first_some (map (key_problem api tbl) (documented api)) = None"
    using merge_failure [of api tbl base] assms(1) by simp
  then have "key_problem api tbl (p, valid) = None" using assms(2) by (auto simp: first_some_None)
  then show ?thesis using assms(3) by (simp add: key_problem_def split: if_splits)
qed

lemma given_other: "(\<And>x c. f (assign x c) = f c) \<Longrightarrow> f (given assign v c) = f c"
  by (simp add: given_def split: option.splits)

lemma given_own: "(\<And>x c. f (assign x c) = g x) \<Longrightarrow> f (given assign v c) = (case v of None \<Rightarrow> f c | Some x \<Rightarrow> g x)"
  by (simp add: given_def split: option.splits)

lemmas given_others = given_other [where f = cfg_port] given_other [where f = cfg_host]
  given_other [where f = cfg_backlog] given_other [where f = cfg_reuse_port]
  given_other [where f = cfg_max_body_size] given_other [where f = cfg_request_timeout]
  given_other [where f = cfg_max_header_count] given_other [where f = cfg_max_read_bytes]
  given_other [where f = cfg_executor] given_other [where f = cfg_logging]
  given_other [where f = "\<lambda>c. thread_count (cfg_executor c)"]
  given_other [where f = "\<lambda>c. cpu_pool_threads (cfg_executor c)"]
  given_other [where f = "\<lambda>c. drain_timeout (cfg_executor c)"]
  given_other [where f = "\<lambda>c. lc_enabled (cfg_logging c)"]
  given_other [where f = "\<lambda>c. lc_level (cfg_logging c)"]
  given_other [where f = "\<lambda>c. lc_format (cfg_logging c)"]
  given_other [where f = "\<lambda>c. lc_destination (cfg_logging c)"]
  given_other [where f = "\<lambda>c. lc_file_path (cfg_logging c)"]
  given_other [where f = "\<lambda>c. lc_queue_capacity (cfg_logging c)"]

lemmas given_owns = given_own [where f = cfg_port] given_own [where f = cfg_host] given_own [where f = cfg_backlog]
  given_own [where f = cfg_reuse_port] given_own [where f = cfg_max_body_size]
  given_own [where f = cfg_request_timeout] given_own [where f = cfg_max_header_count]
  given_own [where f = cfg_max_read_bytes] given_own [where f = cfg_executor]
  given_own [where f = cfg_logging] given_own [where f = "\<lambda>c. thread_count (cfg_executor c)"]
  given_own [where f = "\<lambda>c. cpu_pool_threads (cfg_executor c)"]
  given_own [where f = "\<lambda>c. drain_timeout (cfg_executor c)"]
  given_own [where f = "\<lambda>c. lc_enabled (cfg_logging c)"]
  given_own [where f = "\<lambda>c. lc_level (cfg_logging c)"]
  given_own [where f = "\<lambda>c. lc_format (cfg_logging c)"]
  given_own [where f = "\<lambda>c. lc_destination (cfg_logging c)"]
  given_own [where f = "\<lambda>c. lc_file_path (cfg_logging c)"]
  given_own [where f = "\<lambda>c. lc_queue_capacity (cfg_logging c)"]

lemma top_fields:
  "cfg_port (top_values api tbl c) = (case Option.bind (map_of tbl ''port'') (node_int api) of None \<Rightarrow> cfg_port c | Some raw \<Rightarrow> word_of_int raw)"
  "cfg_host (top_values api tbl c) = (case Option.bind (map_of tbl ''host'') (\<lambda>v. Option.bind (node_string api v) non_empty) of None \<Rightarrow> cfg_host c | Some s \<Rightarrow> s)"
  "cfg_backlog (top_values api tbl c) = (case Option.bind (map_of tbl ''backlog'') (node_int api) of None \<Rightarrow> cfg_backlog c | Some raw \<Rightarrow> raw)"
  "cfg_reuse_port (top_values api tbl c) = cfg_reuse_port c"
  "cfg_max_body_size (top_values api tbl c) = (case Option.bind (map_of tbl ''max_body_size'') (node_int api) of None \<Rightarrow> cfg_max_body_size c | Some raw \<Rightarrow> word_of_int raw)"
  "cfg_request_timeout (top_values api tbl c) = (case Option.bind (map_of tbl ''request_timeout'') (node_int api) of None \<Rightarrow> cfg_request_timeout c | Some raw \<Rightarrow> raw)"
  "cfg_max_header_count (top_values api tbl c) = (case Option.bind (map_of tbl ''max_header_count'') (node_int api) of None \<Rightarrow> cfg_max_header_count c | Some raw \<Rightarrow> word_of_int raw)"
  "cfg_max_read_bytes (top_values api tbl c) = (case Option.bind (map_of tbl ''max_read_bytes'') (node_int api) of None \<Rightarrow> cfg_max_read_bytes c | Some raw \<Rightarrow> word_of_int raw)"
  "cfg_executor (top_values api tbl c) = cfg_executor c" "cfg_logging (top_values api tbl c) = cfg_logging c"
  by (simp_all add: top_values_def given_others given_owns cong: option.case_cong)

lemma executor_fields:
  "cfg_port (executor_values api tbl c) = cfg_port c" "cfg_host (executor_values api tbl c) = cfg_host c"
  "cfg_backlog (executor_values api tbl c) = cfg_backlog c" "cfg_reuse_port (executor_values api tbl c) = cfg_reuse_port c"
  "cfg_max_body_size (executor_values api tbl c) = cfg_max_body_size c"
  "cfg_request_timeout (executor_values api tbl c) = cfg_request_timeout c"
  "cfg_max_header_count (executor_values api tbl c) = cfg_max_header_count c"
  "cfg_max_read_bytes (executor_values api tbl c) = cfg_max_read_bytes c" "cfg_logging (executor_values api tbl c) = cfg_logging c"
  "thread_count (cfg_executor (executor_values api tbl c)) =
     (case Option.bind (node_at api tbl [''executor'', ''thread_count'']) (node_int api) of None \<Rightarrow> thread_count (cfg_executor c) | Some raw \<Rightarrow> nat raw)"
  "cpu_pool_threads (cfg_executor (executor_values api tbl c)) =
     (case Option.bind (node_at api tbl [''executor'', ''cpu_pool_threads'']) (node_int api) of None \<Rightarrow> cpu_pool_threads (cfg_executor c) | Some raw \<Rightarrow> nat raw)"
  "drain_timeout (cfg_executor (executor_values api tbl c)) =
     (case Option.bind (node_at api tbl [''executor'', ''drain_timeout'']) (node_int api) of None \<Rightarrow> drain_timeout (cfg_executor c) | Some raw \<Rightarrow> raw)"
  by (simp_all add: executor_values_def given_others given_owns cong: option.case_cong del: node_at.simps)

lemma logging_fields:
  "cfg_port (logging_values api tbl c) = cfg_port c" "cfg_host (logging_values api tbl c) = cfg_host c"
  "cfg_backlog (logging_values api tbl c) = cfg_backlog c" "cfg_reuse_port (logging_values api tbl c) = cfg_reuse_port c"
  "cfg_max_body_size (logging_values api tbl c) = cfg_max_body_size c"
  "cfg_request_timeout (logging_values api tbl c) = cfg_request_timeout c"
  "cfg_max_header_count (logging_values api tbl c) = cfg_max_header_count c"
  "cfg_max_read_bytes (logging_values api tbl c) = cfg_max_read_bytes c" "cfg_executor (logging_values api tbl c) = cfg_executor c"
  by (simp_all add: logging_values_def given_others given_owns cong: option.case_cong del: node_at.simps)

lemma logging_settings:
  "lc_enabled (cfg_logging (logging_values api tbl c)) =
     (case Option.bind (node_at api tbl [''logging'', ''enabled'']) (node_bool api) of None \<Rightarrow> lc_enabled (cfg_logging c) | Some b \<Rightarrow> b)"
  "lc_level (cfg_logging (logging_values api tbl c)) =
     (case Option.bind (node_at api tbl [''logging'', ''level'']) (\<lambda>v. Option.bind (node_string api v) level_of) of
        None \<Rightarrow> lc_level (cfg_logging c) | Some l \<Rightarrow> l)"
  "lc_format (cfg_logging (logging_values api tbl c)) =
     (case Option.bind (node_at api tbl [''logging'', ''format'']) (\<lambda>v. Option.bind (node_string api v) format_of) of
        None \<Rightarrow> lc_format (cfg_logging c) | Some l \<Rightarrow> l)"
  "lc_destination (cfg_logging (logging_values api tbl c)) =
     (case Option.bind (node_at api tbl [''logging'', ''destination'']) (\<lambda>v. Option.bind (node_string api v) destination_of) of
        None \<Rightarrow> lc_destination (cfg_logging c) | Some l \<Rightarrow> l)"
  "lc_file_path (cfg_logging (logging_values api tbl c)) =
     (case Option.bind (node_at api tbl [''logging'', ''file_path'']) (\<lambda>v. Option.bind (node_string api v) Some) of
        None \<Rightarrow> lc_file_path (cfg_logging c) | Some l \<Rightarrow> Some l)"
  "lc_queue_capacity (cfg_logging (logging_values api tbl c)) =
     (case Option.bind (node_at api tbl [''logging'', ''queue_capacity'']) (node_int api) of
        None \<Rightarrow> lc_queue_capacity (cfg_logging c) | Some raw \<Rightarrow> word_of_int raw)"
  by (simp_all add: logging_values_def given_others given_owns cong: option.case_cong del: node_at.simps)

lemma int_settings_documented: "(p, lo, hi, get) \<in> set int_settings \<Longrightarrow> (p, in_range api lo hi) \<in> set (documented api)"
proof -
  have "list_all (\<lambda>(p, lo, hi, get). (p, in_range api lo hi) \<in> set (documented api)) int_settings"
    by (simp add: int_settings_def documented_def top_docs_def executor_docs_def logging_docs_def)
  then show "(p, lo, hi, get) \<in> set int_settings \<Longrightarrow> ?thesis" by (auto simp: list_all_iff)
qed

lemma loaded_fields:
  assumes "fst (merge_table api tbl base) = Inr c"
  shows "list_all (\<lambda>(p, lo, hi, get).
      (Option.bind (node_at api tbl p) (node_int api) = None \<longrightarrow> get c = get base)
      \<and> (\<forall>raw. Option.bind (node_at api tbl p) (node_int api) = Some raw \<longrightarrow> lo \<le> raw \<longrightarrow> raw \<le> hi \<longrightarrow> get c = raw))
    int_settings"
  by (simp add: int_settings_def merge_values [OF assms] top_fields executor_fields logging_fields logging_settings
      unsigned_of_int take_bit_int_eq_self del: node_at.simps(3) bind_eq_None_conv bind_eq_Some_conv)

lemma loaded_ints:
  assumes "fst (merge_table api tbl base) = Inr c" "(p, lo, hi, get) \<in> set int_settings"
  shows "case node_at api tbl p of None \<Rightarrow> get c = get base
    | Some v \<Rightarrow> node_int api v = Some (get c) \<and> lo \<le> get c \<and> get c \<le> hi"
proof (cases "node_at api tbl p")
  case None
  then show ?thesis using loaded_fields [OF assms(1)] assms(2) by (auto simp: list_all_iff)
next
  case (Some v)
  from merge_accepted [OF assms(1) int_settings_documented [OF assms(2)] Some]
  obtain raw where "node_int api v = Some raw" "lo \<le> raw" "raw \<le> hi"
    by (auto simp: in_range_def split: option.splits)
  then show ?thesis using loaded_fields [OF assms(1)] assms(2) Some by (force simp: list_all_iff)
qed

lemma loaded_word:
  assumes "fst (merge_table api tbl base) = Inr c" "(p, valid) \<in> set (documented api)"
    and "\<And>v. valid v \<Longrightarrow> Option.bind (node_string api v) accept \<noteq> None"
    and "get c = (case Option.bind (node_at api tbl p) (\<lambda>v. Option.bind (node_string api v) accept) of
      None \<Rightarrow> get base | Some l \<Rightarrow> l)"
  shows "case node_at api tbl p of None \<Rightarrow> get c = get base
    | Some v \<Rightarrow> \<exists>s. node_string api v = Some s \<and> accept s = Some (get c)"
proof (cases "node_at api tbl p")
  case (Some v)
  from assms(3) [OF merge_accepted [OF assms(1,2) Some]]
  obtain s l where "node_string api v = Some s" "accept s = Some l" by (auto simp: bind_eq_Some_conv)
  then show ?thesis using Some assms(4) by simp
qed (use assms(4) in simp)

lemma loaded_others:
  assumes m: "fst (merge_table api tbl base) = Inr c"
  shows "list_all (\<lambda>(p, says). case node_at api tbl p of None \<Rightarrow> says c = says base | Some v \<Rightarrow> says c v) (other_settings api)"
proof -
  note fields = merge_values [OF m] top_fields executor_fields logging_fields logging_settings
  note docs = documented_def top_docs_def logging_docs_def
  note word = loaded_word [OF m]
  have "Option.bind (map_of tbl ''host'') (\<lambda>v. Option.bind (node_string api v) non_empty)
      = Option.bind (node_at api tbl [''host'']) (\<lambda>v. Option.bind (node_string api v) non_empty)" by simp
  then have host: "case node_at api tbl [''host''] of None \<Rightarrow> cfg_host c = cfg_host base
      | Some v \<Rightarrow> \<exists>s. node_string api v = Some s \<and> non_empty s = Some (cfg_host c)"
    by (intro word [where valid = "\<lambda>v. case node_string api v of None \<Rightarrow> False | Some s \<Rightarrow> s \<noteq> []"])
       (simp_all add: docs accepted_words fields)
  have level: "case node_at api tbl [''logging'', ''level''] of None \<Rightarrow> lc_level (cfg_logging c) = lc_level (cfg_logging base)
      | Some v \<Rightarrow> \<exists>s. node_string api v = Some s \<and> level_of s = Some (lc_level (cfg_logging c))"
    by (rule word [where valid = "one_of api [''trace'', ''debug'', ''info'', ''warn'', ''error'', ''fatal'']"])
       (simp_all add: docs accepted_words fields del: node_at.simps not_None_eq cong: option.case_cong)
  have format: "case node_at api tbl [''logging'', ''format''] of None \<Rightarrow> lc_format (cfg_logging c) = lc_format (cfg_logging base)
      | Some v \<Rightarrow> \<exists>s. node_string api v = Some s \<and> format_of s = Some (lc_format (cfg_logging c))"
    by (rule word [where valid = "one_of api [''json'', ''pretty'']"])
       (simp_all add: docs accepted_words fields del: node_at.simps not_None_eq cong: option.case_cong)
  have destination: "case node_at api tbl [''logging'', ''destination''] of
        None \<Rightarrow> lc_destination (cfg_logging c) = lc_destination (cfg_logging base)
      | Some v \<Rightarrow> \<exists>s. node_string api v = Some s \<and> destination_of s = Some (lc_destination (cfg_logging c))"
    by (rule word [where valid = "one_of api [''stdout'', ''stderr'', ''file'', ''disabled'']"])
       (simp_all add: docs accepted_words fields del: node_at.simps not_None_eq cong: option.case_cong)
  have file_path: "case node_at api tbl [''logging'', ''file_path''] of None \<Rightarrow> lc_file_path (cfg_logging c) = lc_file_path (cfg_logging base)
      | Some v \<Rightarrow> node_string api v = lc_file_path (cfg_logging c)"
    using merge_accepted [OF m, of "[''logging'', ''file_path'']" "\<lambda>v. node_string api v \<noteq> None"]
    by (cases "node_at api tbl [''logging'', ''file_path'']") (auto simp: docs fields simp del: node_at.simps)
  have enabled: "case node_at api tbl [''logging'', ''enabled''] of None \<Rightarrow> lc_enabled (cfg_logging c) = lc_enabled (cfg_logging base)
      | Some v \<Rightarrow> node_bool api v = Some (lc_enabled (cfg_logging c))"
    using merge_accepted [OF m, of "[''logging'', ''enabled'']" "\<lambda>v. node_bool api v \<noteq> None"]
    by (cases "node_at api tbl [''logging'', ''enabled'']") (auto simp: docs fields simp del: node_at.simps)
  show ?thesis
    using host level format destination file_path enabled
    by (auto simp: other_settings_def non_empty_def simp del: node_at.simps split: option.splits if_splits)
qed

text \<open>
  Claim C33. A configuration that loads holds what the file says and nothing else: every integer setting of
  the file is in its documented range and is stored without truncation in its field, whatever the
  field's width; every other setting of the file is the one stored; and every setting the file does
  not mention, and the one it cannot mention, is that of the base configuration.
\<close>

theorem config_values:
  assumes "fst (load_toml_config api exists parse_file path base) = Inr c" "parse_file path = ParsedTable tbl"
  shows "(\<forall>(p, lo, hi, get) \<in> set int_settings. case node_at api tbl p of
        None \<Rightarrow> get c = get base
      | Some v \<Rightarrow> node_int api v = Some (get c) \<and> lo \<le> get c \<and> get c \<le> hi)
    \<and> (\<forall>(p, says) \<in> set (other_settings api). case node_at api tbl p of
        None \<Rightarrow> says c = says base
      | Some v \<Rightarrow> says c v)
    \<and> cfg_reuse_port c = cfg_reuse_port base"
proof -
  have m: "fst (merge_table api tbl base) = Inr c"
    using assms by (simp add: load_toml_config_def split: if_splits)
  have "cfg_reuse_port c = cfg_reuse_port base"
    by (simp add: merge_values [OF m] top_fields executor_fields logging_fields)
  moreover have "\<forall>(p, says) \<in> set (other_settings api). case node_at api tbl p of
      None \<Rightarrow> says c = says base | Some v \<Rightarrow> says c v"
    using loaded_others [OF m] unfolding list_all_iff .
  ultimately show ?thesis using loaded_ints [OF m] by blast
qed

definition sample_api :: "(int + string) toml_api" where
  "sample_api = \<lparr>node_int = (\<lambda>v. case v of Inl n \<Rightarrow> Some n | Inr _ \<Rightarrow> None), node_bool = (\<lambda>_. None),
     node_string = (\<lambda>v. case v of Inl _ \<Rightarrow> None | Inr s \<Rightarrow> Some s), node_table = (\<lambda>_. None)\<rparr>"

definition sample_table :: "(string \<times> (int + string)) list" where
  "sample_table = [(''host'', Inr ''localhost''), (''port'', Inl 65535)]"

definition sample_loaded :: app_config where
  "sample_loaded = default_app_config\<lparr>cfg_port := 65535, cfg_host := ''localhost''\<rparr>"

lemma sample_load: "fst (load_toml_config sample_api (\<lambda>_. True) (\<lambda>_. ParsedTable sample_table) ''app.toml'' default_app_config)
    = Inr sample_loaded"
  by (simp add: load_toml_config_def merge_table_def top_steps_def load_section_def int_key_def string_key_def
      sample_api_def sample_table_def sample_loaded_def non_empty_def default_app_config_def Let_def)

theorem config_values_witness:
  "uint (cfg_port sample_loaded) = 65535 \<and> cfg_backlog sample_loaded = cfg_backlog default_app_config"
proof -
  note v = config_values [OF sample_load refl]
  have p: "([''port''], 1, 65535, \<lambda>c. uint (cfg_port c)) \<in> set int_settings"
    and b: "([''backlog''], 1, 65535, cfg_backlog) \<in> set int_settings"
    by (simp_all add: int_settings_def)
  show ?thesis
    using bspec [OF conjunct1 [OF v] p] bspec [OF conjunct1 [OF v] b]
    by (simp add: sample_table_def sample_api_def)
qed
end
