(* ===== verification/App.thy ===== *)
theory App
  imports Grpc_Plugin Toml_Config Logger
begin

text \<open>
  The application object of \<^verbatim>\<open>src/router/app_impl.cpp\<close>: installation of plugins, \<^verbatim>\<open>listen\<close>, \<^verbatim>\<open>stop\<close> and
  the destructor. Plugins are objects behind an interface, so what they do is a parameter: the
  functions \<open>install\<close>, \<open>start\<close> and \<open>stop\<close> over a plugin state. The executor blocks in \<^verbatim>\<open>run\<close>; what it does
  there, and the calls of \<^verbatim>\<open>App::stop\<close> from other threads meanwhile, is a function on its state and a
  number. The global slot of the log writer is part of the state, since every application uses it.
\<close>

datatype app_event = PluginStarted nat | PluginFailed nat | PluginStopped nat | Listening | RunEnded | LogFlushed | Terminating

record 'p app =
  ap_config :: app_config
  ap_executor :: executor
  ap_plugins :: "'p list"
  ap_log_writer :: "log_writer option"
  global_log_slot :: "log_writer option"
  signal_set :: bool
  ap_events :: "app_event list"

text \<open>The answers of the world to one call of \<^verbatim>\<open>listen\<close>.\<close>

record 'o app_env =
  env_start :: "nat \<Rightarrow> 'o"
  env_bind :: bind_outcome
  env_can_open :: "string \<Rightarrow> bool"
  env_run :: "executor \<Rightarrow> executor"
  env_stops :: nat

definition new_app :: "nat \<Rightarrow> app_config \<Rightarrow> 'p app" where
  "new_app cores cfg = \<lparr>ap_config = cfg, ap_executor = new_executor (make_executor_config cores (cfg_executor cfg)),
     ap_plugins = [], ap_log_writer = None, global_log_slot = None, signal_set = False, ap_events = []\<rparr>"

definition app_event :: "app_event \<Rightarrow> 'p app \<Rightarrow> 'p app" where
  "app_event ev a = a\<lparr>ap_events := ap_events a @ [ev]\<rparr>"

definition app_install :: "('p \<Rightarrow> (PluginError + unit) \<times> 'p) \<Rightarrow> 'p option \<Rightarrow> 'p app \<Rightarrow> (PluginError + unit) \<times> 'p app" where
  "app_install install plugin a = (case plugin of
      None \<Rightarrow> (Inl PlInvalidArgument, a)
    | Some p \<Rightarrow> (case install p of
        (Inl e, _) \<Rightarrow> (Inl e, a)
      | (Inr _, p') \<Rightarrow> (Inr (), a\<lparr>ap_plugins := ap_plugins a @ [p']\<rparr>)))"

text \<open>The start loop: the number of plugins started, and whether one failed.\<close>

definition start_one :: "('o \<Rightarrow> 'p \<Rightarrow> (PluginError + unit) \<times> 'p) \<Rightarrow> 'o app_env \<Rightarrow> nat \<Rightarrow> 'p app \<Rightarrow> bool \<times> 'p app" where
  "start_one start env i a = (case start (env_start env i) (ap_plugins a ! i) of
      (Inl _, p) \<Rightarrow> (False, app_event (PluginFailed i) (a\<lparr>ap_plugins := (ap_plugins a)[i := p]\<rparr>))
    | (Inr _, p) \<Rightarrow> (True, app_event (PluginStarted i) (a\<lparr>ap_plugins := (ap_plugins a)[i := p]\<rparr>)))"

fun start_plugins :: "('o \<Rightarrow> 'p \<Rightarrow> (PluginError + unit) \<times> 'p) \<Rightarrow> 'o app_env \<Rightarrow> nat list \<Rightarrow> nat list \<Rightarrow> 'p app
    \<Rightarrow> bool \<times> nat list \<times> 'p app" where
  "start_plugins start env started [] a = (True, started, a)"
| "start_plugins start env started (i # is) a = (case start_one start env i a of
      (False, a') \<Rightarrow> (False, started, a')
    | (True, a') \<Rightarrow> start_plugins start env (started @ [i]) is a')"

definition stop_one :: "('p \<Rightarrow> 'p) \<Rightarrow> nat \<Rightarrow> 'p app \<Rightarrow> 'p app" where
  "stop_one stop i a = app_event (PluginStopped i) (a\<lparr>ap_plugins := (ap_plugins a)[i := stop (ap_plugins a ! i)]\<rparr>)"

definition stop_plugins :: "('p \<Rightarrow> 'p) \<Rightarrow> nat list \<Rightarrow> 'p app \<Rightarrow> 'p app" where
  "stop_plugins stop is a = foldl (\<lambda>a i. stop_one stop i a) a is"

text \<open>\<^verbatim>\<open>App::stop\<close>: the plugins in order, then the executor.\<close>

definition app_stop :: "('p \<Rightarrow> 'p) \<Rightarrow> 'p app \<Rightarrow> 'p app" where
  "app_stop stop a = (let a' = stop_plugins stop [0..<length (ap_plugins a)] a in
     a'\<lparr>ap_executor := stop_exchange (ap_executor a')\<rparr>)"

definition make_disabled_log_writer :: "(string \<Rightarrow> bool) \<Rightarrow> log_writer option" where
  "make_disabled_log_writer can_open =
     (case log_writer_create can_open (default_log_config\<lparr>lc_enabled := False, lc_destination := Disabled\<rparr>) of
        Inl _ \<Rightarrow> None | Inr w \<Rightarrow> Some w)"

definition start_logging :: "(string \<Rightarrow> bool) \<Rightarrow> 'p app \<Rightarrow> 'p app" where
  "start_logging can_open a =
     (let w = (case log_writer_create can_open (cfg_logging (ap_config a)) of
                 Inl _ \<Rightarrow> make_disabled_log_writer can_open | Inr w \<Rightarrow> Some w) in
      a\<lparr>ap_log_writer := w, global_log_slot := (case w of None \<Rightarrow> global_log_slot a | Some _ \<Rightarrow> w)\<rparr>)"

datatype listen_result = ListenReturned | ProcessTerminated

definition app_listen :: "('o \<Rightarrow> 'p \<Rightarrow> (PluginError + unit) \<times> 'p) \<Rightarrow> ('p \<Rightarrow> 'p) \<Rightarrow> 'o app_env \<Rightarrow> 'p app
    \<Rightarrow> listen_result \<times> 'p app" where
  "app_listen start stop env a =
     (case start_plugins start env [] [0..<length (ap_plugins a)] a of
        (False, started, a1) \<Rightarrow> (ProcessTerminated, app_event Terminating (stop_plugins stop (rev started) a1))
      | (True, started, a1) \<Rightarrow>
          (let a2 = start_logging (env_can_open env) (a1\<lparr>signal_set := True\<rparr>) in
           case exec_listen (env_bind env) (ap_executor a2) of
             (Inl _, e) \<Rightarrow> (ProcessTerminated, app_event Terminating (stop_plugins stop (rev started) (a2\<lparr>ap_executor := e\<rparr>)))
           | (Inr _, e) \<Rightarrow>
               (let a3 = app_event Listening (a2\<lparr>ap_executor := e\<rparr>);
                    a4 = ((app_stop stop) ^^ env_stops env) a3;
                    a5 = app_event LogFlushed (app_event RunEnded (a4\<lparr>ap_executor := env_run env (ap_executor a4)\<rparr>));
                    a6 = a5\<lparr>global_log_slot := None, ap_log_writer := None\<rparr>;
                    a7 = stop_plugins stop (rev [0..<length (ap_plugins a6)]) a6
                in (ListenReturned, a7\<lparr>signal_set := False\<rparr>))))"

text \<open>\<^verbatim>\<open>listen()\<close> takes the port from the configuration; the answers of the world depend on the port.\<close>

definition app_listen_config :: "('o \<Rightarrow> 'p \<Rightarrow> (PluginError + unit) \<times> 'p) \<Rightarrow> ('p \<Rightarrow> 'p) \<Rightarrow> (16 word \<Rightarrow> 'o app_env) \<Rightarrow> 'p app
    \<Rightarrow> listen_result \<times> 'p app" where
  "app_listen_config start stop env a = app_listen start stop (env (cfg_port (ap_config a))) a"

text \<open>The handler of SIGINT and SIGTERM stops the executor of the application that listens, if any.\<close>

definition handle_signal :: "'p app \<Rightarrow> 'p app" where
  "handle_signal a = (if signal_set a then a\<lparr>ap_executor := stop_exchange (ap_executor a)\<rparr> else a)"

text \<open>The destructor, of an application that was not moved from.\<close>

definition app_destroy :: "('p \<Rightarrow> 'p) \<Rightarrow> 'p app \<Rightarrow> 'p app" where
  "app_destroy stop a = (app_stop stop a)\<lparr>global_log_slot := None, ap_log_writer := None\<rparr>"

text \<open>
  What a start that fails leaves behind, and one whose port cannot be bound: the plugins started are stopped in
  reverse order.
\<close>

definition undone :: "'p app \<Rightarrow> 'p app \<Rightarrow> bool" where
  "undone a a' \<longleftrightarrow> (\<exists>k \<le> length (ap_plugins a). ap_events a' = ap_events a @ map PluginStarted [0..<k]
     @ (if k < length (ap_plugins a) then [PluginFailed k] else []) @ map PluginStopped (rev [0..<k]) @ [Terminating])"

subsection \<open>The plugin interface\<close>

text \<open>
  What the application relies on: a start that succeeds leaves the plugin up, one that fails changes
  nothing in that respect, and a stopped plugin is down. \<open>ok\<close> is the provider's own invariant.
\<close>

locale plugin_lifecycle =
  fixes start :: "'o \<Rightarrow> 'p \<Rightarrow> (PluginError + unit) \<times> 'p"
    and stop :: "'p \<Rightarrow> 'p"
    and ok :: "'p \<Rightarrow> bool"
    and up :: "'p \<Rightarrow> bool"
  assumes start_done: "ok p \<Longrightarrow> start env p = (Inr u, p') \<Longrightarrow> ok p' \<and> up p'"
    and start_failed: "ok p \<Longrightarrow> start env p = (Inl e, p') \<Longrightarrow> ok p' \<and> up p' = up p"
    and stop_done: "ok p \<Longrightarrow> ok (stop p) \<and> \<not> up (stop p)"
begin

definition ups :: "'p app \<Rightarrow> nat set" where
  "ups a = {i. i < length (ap_plugins a) \<and> up (ap_plugins a ! i)}"

definition all_ok :: "'p app \<Rightarrow> bool" where
  "all_ok a \<longleftrightarrow> (\<forall>p \<in> set (ap_plugins a). ok p)"

lemma all_ok_update: "all_ok a \<Longrightarrow> ok p \<Longrightarrow> all_ok (a\<lparr>ap_plugins := (ap_plugins a)[i := p], ap_events := evs\<rparr>)"
  using set_update_subset_insert [of "ap_plugins a" i p] by (auto simp: all_ok_def)

lemma start_one_props:
  assumes "start_one start env i a = (b, a')" "all_ok a" "i < length (ap_plugins a)" "i \<notin> ups a"
  shows "all_ok a' \<and> length (ap_plugins a') = length (ap_plugins a)
    \<and> ups a' = (if b then insert i (ups a) else ups a)
    \<and> ap_events a' = ap_events a @ [if b then PluginStarted i else PluginFailed i]"
proof -
  have p: "ok (ap_plugins a ! i)" "\<not> up (ap_plugins a ! i)" using assms(2-4) by (auto simp: all_ok_def ups_def)
  obtain r p' where s: "start (env_start env i) (ap_plugins a ! i) = (r, p')"
    by (cases "start (env_start env i) (ap_plugins a ! i)")
  show ?thesis
  proof (cases r)
    case (Inl e)
    with start_failed [OF p(1) s [unfolded Inl]] s assms p show ?thesis
      by (auto simp: start_one_def app_event_def ups_def nth_list_update all_ok_update split: if_splits)
  next
    case (Inr u)
    with start_done [OF p(1) s [unfolded Inr]] s assms show ?thesis
      by (auto simp: start_one_def app_event_def ups_def nth_list_update all_ok_update)
  qed
qed

lemma start_plugins_props:
  assumes "start_plugins start env started is a = (b, l, a')" "distinct is" "all_ok a"
    and "\<forall>i \<in> set is. i < length (ap_plugins a) \<and> i \<notin> ups a"
  shows "\<exists>k \<le> length is. l = started @ take k is \<and> (b \<longleftrightarrow> k = length is) \<and> all_ok a'
    \<and> length (ap_plugins a') = length (ap_plugins a) \<and> ups a' = ups a \<union> set (take k is)
    \<and> ap_events a' = ap_events a @ map PluginStarted (take k is) @ (if b then [] else [PluginFailed (is ! k)])"
  using assms
proof (induction "is" arbitrary: started a)
  case (Cons i "is")
  obtain b1 a1 where s: "start_one start env i a = (b1, a1)" by (cases "start_one start env i a")
  with Cons.prems have one: "all_ok a1" "length (ap_plugins a1) = length (ap_plugins a)"
    "ups a1 = (if b1 then insert i (ups a) else ups a)"
    "ap_events a1 = ap_events a @ [if b1 then PluginStarted i else PluginFailed i]"
    using start_one_props [OF s] by auto
  show ?case
  proof (cases b1)
    case True
    with Cons.prems s have "start_plugins start env (started @ [i]) is a1 = (b, l, a')" by simp
    from Cons.IH [OF this _ one(1)] Cons.prems(2,4) one(2,3) True
    obtain k where "k \<le> length is" "l = (started @ [i]) @ take k is" "b \<longleftrightarrow> k = length is" "all_ok a'"
      "length (ap_plugins a') = length (ap_plugins a1)" "ups a' = ups a1 \<union> set (take k is)"
      "ap_events a' = ap_events a1 @ map PluginStarted (take k is) @ (if b then [] else [PluginFailed (is ! k)])"
      by auto
    then show ?thesis using one True by (intro exI [of _ "Suc k"]) auto
  next
    case False
    with Cons.prems s one show ?thesis by (intro exI [of _ 0]) auto
  qed
qed simp

lemma stop_plugins_props:
  assumes "all_ok a" "\<forall>i \<in> set is. i < length (ap_plugins a)"
  shows "all_ok (stop_plugins stop is a) \<and> length (ap_plugins (stop_plugins stop is a)) = length (ap_plugins a)
    \<and> ups (stop_plugins stop is a) = ups a - set is
    \<and> ap_events (stop_plugins stop is a) = ap_events a @ map PluginStopped is"
  using assms
proof (induction "is" arbitrary: a)
  case (Cons i "is")
  let ?a = "stop_one stop i a"
  have p: "ok (ap_plugins a ! i)" using Cons.prems by (auto simp: all_ok_def)
  have one: "all_ok ?a" "length (ap_plugins ?a) = length (ap_plugins a)" "ups ?a = ups a - {i}"
    "ap_events ?a = ap_events a @ [PluginStopped i]"
    using Cons.prems stop_done [OF p]
    by (auto simp: stop_one_def app_event_def ups_def nth_list_update all_ok_update)
  have "stop_plugins stop (i # is) a = stop_plugins stop is ?a" by (simp add: stop_plugins_def)
  then show ?case using Cons.IH [OF one(1)] Cons.prems(2) one by auto
qed (simp add: stop_plugins_def)

lemma app_stop_props:
  assumes "all_ok a"
  shows "all_ok (app_stop stop a) \<and> length (ap_plugins (app_stop stop a)) = length (ap_plugins a)
    \<and> ups (app_stop stop a) = {}
    \<and> ap_events (app_stop stop a) = ap_events a @ map PluginStopped [0..<length (ap_plugins a)]"
proof -
  have "ups a \<subseteq> set [0..<length (ap_plugins a)]" by (auto simp: ups_def)
  then show ?thesis
    using stop_plugins_props [OF assms, of "[0..<length (ap_plugins a)]"]
    by (auto simp: app_stop_def Let_def all_ok_def ups_def)
qed

lemma app_stops_props:
  "all_ok a \<Longrightarrow> all_ok ((app_stop stop ^^ k) a) \<and> length (ap_plugins ((app_stop stop ^^ k) a)) = length (ap_plugins a)
    \<and> ap_events ((app_stop stop ^^ k) a) = ap_events a @ concat (replicate k (map PluginStopped [0..<length (ap_plugins a)]))"
proof (induction k)
  case (Suc k)
  then show ?case using app_stop_props [of "(app_stop stop ^^ k) a"]
    by (simp add: replicate_append_same [symmetric])
qed simp
lemma all_ok_same: "ap_plugins a' = ap_plugins a \<Longrightarrow> all_ok a' = all_ok a \<and> ups a' = ups a"
  by (simp add: all_ok_def ups_def)

lemma start_logging_fields:
  "ap_plugins (start_logging can_open x) = ap_plugins x" "ap_events (start_logging can_open x) = ap_events x"
  by (simp_all add: start_logging_def Let_def)

lemma start_all_props:
  assumes "start_plugins start env [] [0..<length (ap_plugins a)] a = (b, started, a1)" "all_ok a" "ups a = {}"
  shows "\<exists>k \<le> length (ap_plugins a). started = [0..<k] \<and> (b \<longleftrightarrow> k = length (ap_plugins a)) \<and> all_ok a1
    \<and> length (ap_plugins a1) = length (ap_plugins a) \<and> ups a1 = {0..<k}
    \<and> ap_events a1 = ap_events a @ map PluginStarted [0..<k]
        @ (if k < length (ap_plugins a) then [PluginFailed k] else [])"
proof -
  have "\<forall>i \<in> set [0..<length (ap_plugins a)]. i < length (ap_plugins a) \<and> i \<notin> ups a" using assms(3) by simp
  from start_plugins_props [OF assms(1) distinct_upt assms(2) this]
  obtain k where k: "k \<le> length [0..<length (ap_plugins a)]" "started = [] @ take k [0..<length (ap_plugins a)]"
    "b \<longleftrightarrow> k = length [0..<length (ap_plugins a)]" "all_ok a1" "length (ap_plugins a1) = length (ap_plugins a)"
    "ups a1 = ups a \<union> set (take k [0..<length (ap_plugins a)])"
    "ap_events a1 = ap_events a @ map PluginStarted (take k [0..<length (ap_plugins a)])
       @ (if b then [] else [PluginFailed ([0..<length (ap_plugins a)] ! k)])"
    by blast
  have n: "k \<le> length (ap_plugins a)" "b \<longleftrightarrow> k = length (ap_plugins a)" using k(1,3) by simp_all
  have tk: "take k [0..<length (ap_plugins a)] = [0..<k]" using n(1) by (simp add: take_upt)
  have "ap_events a1 = ap_events a @ map PluginStarted [0..<k] @ (if k < length (ap_plugins a) then [PluginFailed k] else [])"
  proof (cases b)
    case True
    then show ?thesis using k(7) n unfolding tk by simp
  next
    case False
    then have "k < length (ap_plugins a)" using n by simp
    then show ?thesis using k(7) False unfolding tk by simp
  qed
  moreover have "started = [0..<k]" "ups a1 = {0..<k}" using k(2,6) assms(3) unfolding tk by simp_all
  ultimately show ?thesis using k(4,5) n by blast
qed

text \<open>Undoing the start: the plugins started are stopped in reverse.\<close>

lemma undo_props:
  assumes "ap_plugins y = ap_plugins a1" "all_ok a1" "k \<le> length (ap_plugins a1)" "ups a1 = {0..<k}"
  defines "x \<equiv> app_event Terminating (stop_plugins stop (rev [0..<k]) y)"
  shows "all_ok x \<and> ups x = {} \<and> ap_events x = ap_events y @ map PluginStopped (rev [0..<k]) @ [Terminating]"
proof -
  have y: "all_ok y" "ups y = {0..<k}" "\<forall>i \<in> set (rev [0..<k]). i < length (ap_plugins y)"
    using all_ok_same [OF assms(1)] assms(1-4) by auto
  let ?z = "stop_plugins stop (rev [0..<k]) y"
  have "all_ok x = all_ok ?z" "ups x = ups ?z" "ap_events x = ap_events ?z @ [Terminating]"
    by (simp_all add: x_def app_event_def all_ok_def ups_def)
  with stop_plugins_props [OF y(1,3)] y(2) show ?thesis by simp
qed

lemma listen_undone:
  assumes "app_listen start stop env a = (ProcessTerminated, a')" "all_ok a" "ups a = {}"
  shows "all_ok a' \<and> ups a' = {} \<and> undone a a'"
proof -
  obtain b started a1 where s: "start_plugins start env [] [0..<length (ap_plugins a)] a = (b, started, a1)"
    using prod_cases3 by blast
  from start_all_props [OF s assms(2,3)]
  obtain k where k: "k \<le> length (ap_plugins a)" "started = [0..<k]" "all_ok a1"
    "length (ap_plugins a1) = length (ap_plugins a)" "ups a1 = {0..<k}"
    and ev: "ap_events a1 = ap_events a @ map PluginStarted [0..<k]
      @ (if k < length (ap_plugins a) then [PluginFailed k] else [])" by blast
  obtain y where y: "a' = app_event Terminating (stop_plugins stop (rev started) y)"
    "ap_plugins y = ap_plugins a1" "ap_events y = ap_events a1"
  proof (cases b)
    case False
    with s assms(1) that [of a1] show ?thesis by (simp add: app_listen_def)
  next
    case True
    define a2 where "a2 = start_logging (env_can_open env) (a1\<lparr>signal_set := True\<rparr>)"
    have f: "ap_plugins a2 = ap_plugins a1" "ap_events a2 = ap_events a1"
      unfolding a2_def by (simp_all add: start_logging_fields)
    from assms(1) s True obtain err e where "a' = app_event Terminating (stop_plugins stop (rev started) (a2\<lparr>ap_executor := e\<rparr>))"
      by (auto simp: app_listen_def Let_def a2_def [symmetric] split: prod.splits sum.splits)
    with f that [of "a2\<lparr>ap_executor := e\<rparr>"] show ?thesis by simp
  qed
  from undo_props [OF y(2) k(3)] k(1,4,5) y(1) k(2)
  have u: "all_ok a'" "ups a' = {}" "ap_events a' = ap_events y @ map PluginStopped (rev [0..<k]) @ [Terminating]" by simp_all
  have "undone a a'" unfolding undone_def u(3) y(3) ev using k(1) by (intro exI [of _ k]) simp
  with u show ?thesis by blast
qed

text \<open>A run that returns.\<close>

lemma listen_returned:
  assumes "app_listen start stop env a = (ListenReturned, a')" "all_ok a" "ups a = {}"
  shows "all_ok a' \<and> ups a' = {} \<and> global_log_slot a' = None \<and> \<not> signal_set a'
    \<and> ap_events a' = ap_events a @ map PluginStarted [0..<length (ap_plugins a)] @ [Listening]
        @ concat (replicate (env_stops env) (map PluginStopped [0..<length (ap_plugins a)]))
        @ [RunEnded, LogFlushed] @ map PluginStopped (rev [0..<length (ap_plugins a)])"
proof -
  obtain b started a1 where s: "start_plugins start env [] [0..<length (ap_plugins a)] a = (b, started, a1)"
    using prod_cases3 by blast
  then have b by (cases b) (use assms(1) in \<open>simp_all add: app_listen_def\<close>)
  with start_all_props [OF s assms(2,3)]
  have a1: "all_ok a1" "length (ap_plugins a1) = length (ap_plugins a)"
    "ap_events a1 = ap_events a @ map PluginStarted [0..<length (ap_plugins a)]" by auto
  define a2 where "a2 = start_logging (env_can_open env) (a1\<lparr>signal_set := True\<rparr>)"
  have a2: "ap_plugins a2 = ap_plugins a1" "ap_events a2 = ap_events a1"
    unfolding a2_def by (simp_all add: start_logging_fields)
  obtain u e where l: "exec_listen (env_bind env) (ap_executor a2) = (Inr u, e)"
    using assms(1) s \<open>b\<close>
    by (cases "exec_listen (env_bind env) (ap_executor a2)")
       (auto simp: app_listen_def Let_def a2_def [symmetric] split: sum.splits)
  define a3 where a3: "a3 = app_event Listening (a2\<lparr>ap_executor := e\<rparr>)"
  define a5 where a5: "a5 = app_event LogFlushed (app_event RunEnded (((app_stop stop ^^ env_stops env) a3)
        \<lparr>ap_executor := env_run env (ap_executor ((app_stop stop ^^ env_stops env) a3))\<rparr>))"
  define a6 where a6: "a6 = a5\<lparr>global_log_slot := None, ap_log_writer := None\<rparr>"
  have a': "a' = (stop_plugins stop (rev [0..<length (ap_plugins a6)]) a6)\<lparr>signal_set := False\<rparr>"
    using assms(1) s \<open>b\<close> l by (simp add: app_listen_def Let_def a2_def [symmetric] a3 [symmetric] a5 [symmetric])
       (simp add: a6)
  have p3: "all_ok a3" "length (ap_plugins a3) = length (ap_plugins a)" "ap_events a3 = ap_events a1 @ [Listening]"
    using a1 a2 by (simp_all add: a3 app_event_def all_ok_def)
  from app_stops_props [OF p3(1), of "env_stops env"] p3
  have p6: "all_ok a6" "length (ap_plugins a6) = length (ap_plugins a)" "global_log_slot a6 = None"
    "ap_events a6 = ap_events a3 @ concat (replicate (env_stops env) (map PluginStopped [0..<length (ap_plugins a)])) @ [RunEnded, LogFlushed]"
    by (simp_all add: a6 a5 app_event_def all_ok_def)
  have "\<forall>i \<in> set (rev [0..<length (ap_plugins a6)]). i < length (ap_plugins a6)" by simp
  note z = stop_plugins_props [OF p6(1) this]
  have "ups a6 - set (rev [0..<length (ap_plugins a6)]) = {}" by (auto simp: ups_def)
  moreover have "all_ok (x\<lparr>signal_set := v\<rparr>) = all_ok x" "ups (x\<lparr>signal_set := v\<rparr>) = ups x" for x v
    by (simp_all add: all_ok_def ups_def)
  ultimately have fin: "all_ok a'" "ups a' = {}" "ap_events a' = ap_events a6 @ map PluginStopped (rev [0..<length (ap_plugins a)])"
    using z by (simp_all add: a' p6(2))
  have "global_log_slot (stop_plugins stop is x) = global_log_slot x" for "is" x
    by (induction "is" arbitrary: x) (simp_all add: stop_plugins_def stop_one_def app_event_def)
  then have "global_log_slot a' = None" "\<not> signal_set a'" using p6(3) by (simp_all add: a')
  with fin show ?thesis using p6(4) p3(3) a1(3) by simp
qed

end

interpretation grpc_host: plugin_lifecycle plugin_start plugin_stop plugin_wf plugin_up
proof
  show "plugin_wf p \<Longrightarrow> plugin_start env p = (Inr u, p') \<Longrightarrow> plugin_wf p' \<and> plugin_up p'" for p env u p'
    using plugin_start_wf by blast
  show "plugin_wf p \<Longrightarrow> plugin_start env p = (Inl e, p') \<Longrightarrow> plugin_wf p' \<and> plugin_up p' = plugin_up p" for p env e p'
    using plugin_start_wf by blast
  show "plugin_wf p \<Longrightarrow> plugin_wf (plugin_stop p) \<and> \<not> plugin_up (plugin_stop p)" for p
    by (simp add: plugin_stop_wf)
qed

text \<open>
  Claim C31. However \<^verbatim>\<open>listen\<close> ends, no gRPC plugin outlives it: whichever starts fail, whether the port can be
  bound, and however often \<^verbatim>\<open>App::stop\<close> is called while it runs, every plugin is down afterwards with its
  runner joined; on a failed start the plugins started before are stopped in reverse order, after a normal
  run all of them are, and the global log slot and the signal hook are cleared.
\<close>

theorem app_plugin_lifecycle:
  assumes "app_listen plugin_start plugin_stop env a = (r, a')"
    and "list_all plugin_wf (ap_plugins a)" "list_all (\<lambda>p. \<not> plugin_up p) (ap_plugins a)"
  shows "list_all (\<lambda>p. plugin_wf p \<and> \<not> plugin_up p) (ap_plugins a')
    \<and> (case r of
        ListenReturned \<Rightarrow> global_log_slot a' = None \<and> \<not> signal_set a'
          \<and> ap_events a' = ap_events a @ map PluginStarted [0..<length (ap_plugins a)] @ [Listening]
              @ concat (replicate (env_stops env) (map PluginStopped [0..<length (ap_plugins a)]))
              @ [RunEnded, LogFlushed] @ map PluginStopped (rev [0..<length (ap_plugins a)])
      | ProcessTerminated \<Rightarrow> undone a a')"
proof -
  have "grpc_host.all_ok a" "grpc_host.ups a = {}"
    using assms(2,3) by (auto simp: grpc_host.all_ok_def grpc_host.ups_def list_all_iff)
  then have l: "grpc_host.all_ok a' \<and> grpc_host.ups a' = {} \<and> (case r of
        ListenReturned \<Rightarrow> global_log_slot a' = None \<and> \<not> signal_set a'
          \<and> ap_events a' = ap_events a @ map PluginStarted [0..<length (ap_plugins a)] @ [Listening]
              @ concat (replicate (env_stops env) (map PluginStopped [0..<length (ap_plugins a)]))
              @ [RunEnded, LogFlushed] @ map PluginStopped (rev [0..<length (ap_plugins a)])
      | ProcessTerminated \<Rightarrow> undone a a')"
    using grpc_host.listen_returned grpc_host.listen_undone assms(1) by (cases r) auto
  then have "list_all (\<lambda>p. plugin_wf p \<and> \<not> plugin_up p) (ap_plugins a')"
    by (auto simp: grpc_host.all_ok_def grpc_host.ups_def list_all_iff in_set_conv_nth)
  with l show ?thesis by blast
qed

definition sample_env :: "(nat \<times> bind_outcome) app_env" where
  "sample_env = \<lparr>env_start = (\<lambda>i. (1, if i = 1 then AddressInUse else Bound)), env_bind = Bound,
     env_can_open = (\<lambda>_. True), env_run = id, env_stops = 0\<rparr>"

definition sample_app :: "grpc_plugin app" where
  "sample_app = (new_app 1 default_app_config)\<lparr>ap_plugins := [make_plugin default_plugin_config, make_plugin default_plugin_config]\<rparr>"

theorem app_plugin_lifecycle_witness:
  "list_all (\<lambda>p. plugin_wf p \<and> \<not> plugin_up p)
     (ap_plugins (snd (app_listen plugin_start plugin_stop sample_env sample_app)))"
proof -
  have w: "list_all plugin_wf (ap_plugins sample_app)" "list_all (\<lambda>p. \<not> plugin_up p) (ap_plugins sample_app)"
    by (simp_all add: sample_app_def plugin_other_wf(3)) (simp add: make_plugin_def plugin_up_def)
  show ?thesis using app_plugin_lifecycle [OF prod.collapse [symmetric] w] by blast
qed

subsection \<open>WebSocket routes\<close>

text \<open>
  A signal ends a running server through the same exchange as \<^verbatim>\<open>stop\<close>, but leaves the plugins to the end of
  \<^verbatim>\<open>listen\<close>; after \<^verbatim>\<open>listen\<close> returned it does nothing.
\<close>

lemma signal_effect:
  "ap_plugins (handle_signal a) = ap_plugins a"
  "signal_set a \<Longrightarrow> ex_state (ap_executor a) = Running \<Longrightarrow> ex_state (ap_executor (handle_signal a)) = Draining"
  by (simp_all add: handle_signal_def stop_exchange_def)

lemma signal_after_listen: "app_listen start stop env a = (ListenReturned, a') \<Longrightarrow> handle_signal a' = a'"
  unfolding app_listen_def handle_signal_def Let_def by (clarsimp split: prod.splits bool.splits sum.splits)

text \<open>
  The handler \<^verbatim>\<open>App::ws\<close> registers for a pattern: it answers 400 unless the request asks for an upgrade, a
  handler is known and the handshake succeeds; then it calls \<^verbatim>\<open>on_open\<close>, starts the read loop and waits for
  the session to close. The result is the response, what was written to the stream, the session, and
  the steps taken on it.
\<close>

datatype ws_step = CallOnOpen | StartReadLoop | WaitForClose

definition app_ws :: "string \<Rightarrow> 'h \<Rightarrow> (string \<rightharpoonup> 'h) \<Rightarrow> (string \<rightharpoonup> 'h)" where
  "app_ws pattern handler ws_handlers = ws_handlers(pattern \<mapsto> handler)"

definition ws_route :: "((string \<rightharpoonup> string) \<Rightarrow> (string \<times> string) list) \<Rightarrow> (string \<rightharpoonup> 'h) \<Rightarrow> string \<Rightarrow> nat
    \<Rightarrow> bool \<Rightarrow> ('ty, 'v) request_impl \<Rightarrow> response \<times> string option \<times> session_args option \<times> ws_step list" where
  "ws_route iter ws_handlers pattern max_body_size write_ok req =
     (if \<not> is_websocket_upgrade (Some req) then (bad_request ''WebSocket upgrade required'', None, None, [])
      else if ws_handlers pattern = None then (bad_request ''No WebSocket handler found'', None, None, [])
      else (case upgrade_websocket iter (Some (set_max_payload max_body_size req)) write_ok of
        (Inl _, out) \<Rightarrow> (bad_request ''WebSocket upgrade failed'', out, None, [])
      | (Inr args, out) \<Rightarrow> (switching_protocols, out, Some args, [CallOnOpen, StartReadLoop, WaitForClose])))"

text \<open>
  A route switches protocols exactly for a valid handshake on a working stream, with the payload limit
  of the application, and touches neither the stream nor the handler otherwise, except that a 101
  response that cannot be written is followed by a 400.
\<close>

lemma ws_route_switches:
  assumes "ws_handlers pattern \<noteq> None" "req_stream req" "ws_route iter ws_handlers pattern limit write_ok req = (resp, out, args, steps)"
  shows "if is_websocket_upgrade (Some req) \<and> write_ok
    then resp = switching_protocols \<and> steps = [CallOnOpen, StartReadLoop, WaitForClose]
      \<and> (\<exists>a. args = Some a \<and> sa_max_payload a = limit)
      \<and> out = Some (upgrade_response (compute_accept_key (ws_find_header (pr_headers (req_parsed req)) ''Sec-WebSocket-Key'')))
    else response_status resp = 400 \<and> args = None \<and> steps = []
      \<and> (\<not> is_websocket_upgrade (Some req) \<longrightarrow> out = None)"
  using assms
  by (auto simp: ws_route_def is_websocket_upgrade_def handshake_headers_def validate_def handshake_error_def
      upgrade_websocket_def Let_def ws_iequal_eq ws_icontains_eq bad_request_def make_response_def
      response_status_def kStatusBadRequest_def split: if_splits)

text \<open>Registering a pattern twice replaces its callbacks for the requests to come.\<close>

lemma app_ws_last: "app_ws p h (app_ws p h' m) = app_ws p h m"
  by (simp add: app_ws_def)
end
