(* ===== verification/Http_App.thy ===== *)
theory Http_App
  imports Router_Api Connection_Task App
begin

text \<open>
  The HTTP side of \<^verbatim>\<open>App\<close> (\<^verbatim>\<open>include/aevox/app.hpp\<close>, \<^verbatim>\<open>src/router/app_impl.cpp\<close>): the registration calls a
  program makes before \<^verbatim>\<open>listen\<close>, and what a connection of the finished application answers. The plugin
  and executor side is theory App.
\<close>

record 's http_app =
  ha_config :: app_config
  ha_router :: "'s route_trie"
  ha_global :: "((nat, nat) request_impl, 's) middleware list"
  ha_scoped :: "(string \<times> ((nat, nat) request_impl, 's) middleware) list"

definition http_app_new :: "app_config \<Rightarrow> 's http_app" where
  "http_app_new cfg = \<lparr>ha_config = cfg, ha_router = empty_root, ha_global = [], ha_scoped = []\<rparr>"

definition app_config_of :: "'s http_app \<Rightarrow> app_config" where
  "app_config_of a = ha_config a"

definition app_router :: "'s http_app \<Rightarrow> 's route_trie" where
  "app_router a = ha_router a"

definition with_router :: "('s route_trie \<Rightarrow> 's route_trie option) \<Rightarrow> 's http_app \<Rightarrow> 's http_app option" where
  "with_router f a = map_option (\<lambda>t. a\<lparr>ha_router := t\<rparr>) (f (app_router a))"

definition app_get :: "(string \<Rightarrow> bool) \<Rightarrow> string \<Rightarrow> arg_type list \<Rightarrow> 's typed_body \<Rightarrow> 's http_app \<Rightarrow> 's http_app option" where
  "app_get is_float p sig f = with_router (router_get is_float p sig f main_router)"

definition app_post :: "(string \<Rightarrow> bool) \<Rightarrow> string \<Rightarrow> arg_type list \<Rightarrow> 's typed_body \<Rightarrow> 's http_app \<Rightarrow> 's http_app option" where
  "app_post is_float p sig f = with_router (router_post is_float p sig f main_router)"

definition app_put :: "(string \<Rightarrow> bool) \<Rightarrow> string \<Rightarrow> arg_type list \<Rightarrow> 's typed_body \<Rightarrow> 's http_app \<Rightarrow> 's http_app option" where
  "app_put is_float p sig f = with_router (router_put is_float p sig f main_router)"

definition app_patch :: "(string \<Rightarrow> bool) \<Rightarrow> string \<Rightarrow> arg_type list \<Rightarrow> 's typed_body \<Rightarrow> 's http_app \<Rightarrow> 's http_app option" where
  "app_patch is_float p sig f = with_router (router_patch is_float p sig f main_router)"

definition app_del :: "(string \<Rightarrow> bool) \<Rightarrow> string \<Rightarrow> arg_type list \<Rightarrow> 's typed_body \<Rightarrow> 's http_app \<Rightarrow> 's http_app option" where
  "app_del is_float p sig f = with_router (router_del is_float p sig f main_router)"

definition app_options :: "(string \<Rightarrow> bool) \<Rightarrow> string \<Rightarrow> arg_type list \<Rightarrow> 's typed_body \<Rightarrow> 's http_app \<Rightarrow> 's http_app option" where
  "app_options is_float p sig f = with_router (router_options is_float p sig f main_router)"

text \<open>A group shares the trie: it comes back with the application, whose trie has the nodes of the prefix.\<close>

definition app_group :: "string \<Rightarrow> 's http_app \<Rightarrow> ('s http_app \<times> router) option" where
  "app_group pre a = map_option (\<lambda>(t, r). (a\<lparr>ha_router := t\<rparr>, r)) (group (app_router a) main_router pre)"

definition use_global :: "((nat, nat) request_impl, 's) middleware \<Rightarrow> 's http_app \<Rightarrow> 's http_app" where
  "use_global mw a = a\<lparr>ha_global := ha_global a @ [mw]\<rparr>"

definition use_scoped :: "string \<Rightarrow> ((nat, nat) request_impl, 's) middleware \<Rightarrow> 's http_app \<Rightarrow> 's http_app" where
  "use_scoped pre mw a = a\<lparr>ha_scoped := ha_scoped a @ [(pre, mw)]\<rparr>"

text \<open>
  What the connection handler captures of the application, and how it dispatches a request. \<open>st n\<close> is what the
  handlers' captured state is when the \<open>n\<close>-th request of the connection is dispatched: it is shared with
  all other connections, so nothing is assumed about its course.
\<close>

definition conn_config_of :: "'s http_app \<Rightarrow> conn_config" where
  "conn_config_of a = \<lparr>cc_max_body = unat (cfg_max_body_size (ha_config a)), cc_max_headers = unat (cfg_max_header_count (ha_config a))\<rparr>"

definition app_dispatch :: "'s http_app \<Rightarrow> ((nat, nat) request_impl, 's) handler" where
  "app_dispatch a = dispatch_with_pipeline path_view (serve (ha_router a)) (ha_global a) (ha_scoped a)"

definition app_connection :: "'p llhttp \<Rightarrow> ((string \<times> string) list \<Rightarrow> (string \<times> string) list) \<Rightarrow> 's http_app \<Rightarrow> (nat \<Rightarrow> 's)
    \<Rightarrow> (nat \<Rightarrow> 64 word) \<Rightarrow> round_env list \<Rightarrow> conn_event list" where
  "app_connection L iter a st ids envs =
     run_connection (conn_config_of a) L iter (\<lambda>n req. fst (app_dispatch a req (st n))) ids envs"

text \<open>The registration calls of the application build what those of the router build.\<close>

lemma app_routes:
  "app_get is_float p sig f a = map_option (\<lambda>t. a\<lparr>ha_router := t\<rparr>) (router_route is_float GET p sig f main_router (ha_router a))"
  "app_post is_float p sig f a = map_option (\<lambda>t. a\<lparr>ha_router := t\<rparr>) (router_route is_float POST p sig f main_router (ha_router a))"
  "app_put is_float p sig f a = map_option (\<lambda>t. a\<lparr>ha_router := t\<rparr>) (router_route is_float PUT p sig f main_router (ha_router a))"
  "app_patch is_float p sig f a = map_option (\<lambda>t. a\<lparr>ha_router := t\<rparr>) (router_route is_float PATCH p sig f main_router (ha_router a))"
  "app_del is_float p sig f a = map_option (\<lambda>t. a\<lparr>ha_router := t\<rparr>) (router_route is_float DELETE p sig f main_router (ha_router a))"
  "app_options is_float p sig f a = map_option (\<lambda>t. a\<lparr>ha_router := t\<rparr>) (router_route is_float OPTIONS p sig f main_router (ha_router a))"
  by (simp_all add: app_get_def app_post_def app_put_def app_patch_def app_del_def app_options_def with_router_def app_router_def
      router_get_def router_post_def router_put_def router_patch_def router_del_def router_options_def)

text \<open>Middleware does not change which routes there are, and global middleware sees every request first.\<close>

lemma use_global_dispatch:
  "app_dispatch (use_global mw (http_app_new cfg)) req = mw req (serve empty_root)"
  by (simp add: app_dispatch_def use_global_def http_app_new_def pipeline_foldr matching_scoped_def)

lemma app_dispatch_foldr:
  "app_dispatch a req = foldr (\<lambda>mw nxt r. mw r nxt) (ha_global a @ matching_scoped (path_view req) (ha_scoped a)) (serve (ha_router a)) req"
  by (simp add: app_dispatch_def pipeline_foldr)

subsection \<open>A program and its clients\<close>

text \<open>A program: the routes it registers on a new application, each with the call for its method.\<close>

definition app_route :: "(string \<Rightarrow> bool) \<Rightarrow> 's typed_route \<Rightarrow> 's http_app \<Rightarrow> 's http_app option" where
  "app_route is_float tr = (case tr of (m, p, sig, f) \<Rightarrow> (case m of
       GET \<Rightarrow> app_get is_float p sig f
     | POST \<Rightarrow> app_post is_float p sig f
     | PUT \<Rightarrow> app_put is_float p sig f
     | PATCH \<Rightarrow> app_patch is_float p sig f
     | DELETE \<Rightarrow> app_del is_float p sig f
     | OPTIONS \<Rightarrow> app_options is_float p sig f
     | _ \<Rightarrow> (\<lambda>_. None)))"

definition program :: "(string \<Rightarrow> bool) \<Rightarrow> app_config \<Rightarrow> 's typed_route list \<Rightarrow> 's http_app option" where
  "program is_float cfg rs = foldl (\<lambda>a tr. Option.bind a (app_route is_float tr)) (Some (http_app_new cfg)) rs"

lemma app_route_Some:
  "app_route is_float (m, p, sig, f) a = Some b \<Longrightarrow>
     \<exists>t. router_route is_float m p sig f main_router (ha_router a) = Some t \<and> b = a\<lparr>ha_router := t\<rparr>"
  by (cases m) (auto simp: app_route_def app_routes)

lemma program_Some:
  assumes "program is_float cfg rs = Some a"
  shows "\<exists>t. register_all is_float rs = Some t \<and> a = (http_app_new cfg)\<lparr>ha_router := t\<rparr>"
  using assms
proof (induction rs arbitrary: a rule: rev_induct)
  case Nil
  then have "a = http_app_new cfg" by (simp add: program_def)
  then show ?case by (simp add: register_all_def http_app_new_def)
next
  case (snoc tr rs)
  obtain m p sig f where tr: "tr = (m, p, sig, f)" by (cases tr)
  from snoc.prems obtain b where b: "program is_float cfg rs = Some b" "app_route is_float tr b = Some a"
    by (auto simp: program_def bind_eq_Some_conv)
  with snoc.IH obtain t where t: "register_all is_float rs = Some t" "b = (http_app_new cfg)\<lparr>ha_router := t\<rparr>" by blast
  from app_route_Some [OF b(2) [unfolded tr]] obtain t' where
    "router_route is_float m p sig f main_router t = Some t'" "a = b\<lparr>ha_router := t'\<rparr>" by (auto simp: t(2))
  then show ?case by (simp add: register_all_def t(1) [unfolded register_all_def] tr t(2))
qed

lemma answers_nth:
  "i < length reqs \<Longrightarrow> answers cfg iter handle ids n reqs ! i
     = Wrote (serialize_response iter (handle (n + i) (build_request cfg (ids (n + i) + 1) (reqs ! i))))"
  by (induction reqs arbitrary: n i) (auto simp: nth_Cons' gr0_conv_Suc)

lemma length_answers [simp]: "length (answers cfg iter handle ids n reqs) = length reqs"
  by (induction reqs arbitrary: n) simp_all

lemma runs_route_status:
  assumes "runs_route rs req s out" "list_all (\<lambda>(m, p, sig, f). \<forall>args req. response_status (fst (f args req s)) \<noteq> k) rs"
  shows "response_status (fst out) \<noteq> k"
proof -
  obtain p sig f args q where "(req_method req, p, sig, f) \<in> set rs" "out = f args q s"
    using assms(1) unfolding runs_route_def Let_def by blast
  with assms(2) show ?thesis unfolding list_all_iff by fastforce
qed

text \<open>
  Claim C13. A program serves its clients: it has registered typed routes and answers over its connections. A
  client that sends requests one after another over a connection is sent one response for each, in
  their order, and nothing else; each is what the typed body of a registered route that matches the
  request returned for the parameters read from the path, or an answer 400, 404 or 405. The bodies may
  read and change state that all connections share.
\<close>

theorem program_serves_clients:
  assumes "program is_float cfg rs = Some a"
    and "map (route_of is_float) rs = map Some routes" "consistent_names routes"
    and "list_all (\<lambda>(m, p, sig, f). length sig \<le> 2 \<and> (\<forall>args req s. response_status (fst (f args req s)) \<noteq> 101)) rs"
    and "\<forall>p. ll_reset L p = ll_init L" "list_all (sent_ok L (conn_config_of a)) srs"
  shows "\<exists>resps. app_connection L iter a st ids (delivered_ok (concat (map sr_buffers srs)))
        = map (\<lambda>r. Wrote (serialize_response iter r)) resps \<and> length resps = length srs
    \<and> (\<forall>i < length srs. let req = build_request (conn_config_of a) (ids i + 1) (sr_request (srs ! i)) in
        (\<exists>s'. runs_route rs req (st i) (resps ! i, s')) \<or> response_status (resps ! i) \<in> {400, 404, 405})"
proof -
  obtain t where t: "register_all is_float rs = Some t" "a = (http_app_new cfg)\<lparr>ha_router := t\<rparr>"
    using program_Some [OF assms(1)] by blast
  have l: "list_all (\<lambda>(m, p, sig, f). length sig \<le> 2) rs" using assms(4) by (auto simp: list_all_iff)
  have b: "list_all (\<lambda>(m, p, sig, f). \<forall>args req. response_status (fst (f args req s)) \<noteq> 101) rs" for s
    using assms(4) unfolding list_all_iff by fastforce
  have d: "app_dispatch a req = serve t req" for req by (simp add: app_dispatch_foldr t(2) http_app_new_def matching_scoped_def)
  have an: "(\<exists>s'. runs_route rs req s (fst (serve t req s), s')) \<or> response_status (fst (serve t req s)) \<in> {400, 404, 405}"
    for req s
    using serve_answer [OF t(1) assms(2,3) l, of req s] by (cases "serve t req s") auto
  have up: "response_status (fst (serve t req s)) \<noteq> kStatusSwitchingProtocols" for req s
    using an [of req s] runs_route_status [OF _ b, of req s] by (auto simp: status_consts)
  let ?resp = "\<lambda>i. fst (serve t (build_request (conn_config_of a) (ids i + 1) (sr_request (srs ! i))) (st i))"
  have "app_connection L iter a st ids (delivered_ok (concat (map sr_buffers srs)))
      = answers (conn_config_of a) iter (\<lambda>n req. fst (serve t req (st n))) ids 0 (map sr_request srs)"
    unfolding app_connection_def d using assms(5,6) up by (intro run_connection_answers) simp_all
  also have "\<dots> = map (\<lambda>r. Wrote (serialize_response iter r)) (map ?resp [0..<length srs])"
    by (rule nth_equalityI) (simp_all add: answers_nth)
  finally show ?thesis using an by (intro exI [of _ "map ?resp [0..<length srs]"]) (simp add: Let_def)
qed

text \<open>A program whose only route counts its calls.\<close>

definition sample_program :: "nat typed_route list" where
  "sample_program = [(GET, ''/'', [], \<lambda>_ req n. (ok (path_view req), Suc n))]"

theorem program_serves_clients_witness:
  "\<exists>a resps. program (\<lambda>_. True) default_app_config sample_program = Some a
     \<and> app_connection (fixed_llhttp sample_events) id a id of_nat
         [\<lparr>re_read = Some [0x47], re_write_ok = True\<rparr>, \<lparr>re_read = Some [0x47], re_write_ok = True\<rparr>]
       = map (\<lambda>r. Wrote (serialize_response id r)) resps \<and> length resps = 2"
proof -
  let ?sr = "\<lparr>sr_buffers = [[0x47]], sr_events = [sample_events], sr_request = sample_request\<rparr>"
  have p: "parse_pattern ''/'' = Some []" "selected_branch [] = Some []" by code_simp+
  obtain h :: "((nat, nat) request_impl, nat) handler" where h: "typed_handler (\<lambda>_. True) [] (\<lambda>_ req n. (ok (path_view req), Suc n)) (extract_param_names []) = Some h"
    by (simp add: typed_handler_def p)
  obtain a where a: "program (\<lambda>_. True) default_app_config sample_program = Some a"
    by (simp add: program_def sample_program_def app_route_def app_routes router_route_def p h register_route_def main_router_def kMethodCount_def)
  have r: "map (route_of (\<lambda>_. True)) sample_program = map Some [([], GET, h)]" by (simp add: sample_program_def route_of_def p h)
  have c: "consistent_names [([], GET, h)]" by (simp add: consistent_names_def)
  have l: "list_all (\<lambda>(m, p, sig, f). length sig \<le> 2 \<and> (\<forall>args req s. response_status (fst (f args req s)) \<noteq> 101)) sample_program"
    by (simp add: sample_program_def ok_def make_response_def response_status_def status_consts)
  have reset: "\<forall>p. ll_reset (fixed_llhttp sample_events) p = ll_init (fixed_llhttp sample_events)" by (simp add: fixed_llhttp_def)
  obtain t where "a = (http_app_new default_app_config)\<lparr>ha_router := t\<rparr>" using program_Some [OF a] by blast
  then have cfg: "ha_config a = default_app_config" by (simp add: http_app_new_def)
  have s: "list_all (sent_ok (fixed_llhttp sample_events) (conn_config_of a)) [?sr, ?sr]"
    using sample_sent by (simp add: sent_ok_def conn_config_of_def cfg default_app_config_def sample_request_def default_request_def)
  from program_serves_clients [OF a r c l reset s, of id id of_nat] a show ?thesis
    by (auto simp: delivered_ok_def)
qed

end
