(* ===== verification/Grpc_Task.thy ===== *)
theory Grpc_Task
  imports Grpc_Plugin Async_Ops
begin

text \<open>
  The coroutines of a gRPC connection, \<^verbatim>\<open>src/plugins/grpc/grpc_http2_session.cpp\<close>: \<^verbatim>\<open>run\<close>,
  \<^verbatim>\<open>process_ready_streams\<close> and \<^verbatim>\<open>flush\<close>, with the registered handlers as tasks they await. The members
  such a coroutine changes are threaded through as its result. nghttp2 is a parameter: what
  \<^verbatim>\<open>mem_recv\<close> calls back for the octets of a read, and \<^verbatim>\<open>mem_send\<close> as a tree of its calls of the data
  source. The loops of \<^verbatim>\<open>run\<close> and \<^verbatim>\<open>flush\<close> have fuel; the properties ask for enough of it.
\<close>

datatype 'n send_trace = Sent octets 'n | ReadData int nat "data_chunk \<Rightarrow> 'n send_trace"

record 'n nghttp2 =
  h2_new :: 'n
  h2_settings :: "nat \<Rightarrow> 'n \<Rightarrow> 'n"
  h2_recv :: "octets \<Rightarrow> 'n \<Rightarrow> h2_event list option \<times> 'n"
  h2_submit :: "submission \<Rightarrow> 'n \<Rightarrow> 'n"
  h2_send :: "'n \<Rightarrow> 'n send_trace"

text \<open>Without a state behind the source, as for a stream that was not answered, the end is reported.\<close>

definition data_source :: "int \<Rightarrow> nat \<Rightarrow> grpc_session \<Rightarrow> data_chunk \<times> grpc_session" where
  "data_source i len s = (case streams s i of
      Some st \<Rightarrow>
        if submitted st then (case on_data_read len st of (c, st') \<Rightarrow> (c, s\<lparr>streams := (streams s)(i \<mapsto> st')\<rparr>))
        else (\<lparr>dc_bytes = [], dc_eof = True, dc_no_end_stream = False, dc_trailer = None\<rparr>, s)
    | None \<Rightarrow> (\<lparr>dc_bytes = [], dc_eof = True, dc_no_end_stream = False, dc_trailer = None\<rparr>, s))"

primrec run_send :: "'n send_trace \<Rightarrow> grpc_session \<Rightarrow> octets \<times> grpc_session \<times> 'n" where
  "run_send (Sent d n) s = (d, s, n)"
| "run_send (ReadData i len k) s = run_send (k (fst (data_source i len s))) (snd (data_source i len s))"

datatype 'n grpc_value = HandlerResult "grpc_status + unary_response" | Members grpc_session 'n

type_synonym ('x, 'n, 'e, 'i) grpc_body = "('x, 'n grpc_value, 'e, 'i) io_body"
type_synonym ('x, 'n, 'e, 'i) method_tasks = "string \<Rightarrow> (unary_request \<Rightarrow> ('x, 'n, 'e, 'i) grpc_body) option"

text \<open>The \<^verbatim>\<open>try\<close> block around the handler, and its \<^verbatim>\<open>catch (...)\<close>.\<close>

definition caught :: "'x + 'n grpc_value task_value option \<Rightarrow> handler_outcome" where
  "caught r = (case r of
      Inr (Some (TaskResult (HandlerResult (Inr response)))) \<Rightarrow> Responded response
    | Inr (Some (TaskResult (HandlerResult (Inl status)))) \<Rightarrow> Failed status
    | _ \<Rightarrow> Threw)"

definition answer_task :: "nat \<Rightarrow> ('x, 'n, 'e, 'i) method_tasks \<Rightarrow> stream_state \<Rightarrow> grpc_session
    \<Rightarrow> (grpc_session \<Rightarrow> ('x, 'n, 'e, 'i) grpc_body) \<Rightarrow> ('x, 'n, 'e, 'i) grpc_body" where
  "answer_task max_message_size methods st s k =
     (case early_status st of
        Some status \<Rightarrow> k (submit_status st status s)
      | None \<Rightarrow>
        if http_method st \<noteq> ''POST'' then k (submit_status st (grpc_status_error SInternal ''invalid method'') s)
        else if \<not> starts_with_grpc_content_type (content_type st)
          then k (submit_status st (grpc_status_error SInternal ''invalid content-type'') s)
        else case methods (ss_method st) of
          None \<Rightarrow> k (submit_status st (grpc_status_error SUnimplemented ''method not found'') s)
        | Some handler \<Rightarrow>
            (case decode_unary_message (ss_payload st) max_message_size of
               Inl e \<Rightarrow> k (submit_status st (status_for_decode_error e) s)
             | Inr decoded \<Rightarrow>
                 Co_await ValueTask (handler \<lparr>ur_method = ss_method st, ur_payload = decoded, ur_metadata = ss_metadata st\<rparr>)
                   (\<lambda>r. k (submit_outcome max_message_size st (caught r) s))))"

fun process_task :: "nat \<Rightarrow> ('x, 'n, 'e, 'i) method_tasks \<Rightarrow> int list \<Rightarrow> grpc_session
    \<Rightarrow> (grpc_session \<Rightarrow> ('x, 'n, 'e, 'i) grpc_body) \<Rightarrow> ('x, 'n, 'e, 'i) grpc_body" where
  "process_task m methods [] s k = k s"
| "process_task m methods (i # rest) s k =
     (let s = s\<lparr>ready_streams := rest\<rparr> in
      case streams s i of
        None \<Rightarrow> process_task m methods rest s k
      | Some st \<Rightarrow>
          if submitted st then process_task m methods rest s k
          else if \<not> end_stream st then process_task m methods rest s k
          else answer_task m methods (st\<lparr>submitted := True\<rparr>) s (\<lambda>s. process_task m methods rest s k))"

text \<open>The library is told of the answers in the order they were submitted.\<close>

definition submit_new :: "'n nghttp2 \<Rightarrow> grpc_session \<Rightarrow> grpc_session \<Rightarrow> 'n \<Rightarrow> 'n" where
  "submit_new L s s' n = fold (h2_submit L) (drop (length (submissions s)) (submissions s')) n"

definition process_ready_task :: "nat \<Rightarrow> 'n nghttp2 \<Rightarrow> ('x, 'n, 'e, 'i) method_tasks \<Rightarrow> grpc_session \<Rightarrow> 'n
    \<Rightarrow> ('x, 'n, 'e, 'i) grpc_body" where
  "process_ready_task m L methods s n = process_task m methods (ready_streams s) s
     (\<lambda>s'. Co_return (Some (TaskResult (Members s' (submit_new L s s' n)))))"

fun flush_task :: "nat \<Rightarrow> 'n nghttp2 \<Rightarrow> grpc_session \<Rightarrow> 'n \<Rightarrow> ('x, 'n, 'e, 'i) grpc_body" where
  "flush_task 0 L s n = Co_return (Some (TaskResult (Members s n)))"
| "flush_task (Suc k) L s n = (case run_send (h2_send L n) s of (data, s, n) \<Rightarrow>
      if data = [] then Co_return (Some (TaskResult (Members s n)))
      else Co_await ValueTask (tcp_write data) (\<lambda>r. case r of
          Inl x \<Rightarrow> Co_throw x
        | Inr (Some (WriteResult (Inr _))) \<Rightarrow> flush_task k L s n
        | _ \<Rightarrow> Co_return (Some (TaskResult (Members s n)))))"

text \<open>Go on with the members after an awaited member coroutine.\<close>

definition await_members :: "('x, 'n, 'e, 'i) grpc_body \<Rightarrow> (grpc_session \<Rightarrow> 'n \<Rightarrow> ('x, 'n, 'e, 'i) grpc_body)
    \<Rightarrow> ('x, 'n, 'e, 'i) grpc_body" where
  "await_members b k = await_value b (\<lambda>v. case v of TaskResult (Members s n) \<Rightarrow> k s n | _ \<Rightarrow> Co_return None)"

definition kReadSize :: nat where "kReadSize = 16384"

fun read_rounds :: "nat \<Rightarrow> nat \<Rightarrow> nat \<Rightarrow> 'n nghttp2 \<Rightarrow> ('x, 'n, 'e, 'i) method_tasks \<Rightarrow> grpc_session \<Rightarrow> 'n
    \<Rightarrow> ('x, 'n, 'e, 'i) grpc_body" where
  "read_rounds 0 fl m L methods s n = Co_return None"
| "read_rounds (Suc k) fl m L methods s n =
     await_value (tcp_read kReadSize) (\<lambda>v. case v of
         ReadResult (Inr bytes) \<Rightarrow>
           if bytes = [] then Co_return None
           else (case h2_recv L bytes n of
               (None, n) \<Rightarrow> Co_return None
             | (Some evs, n) \<Rightarrow>
                 await_members (process_ready_task m L methods (fold (on_event m) evs s) n) (\<lambda>s n.
                   await_members (flush_task fl L s n) (\<lambda>s n. read_rounds k fl m L methods s n)))
       | _ \<Rightarrow> Co_return None)"

definition session_run :: "nat \<Rightarrow> nat \<Rightarrow> nat \<Rightarrow> nat \<Rightarrow> 'n nghttp2 \<Rightarrow> ('x, 'n, 'e, 'i) method_tasks \<Rightarrow> ('x, 'n, 'e, 'i) grpc_body" where
  "session_run rounds fl max_concurrent_streams m L methods =
     await_members (flush_task fl L new_grpc_session (h2_settings L max_concurrent_streams (h2_new L)))
       (\<lambda>s n. read_rounds rounds fl m L methods s n)"

text \<open>\<^verbatim>\<open>co_await\<close> of a void task; its exceptions pass on.\<close>

definition await_void :: "('x, 'v, 'e, 'i) body \<Rightarrow> ('x, 'v, 'e, 'i) body" where
  "await_void b = Co_await VoidTask b (\<lambda>r. case r of Inl x \<Rightarrow> Co_throw x | Inr _ \<Rightarrow> Co_return None)"

text \<open>\<^verbatim>\<open>GrpcHttp2Session::run\<close>, and the handler \<^verbatim>\<open>Plugin::start\<close> gives the executor for a connection.\<close>

definition grpc_connection :: "nat \<Rightarrow> nat \<Rightarrow> plugin_config \<Rightarrow> 'n nghttp2 \<Rightarrow> ('x, 'n, 'e, 'i) method_tasks \<Rightarrow> ('x, 'n, 'e, 'i) grpc_body" where
  "grpc_connection rounds fl cfg L methods =
     await_void (await_void (session_run rounds fl (unat (gp_max_concurrent_streams cfg))
       (unat (gp_max_message_size cfg)) L methods))"

subsection \<open>Handlers cannot bring the connection down\<close>

text \<open>Nothing is thrown by a body, whatever the inputs.\<close>

definition no_throw :: "('x, 'v, 'e, 'i) body \<Rightarrow> bool" where
  "no_throw b \<longleftrightarrow> (\<forall>ins. case eval_body b ins of (Some (Inl _), _, _) \<Rightarrow> False | _ \<Rightarrow> True)"

lemma no_throw_return [simp, intro]: "no_throw (Co_return r)"
  by (simp add: no_throw_def)

lemma no_throw_await:
  assumes "\<And>r. no_throw (k r)"
  shows "no_throw (Co_await kd b k)"
proof -
  have "case eval_body (Co_await kd b k) ins of (Some (Inl _), _, _) \<Rightarrow> False | _ \<Rightarrow> True" for ins
  proof (cases "eval_body b ins")
    case (fields r es ins')
    show ?thesis
    proof (cases r)
      case (Some q)
      show ?thesis using assms [of q] by (auto simp: fields Some no_throw_def split: prod.splits option.splits sum.splits dest!: spec [of _ ins'])
    qed (simp add: fields)
  qed
  then show ?thesis by (simp add: no_throw_def)
qed

text \<open>The result of an awaited body that throws nothing is a value.\<close>

lemma no_throw_await_safe:
  assumes "no_throw b" "\<And>v. no_throw (k (Inr v))"
  shows "no_throw (Co_await kd b k)"
proof -
  have "case eval_body (Co_await kd b k) ins of (Some (Inl _), _, _) \<Rightarrow> False | _ \<Rightarrow> True" for ins
  proof (cases "eval_body b ins")
    case (fields r es ins')
    show ?thesis
    proof (cases r)
      case (Some q)
      then obtain v where "q = Inr v" using assms(1) fields by (cases q) (auto simp: no_throw_def dest!: spec [of _ ins])
      with assms(2) [of v] show ?thesis
        by (auto simp: fields Some no_throw_def split: prod.splits option.splits sum.splits dest!: spec [of _ ins'])
    qed (simp add: fields)
  qed
  then show ?thesis by (simp add: no_throw_def)
qed

lemma no_throw_value: "no_throw b \<Longrightarrow> (\<And>v. no_throw (k v)) \<Longrightarrow> no_throw (await_value b k)"
  unfolding await_value_def by (rule no_throw_await_safe) (auto split: option.split)

lemma no_throw_tcp [simp]: "no_throw (tcp_read n)" "no_throw (tcp_write d)"
  by (auto simp: no_throw_def tcp_read_def tcp_write_def Let_def split: list.split prod.split option.split)

lemma no_throw_answer: "(\<And>s. no_throw (k s)) \<Longrightarrow> no_throw (answer_task m methods st s k)"
  by (auto simp: answer_task_def split: option.split sum.split intro!: no_throw_await)

lemma no_throw_process: "(\<And>s. no_throw (k s)) \<Longrightarrow> no_throw (process_task m methods ids s k)"
  by (induction ids arbitrary: s) (auto simp: Let_def split: option.split intro!: no_throw_answer)

lemma no_throw_flush: "no_throw (flush_task fl L s n)"
  by (induction fl arbitrary: s n)
     (auto split: prod.split option.split sum.split task_value.split intro!: no_throw_await_safe)

lemma no_throw_members: "no_throw b \<Longrightarrow> (\<And>s n. no_throw (k s n)) \<Longrightarrow> no_throw (await_members b k)"
  unfolding await_members_def by (rule no_throw_value) (auto split: task_value.split grpc_value.split)

lemma no_throw_rounds: "no_throw (read_rounds k fl m L methods s n)"
  by (induction k arbitrary: s n)
     (auto simp: process_ready_task_def split: prod.split option.split sum.split task_value.split
       intro!: no_throw_value no_throw_members no_throw_process no_throw_flush)

lemma no_throw_connection: "no_throw (grpc_connection rounds fl cfg L methods)"
  by (auto simp: grpc_connection_def await_void_def session_run_def
      intro!: no_throw_await_safe no_throw_members no_throw_flush no_throw_rounds)

subsection \<open>Types\<close>

definition handlers_typed :: "('x, 'n, 'e, 'i) method_tasks \<Rightarrow> bool" where
  "handlers_typed methods \<longleftrightarrow> (\<forall>p h req. methods p = Some h \<longrightarrow> has_type ValueTask (h req))"

lemma return_some_typed: "has_type ValueTask (Co_return (Some v))"
  by (simp add: type_return fits_def)

lemma answer_task_typed:
  "handlers_typed methods \<Longrightarrow> (\<And>s. has_type ValueTask (k s)) \<Longrightarrow> has_type ValueTask (answer_task m methods st s k)"
  by (auto simp: answer_task_def handlers_typed_def split: option.split sum.split intro!: type_await)

lemma process_task_typed:
  assumes "handlers_typed methods" "\<And>s. has_type ValueTask (k s)"
  shows "has_type ValueTask (process_task m methods ids s k)"
  by (induction ids arbitrary: s) (auto simp: Let_def assms split: option.split intro!: answer_task_typed)

lemma flush_task_typed: "has_type ValueTask (flush_task fl L s n)"
proof (induction fl arbitrary: s n)
  case (Suc fl)
  show ?case
    by (auto simp: Suc return_some_typed split: prod.split option.split sum.split task_value.split
        intro!: type_await tcp_write_typed type_throw)
qed (simp add: return_some_typed)

lemma await_members_typed:
  "has_type ValueTask b \<Longrightarrow> (\<And>s n. has_type VoidTask (k s n)) \<Longrightarrow> has_type VoidTask (await_members b k)"
  unfolding await_members_def
  by (rule await_value_typed) (auto intro: return_none_typed split: task_value.split grpc_value.split)

lemma read_rounds_typed:
  assumes "handlers_typed methods"
  shows "has_type VoidTask (read_rounds k fl m L methods s n)"
proof (induction k arbitrary: s n)
  case (Suc k)
  show ?case
    by (auto simp: process_ready_task_def Suc split: prod.split option.split sum.split task_value.split
        intro!: await_value_typed tcp_read_typed return_none_typed await_members_typed flush_task_typed
          process_task_typed assms return_some_typed)
qed (simp add: return_none_typed)

lemma await_void_typed: "has_type VoidTask b \<Longrightarrow> has_type VoidTask (await_void b)"
  unfolding await_void_def by (rule type_await) (auto split: sum.split intro: type_throw return_none_typed)

lemma grpc_connection_typed: "handlers_typed methods \<Longrightarrow> has_type VoidTask (grpc_connection rounds fl cfg L methods)"
  unfolding grpc_connection_def session_run_def
  by (intro await_void_typed await_members_typed flush_task_typed read_rounds_typed)

text \<open>
  Claim C11. Handlers cannot bring a gRPC connection down: whatever the client sends, nghttp2 makes of it and the
  registered handlers do, exceptions and suspensions included, the coroutines of the connection never
  terminate the process and no coroutine frame that is gone is ever resumed; and after a computed
  number of transitions the connection has ended with no frame left, or waits for its socket or for
  what a handler waits for.
\<close>

theorem grpc_connection_survives:
  fixes L :: "'n nghttp2" and methods :: "('x, 'n, 'e, 'i) method_tasks" and rounds fl cfg
  assumes "handlers_typed methods"
  defines "b \<equiv> grpc_connection rounds fl cfg L methods"
  shows "case run_machine n (dispatch_handler b, ins) of (m, rest) \<Rightarrow>
     machine_typed m \<and> control m \<noteq> Dangling \<and> control m \<noteq> Terminated
     \<and> (body_cost b ins + 5 \<le> n \<longrightarrow> (control m = Noop \<and> frames m = Map.empty) \<or> (rest = [] \<and> (\<exists>h. control m = Suspended h)))"
proof -
  have t: "has_type VoidTask b" unfolding b_def by (rule grpc_connection_typed [OF assms(1)])
  have safe: "eval_body b ins \<noteq> (Some (Inl x), es, rest)" for x es rest
    using no_throw_connection [of rounds fl cfg L methods] unfolding b_def no_throw_def by (auto dest!: spec [of _ ins])
  obtain m rest where r: "run_machine n (dispatch_handler b, ins) = (m, rest)" by fastforce
  have "(control m = Noop \<and> frames m = Map.empty) \<or> (rest = [] \<and> (\<exists>h. control m = Suspended h))" if "body_cost b ins + 5 \<le> n"
    using driver_terminates [OF t that] safe by (auto simp: r handler_ends_def split: prod.splits option.splits sum.splits)
  then show ?thesis using driver_safe [OF t, where n = n and ins = ins] safe by (auto simp: r)
qed

text \<open>
  A library for the witnesses: it queues frames, reads the data of an answer when it is sent, and takes
  the octets 1 and 2 for the two parts of a request.
\<close>

definition sample_h2 :: "(octets + int) list nghttp2" where
  "sample_h2 = \<lparr>h2_new = [], h2_settings = (\<lambda>k n. n @ [Inl [4, word_of_nat k]]),
     h2_recv = (\<lambda>d n. (if d = [1] then Some (hd echo_rounds) else if d = [2] then Some (last echo_rounds) else None, n)),
     h2_submit = (\<lambda>sb n. n @ [Inr (sub_stream sb)]),
     h2_send = (\<lambda>n. case n of [] \<Rightarrow> Sent [] [] | Inl d # rest \<Rightarrow> Sent d rest | Inr i # rest \<Rightarrow> ReadData i 100 (\<lambda>c. Sent (dc_bytes c) rest))\<rparr>"

definition failing_tasks :: "(string, (octets + int) list, unit, unit) method_tasks" where
  "failing_tasks p = Some (\<lambda>_. Co_throw ''out of memory'')"

theorem grpc_connection_survives_witness:
  "control (fst (run_machine 100 (dispatch_handler (grpc_connection 5 5 default_plugin_config sample_h2 failing_tasks),
     [(NoError, [], ()), (NoError, [1], ()), (NoError, [2], ())]))) \<noteq> Terminated"
proof -
  have "handlers_typed failing_tasks" by (auto simp: handlers_typed_def failing_tasks_def type_throw)
  from grpc_connection_survives [OF this, where n = 100 and rounds = 5 and fl = 5 and cfg = default_plugin_config and L = sample_h2
      and ins = "[(NoError, [], ()), (NoError, [1], ()), (NoError, [2], ())]"]
  show ?thesis by (simp add: case_prod_unfold del: run_machine.simps)
qed

subsection \<open>What a connection sends\<close>

text \<open>The loops without coroutines: what \<^verbatim>\<open>flush\<close> sends, and then a round for each read. \<open>None\<close> is a lack of fuel.\<close>

fun flushed :: "nat \<Rightarrow> 'n nghttp2 \<Rightarrow> grpc_session \<Rightarrow> 'n \<Rightarrow> (octets list \<times> grpc_session \<times> 'n) option" where
  "flushed 0 L s n = None"
| "flushed (Suc k) L s n = (case run_send (h2_send L n) s of (data, s, n) \<Rightarrow>
      if data = [] then Some ([], s, n) else map_option (\<lambda>(ds, s, n). (data # ds, s, n)) (flushed k L s n))"

record served =
  sv_ended :: bool
  sv_sent :: "octets list list"
  sv_events :: "h2_event list list"
  sv_session :: grpc_session

fun serve_reads :: "nat \<Rightarrow> nat \<Rightarrow> method_map \<Rightarrow> 'n nghttp2 \<Rightarrow> octets list \<Rightarrow> grpc_session \<Rightarrow> 'n \<Rightarrow> served option" where
  "serve_reads fl m handlers L [] s n = Some \<lparr>sv_ended = False, sv_sent = [], sv_events = [], sv_session = s\<rparr>"
| "serve_reads fl m handlers L (d # ds) s n =
     (if d = [] then Some \<lparr>sv_ended = True, sv_sent = [], sv_events = [], sv_session = s\<rparr>
      else (case h2_recv L d n of
          (None, _) \<Rightarrow> Some \<lparr>sv_ended = True, sv_sent = [], sv_events = [], sv_session = s\<rparr>
        | (Some evs, n) \<Rightarrow>
            (let s0 = fold (on_event m) evs s; s = process_ready_streams m handlers s0 in
             case flushed fl L s (submit_new L s0 s n) of
               None \<Rightarrow> None
             | Some (out, s, n) \<Rightarrow> map_option (\<lambda>r. r\<lparr>sv_sent := out # sv_sent r, sv_events := evs # sv_events r\<rparr>)
                 (serve_reads fl m handlers L ds s n))))"

text \<open>The completions of these operations: every read and write of the rounds succeeds.\<close>

fun io_done :: "'i \<Rightarrow> octets list \<Rightarrow> octets list list \<Rightarrow> 'i completion list" where
  "io_done u [] outs = []"
| "io_done u (d # ds) [] = [(NoError, d, u)]"
| "io_done u (d # ds) (out # outs) = (NoError, d, u) # replicate (length out) (NoError, [], u) @ io_done u ds outs"

text \<open>The tasks of the handlers compute the outcomes of a method map without waiting for anything.\<close>

definition computes :: "('x, 'n, 'e, 'i) method_tasks \<Rightarrow> method_map \<Rightarrow> bool" where
  "computes methods handlers \<longleftrightarrow> (\<forall>p. case methods p of
      None \<Rightarrow> handlers p = None
    | Some h \<Rightarrow> (\<exists>f. handlers p = Some f \<and> (\<forall>req ins. \<exists>r. eval_body (h req) ins = (Some r, [], ins) \<and> caught r = f req)))"

lemma eval_answer_task:
  assumes "computes methods handlers"
  shows "eval_body (answer_task m methods st s k) ins = eval_body (k (answer_stream m handlers st s)) ins"
proof (cases "methods (ss_method st)")
  case None
  then have "handlers (ss_method st) = None" using assms by (auto simp: computes_def dest: spec [of _ "ss_method st"])
  then show ?thesis by (simp add: answer_task_def answer_stream_def None split: option.split)
next
  case (Some h)
  then obtain f where f: "handlers (ss_method st) = Some f" "\<And>req ins. \<exists>r. eval_body (h req) ins = (Some r, [], ins) \<and> caught r = f req"
    using assms by (force simp: computes_def dest: spec [of _ "ss_method st"])
  show ?thesis
  proof (cases "decode_unary_message (ss_payload st) m")
    case (Inr decoded)
    obtain r where "eval_body (h \<lparr>ur_method = ss_method st, ur_payload = decoded, ur_metadata = ss_metadata st\<rparr>) ins = (Some r, [], ins)"
      "caught r = f \<lparr>ur_method = ss_method st, ur_payload = decoded, ur_metadata = ss_metadata st\<rparr>" using f(2) by blast
    then show ?thesis by (simp add: answer_task_def answer_stream_def Some f(1) Inr split: option.split prod.split)
  qed (simp add: answer_task_def answer_stream_def Some f(1) split: option.split)
qed

lemma eval_process_task:
  assumes "computes methods handlers"
  shows "eval_body (process_task m methods ids s k) ins = eval_body (k (process_list m handlers ids s)) ins"
  by (induction ids arbitrary: s) (simp_all add: Let_def process_stream_def eval_answer_task [OF assms] split: option.split)

lemma outcome_flush:
  "flushed fl L s n = Some (ds, s', n') \<Longrightarrow>
     outcome_of (eval_body (flush_task fl L s n) (replicate (length ds) (NoError, [], u) @ ins))
       = (Some (Inr (Some (TaskResult (Members s' n')))), ds, ins)"
proof (induction fl arbitrary: s n ds)
  case (Suc fl)
  obtain data t p where r: "run_send (h2_send L n) s = (data, t, p)" by (rule prod_cases3)
  show ?case
  proof (cases "data = []")
    case False
    with Suc.prems r obtain ds' where "flushed fl L t p = Some (ds', s', n')" "ds = data # ds'" by auto
    with Suc.IH [OF this(1)] False show ?thesis by (simp add: r eval_tcp_write_some outcome_of_def split: prod.splits)
  qed (use Suc.prems r in \<open>simp add: outcome_of_def\<close>)
qed simp

lemma outcome_members:
  assumes "outcome_of (eval_body b ins) = (Some (Inr (Some (TaskResult (Members s n)))), ws, rest)"
  shows "outcome_of (eval_body (await_members b k) ins) = (case outcome_of (eval_body (k s n) rest) of (r, ws', rest') \<Rightarrow> (r, ws @ ws', rest'))"
  unfolding await_members_def by (simp add: outcome_await [OF assms])

lemma outcome_rounds:
  assumes c: "computes methods handlers"
  shows "serve_reads fl m handlers L ds s n = Some r \<Longrightarrow> length ds < k \<Longrightarrow>
     outcome_of (eval_body (read_rounds k fl m L methods s n) (io_done u ds (sv_sent r)))
       = (if sv_ended r then Some (Inr None) else None, concat (sv_sent r), [])"
proof (induction ds arbitrary: k s n r)
  case Nil
  then obtain k' where "k = Suc k'" by (cases k) auto
  with Nil show ?case by (auto simp: outcome_read_none)
next
  case (Cons d ds)
  then obtain k' where k: "k = Suc k'" "length ds < k'" by (cases k) auto
  show ?case
  proof (cases "d = [] \<or> fst (h2_recv L d n) = None")
    case True
    then show ?thesis using Cons.prems(1) by (auto simp: k(1) outcome_read split: prod.splits option.splits)
  next
    case False
    then obtain evs n1 where e: "h2_recv L d n = (Some evs, n1)" by (cases "h2_recv L d n") auto
    define s0 s1 where "s0 = fold (on_event m) evs s" and "s1 = process_ready_streams m handlers s0"
    from Cons.prems(1) False e obtain out s2 n2 r' where f: "flushed fl L s1 (submit_new L s0 s1 n1) = Some (out, s2, n2)"
      "serve_reads fl m handlers L ds s2 n2 = Some r'" "r = r'\<lparr>sv_sent := out # sv_sent r', sv_events := evs # sv_events r'\<rparr>"
      by (auto simp: Let_def s0_def s1_def split: option.splits)
    have p: "outcome_of (eval_body (process_ready_task m L methods s0 n1) ins) = (Some (Inr (Some (TaskResult (Members s1 (submit_new L s0 s1 n1))))), [], ins)" for ins
      by (simp add: process_ready_task_def eval_process_task [OF c] s1_def process_ready_streams_def)
    show ?thesis using False Cons.IH [OF f(2) k(2)]
      by (simp add: k(1) outcome_read e s0_def [symmetric] outcome_members [OF p] outcome_members [OF outcome_flush [OF f(1)]] f(3))
  qed
qed

text \<open>Sending moves the read offset of answered streams and notes that their trailers are out, and nothing else.\<close>

definition same_stream :: "stream_state \<Rightarrow> stream_state \<Rightarrow> bool" where
  "same_stream a b \<longleftrightarrow> a = b \<or> (submitted a \<and> submitted b
     \<and> a\<lparr>response_offset := 0, trailers_submitted := False\<rparr> = b\<lparr>response_offset := 0, trailers_submitted := False\<rparr>)"

definition sent_apart :: "grpc_session \<Rightarrow> grpc_session \<Rightarrow> bool" where
  "sent_apart s t \<longleftrightarrow> ready_streams s = ready_streams t \<and> submissions s = submissions t
     \<and> (\<forall>i. rel_option same_stream (streams s i) (streams t i))"

lemma sent_apart_refl [simp]: "sent_apart s s"
  by (auto simp: sent_apart_def same_stream_def option.rel_refl)

lemma sent_apart_cases:
  assumes "sent_apart s t"
  obtains "streams s i = None" "streams t i = None"
    | a b where "streams s i = Some a" "streams t i = Some b" "same_stream a b"
  using assms by (auto simp: sent_apart_def option_rel_Some1 dest!: spec [of _ i] elim!: option.rel_cases)

lemma same_stream_fields:
  assumes "same_stream a b"
  shows "submitted a = submitted b" "end_stream a = end_stream b" "ss_payload a = ss_payload b" "\<not> submitted a \<Longrightarrow> a = b"
  using assms by (cases a; cases b; auto simp: same_stream_def)+

lemma same_stream_update:
  assumes "same_stream a b"
  shows "same_stream (add_header nm v a) (add_header nm v b)" "same_stream (a\<lparr>early_status := e\<rparr>) (b\<lparr>early_status := e\<rparr>)"
    "same_stream (a\<lparr>ss_payload := d\<rparr>) (b\<lparr>ss_payload := d\<rparr>)" "same_stream (a\<lparr>end_stream := True\<rparr>) (b\<lparr>end_stream := True\<rparr>)"
  using assms by (cases a; cases b; auto simp: same_stream_def add_header_def)+

lemma sent_apart_update:
  "sent_apart s t \<Longrightarrow> same_stream a b \<Longrightarrow> sent_apart (s\<lparr>streams := (streams s)(i \<mapsto> a)\<rparr>) (t\<lparr>streams := (streams t)(i \<mapsto> b)\<rparr>)"
  by (simp add: sent_apart_def)

lemma sent_apart_event:
  assumes "sent_apart s t"
  shows "sent_apart (on_event m ev s) (on_event m ev t)"
proof (cases ev)
  case (BeginHeaders f)
  then show ?thesis using assms by (auto simp: on_begin_headers_def same_stream_def intro!: sent_apart_update)
next
  case (Header f nm v)
  then show ?thesis using assms
    by (cases rule: sent_apart_cases [OF assms, of "frame_stream f"])
       (auto simp: on_header_def intro!: sent_apart_update same_stream_update)
next
  case (DataChunk i c)
  then show ?thesis using assms
    by (cases rule: sent_apart_cases [OF assms, of i])
       (auto simp: on_data_chunk_recv_def same_stream_fields intro!: sent_apart_update same_stream_update)
next
  case (FrameRecv f)
  show ?thesis
  proof (cases rule: sent_apart_cases [OF assms, of "frame_stream f"])
    case (2 a b)
    have "same_stream (a\<lparr>end_stream := True\<rparr>) (b\<lparr>end_stream := True\<rparr>)" using 2(3) by (rule same_stream_update)
    then show ?thesis using FrameRecv assms 2 by (auto simp: on_frame_recv_def sent_apart_def)
  qed (use FrameRecv assms in \<open>auto simp: on_frame_recv_def\<close>)
qed

lemma sent_apart_events: "sent_apart s t \<Longrightarrow> sent_apart (fold (on_event m) evs s) (fold (on_event m) evs t)"
  by (induction evs arbitrary: s t) (simp_all add: sent_apart_event)

lemma sent_apart_stream:
  assumes "sent_apart s t"
  shows "sent_apart (process_stream m handlers i s) (process_stream m handlers i t)"
proof (cases rule: sent_apart_cases [OF assms, of i])
  case (2 a b)
  have "sent_apart (submit_answer x s) (submit_answer x t)" for x
    using assms by (cases x) (auto simp: submit_answer_def submit_response_def Let_def sent_apart_def same_stream_def)
  then show ?thesis using 2 same_stream_fields [OF 2(3)] assms by (auto simp: process_stream_def answer_stream_answer)
qed (use assms in \<open>auto simp: process_stream_def\<close>)

lemma sent_apart_rest: "sent_apart s t \<Longrightarrow> sent_apart (s\<lparr>ready_streams := ids\<rparr>) (t\<lparr>ready_streams := ids\<rparr>)"
  by (simp add: sent_apart_def)

lemma sent_apart_list: "sent_apart s t \<Longrightarrow> sent_apart (process_list m handlers ids s) (process_list m handlers ids t)"
  by (induction ids arbitrary: s t) (simp_all add: sent_apart_stream sent_apart_rest)

lemma sent_apart_process: "sent_apart s t \<Longrightarrow> sent_apart (process_ready_streams m handlers s) (process_ready_streams m handlers t)"
  using sent_apart_list [of s t m handlers "ready_streams s"] by (simp add: process_ready_streams_def sent_apart_def)

lemma sent_apart_source: "sent_apart s t \<Longrightarrow> sent_apart (snd (data_source i len s)) t"
proof -
  assume a: "sent_apart s t"
  show ?thesis
  proof (cases rule: sent_apart_cases [OF a, of i])
    case (2 x y)
    have "same_stream (snd (on_data_read len x)) y" if "submitted x"
      using that 2(3) by (cases x; cases y; auto simp: on_data_read_def same_stream_def Let_def)
    then show ?thesis using a 2 by (auto simp: data_source_def sent_apart_def split: prod.splits)
  qed (use a in \<open>simp add: data_source_def\<close>)
qed

lemma sent_apart_send: "sent_apart s t \<Longrightarrow> run_send tr s = (d, s', n) \<Longrightarrow> sent_apart s' t"
  by (induction tr arbitrary: s) (auto dest: sent_apart_source)

lemma sent_apart_flushed: "flushed fl L s n = Some (ds, s', n') \<Longrightarrow> sent_apart s t \<Longrightarrow> sent_apart s' t"
  by (induction fl arbitrary: s n ds) (auto split: prod.splits if_splits dest: sent_apart_send)

lemma serve_reads_run:
  "serve_reads fl m handlers L ds s n = Some r \<Longrightarrow> sent_apart s t \<Longrightarrow> sent_apart (sv_session r) (grpc_run m handlers (sv_events r) t)"
proof (induction ds arbitrary: s t n r)
  case (Cons d ds)
  show ?case
  proof (cases "d = [] \<or> fst (h2_recv L d n) = None")
    case False
    then obtain evs n1 where e: "h2_recv L d n = (Some evs, n1)" by (cases "h2_recv L d n") auto
    define s0 s1 where "s0 = fold (on_event m) evs s" and "s1 = process_ready_streams m handlers s0"
    from Cons.prems(1) False e obtain out s2 n2 r' where f: "flushed fl L s1 (submit_new L s0 s1 n1) = Some (out, s2, n2)"
      "serve_reads fl m handlers L ds s2 n2 = Some r'" "r = r'\<lparr>sv_sent := out # sv_sent r', sv_events := evs # sv_events r'\<rparr>"
      by (auto simp: Let_def s0_def s1_def split: option.splits)
    have "sent_apart s1 (process_ready_streams m handlers (fold (on_event m) evs t))"
      unfolding s1_def s0_def by (intro sent_apart_process sent_apart_events Cons.prems(2))
    from Cons.IH [OF f(2) sent_apart_flushed [OF f(1) this]] show ?thesis by (simp add: f(3))
  qed (use Cons.prems in \<open>auto split: prod.splits option.splits\<close>)
qed auto

text \<open>
  Claim C12. A gRPC connection does what its rounds do: with handlers that compute their outcome, a client whose
  reads and writes all succeed is sent what nghttp2 hands out, in order, first the settings and
  then the output after each read; the connection ends when the client closes it or nghttp2 refuses
  its octets, and otherwise waits for the next read. The responses it submits are those of the
  rounds without coroutines, however the library cut the sending of the earlier ones into frames.
\<close>

theorem grpc_connection_serves:
  fixes L :: "'n nghttp2" and methods :: "('x, 'n, 'e, 'i) method_tasks" and cfg and u :: 'i
  assumes "handlers_typed methods" "computes methods handlers"
    and "flushed fl L new_grpc_session (h2_settings L (unat (gp_max_concurrent_streams cfg)) (h2_new L)) = Some (hello, s0, n0)"
    and "serve_reads fl (unat (gp_max_message_size cfg)) handlers L ds s0 n0 = Some r" "length ds < rounds"
  defines "b \<equiv> grpc_connection rounds fl cfg L methods"
    and "ins \<equiv> replicate (length hello) (NoError, [], u) @ io_done u ds (sv_sent r)"
  shows "(\<exists>N. \<forall>n \<ge> N. case run_machine n (dispatch_handler b, ins) of (m, rest) \<Rightarrow>
        writes (requests m) = hello @ concat (sv_sent r) \<and> rest = []
        \<and> (if sv_ended r then control m = Noop \<and> frames m = Map.empty else (\<exists>h. control m = Suspended h)))
    \<and> submissions (sv_session r) = submissions (grpc_run (unat (gp_max_message_size cfg)) handlers (sv_events r) new_grpc_session)"
proof
  have ty: "has_type VoidTask b" unfolding b_def by (rule grpc_connection_typed [OF assms(1)])
  have "outcome_of (eval_body (session_run rounds fl (unat (gp_max_concurrent_streams cfg)) (unat (gp_max_message_size cfg)) L methods) ins)
      = (if sv_ended r then Some (Inr None) else None, hello @ concat (sv_sent r), [])"
    unfolding session_run_def ins_def
    by (simp add: outcome_members [OF outcome_flush [OF assms(3)]] outcome_rounds [OF assms(2,4,5)])
  then have o: "outcome_of (eval_body b ins) = (if sv_ended r then Some (Inr None) else None, hello @ concat (sv_sent r), [])"
    unfolding b_def grpc_connection_def await_void_def outcome_of_def by (auto split: prod.splits if_splits)
  have "handler_ends b ins (run_machine n (dispatch_handler b, ins))" if "body_cost b ins + 5 \<le> n" for n
    by (rule driver_terminates [OF ty that])
  then show "\<exists>N. \<forall>n \<ge> N. case run_machine n (dispatch_handler b, ins) of (m, rest) \<Rightarrow>
        writes (requests m) = hello @ concat (sv_sent r) \<and> rest = []
        \<and> (if sv_ended r then control m = Noop \<and> frames m = Map.empty else (\<exists>h. control m = Suspended h))"
    using o by (intro exI [of _ "body_cost b ins + 5"] allI impI)
      (fastforce simp: handler_ends_def outcome_of_def split: prod.splits option.splits sum.splits if_splits)
  have "sent_apart s0 new_grpc_session" by (rule sent_apart_flushed [OF assms(3) sent_apart_refl])
  from serve_reads_run [OF assms(4) this]
  show "submissions (sv_session r) = submissions (grpc_run (unat (gp_max_message_size cfg)) handlers (sv_events r) new_grpc_session)"
    by (simp add: sent_apart_def)
qed

definition echo_tasks :: "(string, (octets + int) list, unit, unit) method_tasks" where
  "echo_tasks p = (if p = ''/t.Echo/Say''
     then Some (\<lambda>r. Co_return (Some (TaskResult (HandlerResult (Inr \<lparr>us_payload = ur_payload r, us_trailing = []\<rparr>))))) else None)"

lemma echo_tasks_typed: "handlers_typed echo_tasks"
  by (auto simp: handlers_typed_def echo_tasks_def return_some_typed)

lemma echo_tasks_compute: "computes echo_tasks echo_methods"
  by (auto simp: computes_def echo_tasks_def echo_methods_def caught_def)

definition sample_limits :: plugin_config where
  "sample_limits = default_plugin_config\<lparr>gp_max_message_size := 100\<rparr>"

definition sample_stream :: stream_state where
  "sample_stream = (new_stream 1)\<lparr>http_method := ''POST'', ss_method := ''/t.Echo/Say'',
     content_type := ''application/grpc+proto'', ss_metadata := [(''k'', ''v'')]\<rparr>"

lemma sample_collected:
  "fold (on_event 100) (hd echo_rounds) new_grpc_session = new_grpc_session\<lparr>streams := [1 \<mapsto> sample_stream]\<rparr>"
proof -
  have "fold (\<lambda>(n, v). add_header (to_lower_ascii n) v) [('':method'', ''POST''), ('':path'', ''/t.Echo/Say''),
      (''Content-Type'', ''application/grpc+proto''), (''k'', ''v'')] (new_stream 1) = sample_stream" by code_simp
  then show ?thesis
    by (simp add: echo_rounds_def echo_headers_def echo_begin_def on_begin_headers_def on_header_def new_grpc_session_def)
qed

lemma sample_ready:
  "fold (on_event 100) (last echo_rounds) (new_grpc_session\<lparr>streams := [1 \<mapsto> sample_stream]\<rparr>)
     = new_grpc_session\<lparr>streams := [1 \<mapsto> sample_stream\<lparr>ss_payload := [0, 0, 0, 0, 1, 42], end_stream := True\<rparr>], ready_streams := [1]\<rparr>"
  by (simp add: echo_rounds_def echo_end_def on_data_chunk_recv_def on_frame_recv_def new_grpc_session_def sample_stream_def
      new_stream_def message_limit_def kGrpcEnvelopeSize_def)

lemma sample_answered:
  "stream_answer 100 echo_methods (sample_stream\<lparr>ss_payload := [0, 0, 0, 0, 1, 42], end_stream := True, submitted := True\<rparr>)
     = (sample_stream\<lparr>ss_payload := [0, 0, 0, 0, 1, 42], end_stream := True, submitted := True, response_bytes := [0, 0, 0, 0, 1, 42]\<rparr>, grpc_ok, [])"
  by code_simp

lemma sample_recv: "h2_recv sample_h2 [1] n = (Some (hd echo_rounds), n)" "h2_recv sample_h2 [2] n = (Some (last echo_rounds), n)"
  by (simp_all add: sample_h2_def)

lemma sample_flushed:
  "flushed 3 sample_h2 s [Inl [4, 128]] = Some ([[4, 128]], s, [])" "flushed 3 sample_h2 s [] = Some ([], s, [])"
  by (simp_all add: numeral_3_eq_3 sample_h2_def)

lemma sample_serve:
  "map_option (\<lambda>r. (sv_ended r, sv_sent r)) (serve_reads 3 100 echo_methods sample_h2 [[1], [2], []] new_grpc_session [])
     = Some (True, [[], [[0, 0, 0, 0, 1, 42]]])"
proof -
  let ?t = "sample_stream\<lparr>ss_payload := [0, 0, 0, 0, 1, 42], end_stream := True, submitted := True, response_bytes := [0, 0, 0, 0, 1, 42],
     response_trailers := trailers_of grpc_ok [], trailers_submitted := False\<rparr>"
  let ?s = "new_grpc_session\<lparr>streams := [1 \<mapsto> ?t], submissions := [\<lparr>sub_stream = 1, sub_headers = [('':status'', ''200''), (''content-type'', kContentType)], sub_state = ?t\<rparr>]\<rparr>"
  have p: "process_ready_streams 100 echo_methods (new_grpc_session\<lparr>streams := [1 \<mapsto> sample_stream]\<rparr>) = new_grpc_session\<lparr>streams := [1 \<mapsto> sample_stream]\<rparr>"
    by (simp add: process_ready_streams_def new_grpc_session_def)
  have q: "process_ready_streams 100 echo_methods (new_grpc_session\<lparr>streams := [1 \<mapsto> sample_stream\<lparr>ss_payload := [0, 0, 0, 0, 1, 42], end_stream := True\<rparr>], ready_streams := [1]\<rparr>) = ?s"
    by (simp add: process_ready_streams_def process_stream_def answer_stream_answer sample_answered submit_answer_def submit_response_def
        Let_def, simp add: new_grpc_session_def sample_stream_def new_stream_def)
  have sub: "submit_new sample_h2 s s n = n" for s n by (simp add: submit_new_def)
  have sub1: "submit_new sample_h2 (new_grpc_session\<lparr>streams := a, ready_streams := b\<rparr>) ?s [] = [Inr 1]" for a b
    by (simp add: submit_new_def new_grpc_session_def sample_h2_def)
  have "on_data_read 100 ?t = (\<lparr>dc_bytes = [0, 0, 0, 0, 1, 42], dc_eof = True, dc_no_end_stream = True, dc_trailer = Some (trailers_of grpc_ok [])\<rparr>,
      ?t\<lparr>response_offset := 6, trailers_submitted := True\<rparr>)"
    by (simp add: on_data_read_def sample_stream_def new_stream_def)
  then have fl: "\<exists>s. flushed 3 sample_h2 ?s [Inr 1] = Some ([[0, 0, 0, 0, 1, 42]], s, [])"
    by (simp add: numeral_3_eq_3 sample_h2_def data_source_def)
  then show ?thesis
    by (auto simp: sample_recv sample_collected sample_ready p q sub sub1 sample_flushed Let_def)
qed

theorem grpc_connection_serves_witness:
  "\<exists>n. writes (requests (fst (run_machine n (dispatch_handler (grpc_connection 4 3 sample_limits sample_h2 echo_tasks),
     [(NoError, [], ()), (NoError, [1], ()), (NoError, [2], ()), (NoError, [], ()), (NoError, [], ())]))))
   = [[4, 128], [0, 0, 0, 0, 1, 42]]"
proof -
  have k: "unat (gp_max_concurrent_streams sample_limits) = 128" "unat (gp_max_message_size sample_limits) = 100"
    by (simp_all add: sample_limits_def default_plugin_config_def)
  have f: "flushed 3 sample_h2 new_grpc_session (h2_settings sample_h2 128 (h2_new sample_h2)) = Some ([[4, 128]], new_grpc_session, [])"
    using sample_flushed by (simp add: sample_h2_def)
  from sample_serve obtain r where r: "serve_reads 3 100 echo_methods sample_h2 [[1], [2], []] new_grpc_session [] = Some r"
    "sv_ended r" "sv_sent r = [[], [[0, 0, 0, 0, 1, 42]]]" by auto
  show ?thesis
    using grpc_connection_serves [OF echo_tasks_typed echo_tasks_compute, of 3 sample_h2 sample_limits "[[4, 128]]" new_grpc_session "[]"
        "[[1], [2], []]" r 4 "()", unfolded k, OF f r(1)]
    by (auto simp: case_prod_unfold r(2,3))
qed

end
