(* ===== verification/Route_Guards.thy ===== *)
theory Route_Guards
  imports Http_App "HOL-Library.Sublist"
begin

text \<open>
  Middleware scoped to a prefix and the routes below it: the pipeline of \<^verbatim>\<open>src/router/app_impl.cpp\<close>
  compares the characters of the path, the router of \<^verbatim>\<open>src/router/router_impl.cpp\<close> its non-empty segments.
  On paths without empty segments the two agree, so a guard protects the routes it is meant for; on
  others they do not.
\<close>

text \<open>A path whose segments are all non-empty, except possibly the last one.\<close>

definition clean_path :: "string \<Rightarrow> bool" where
  "clean_path p \<longleftrightarrow> starts_with p ''/'' \<and> \<not> sublist ''//'' p"

definition prefix_of_segments :: "string list \<Rightarrow> string" where
  "prefix_of_segments lits = concat (map (\<lambda>l. ''/'' @ l) lits)"

text \<open>A pattern below a prefix starts with its segments.\<close>

definition below :: "string list \<Rightarrow> string \<Rightarrow> bool" where
  "below lits p = (case parse_pattern p of
      None \<Rightarrow> False
    | Some segs \<Rightarrow> take (length lits) (map seg_key segs) = map KStatic lits)"

lemma match_static_keys:
  "match_keys (map KStatic lits @ ks) segs = Some vals \<Longrightarrow> \<exists>ms. map fst segs = lits @ ms"
proof (induction lits arbitrary: segs)
  case (Cons l lits)
  then show ?case by (cases segs) (auto split: if_splits)
qed simp

lemma clean_tail: "\<not> sublist ''//'' (CHR ''/'' # l @ r) \<Longrightarrow> \<not> sublist ''//'' r"
  by (metis append_Cons sublist_appendI sublist_order.order_trans sublist_append_leftI)

lemma split_rest_prefix:
  assumes "\<not> sublist ''//'' (CHR ''/'' # r)" "map fst (split_rest r) = lits @ ms"
  shows "\<exists>tail. CHR ''/'' # r = prefix_of_segments lits @ tail \<and> (lits \<noteq> [] \<longrightarrow> tail = [] \<or> hd tail = CHR ''/'')"
  using assms
proof (induction lits arbitrary: r)
  case Nil
  then show ?case by (simp add: prefix_of_segments_def)
next
  case (Cons l lits)
  have "r \<noteq> []" using Cons.prems(2) by (auto simp: split_rest.simps)
  moreover have "hd r \<noteq> CHR ''/''" using Cons.prems(1) \<open>r \<noteq> []\<close>
    by (metis append_Cons append_Nil list.collapse sublist_append_rightI)
  ultimately have tok: "before (CHR ''/'') r \<noteq> []" by (cases r) (auto simp: before_def)
  let ?tail = "from_first (CHR ''/'') r"
  have r: "r = before (CHR ''/'') r @ ?tail" by (simp add: before_from_first)
  have s: "split_rest r = (before (CHR ''/'') r, r) # (if ?tail = [] then [] else split_rest (drop 1 ?tail))"
    using tok \<open>r \<noteq> []\<close> by (subst split_rest.simps) (simp add: Let_def)
  with Cons.prems(2) have l: "l = before (CHR ''/'') r"
    and rest: "map fst (if ?tail = [] then [] else split_rest (drop 1 ?tail)) = lits @ ms" by auto
  show ?case
  proof (cases ?tail)
    case Nil
    with rest have "lits = []" by simp
    with r l Nil show ?thesis by (intro exI [of _ "[]"]) (simp add: prefix_of_segments_def)
  next
    case (Cons c r')
    then have c: "?tail = CHR ''/'' # r'" using from_first_Cons [OF Cons] by simp
    with r l have e: "r = l @ CHR ''/'' # r'" by simp
    with Cons.prems(1) have "\<not> sublist ''//'' (CHR ''/'' # r')" using clean_tail [of l "CHR ''/'' # r'"] by simp
    from Cons.IH [OF this] rest c obtain tail where
      "CHR ''/'' # r' = prefix_of_segments lits @ tail" "lits \<noteq> [] \<longrightarrow> tail = [] \<or> hd tail = CHR ''/''" by auto
    with e show ?thesis
      by (intro exI [of _ tail]) (cases "lits = []", auto simp: prefix_of_segments_def)
  qed
qed

text \<open>So a clean path that a route below the prefix matches is covered by the prefix.\<close>

lemma prefix_covers:
  assumes "clean_path path" "match_keys (map KStatic lits @ ks) (split_path path) = Some vals" "lits \<noteq> []"
  shows "prefix_matches (prefix_of_segments lits) path"
proof -
  from assms(1) obtain r where r: "path = CHR ''/'' # r" by (auto simp: clean_path_def starts_with_iff)
  obtain ms where "map fst (split_rest r) = lits @ ms"
    using match_static_keys [OF assms(2)] by (auto simp: split_path_def r)
  from split_rest_prefix [OF _ this] assms(1,3) obtain tail where
    t: "path = prefix_of_segments lits @ tail" "tail = [] \<or> hd tail = CHR ''/''" by (auto simp: clean_path_def r)
  then show ?thesis by (cases tail) (auto simp: prefix_matches_def starts_with_iff nth_append)
qed

lemma runs_route_filter:
  assumes "runs_route rs req s out"
    and "\<And>p segs vals. parse_pattern p = Some segs \<Longrightarrow> match_keys (map seg_key segs) (split_path (path_view req)) = Some vals \<Longrightarrow> Q p"
  shows "runs_route (filter (\<lambda>(m, p, sig, f). Q p) rs) req s out"
proof -
  from assms(1) obtain p sig f segs vals args where r: "(req_method req, p, sig, f) \<in> set rs" "parse_pattern p = Some segs"
    "match_keys (map seg_key segs) (split_path (path_view req)) = Some vals" and rest: "length vals = length (extract_param_names segs)
      \<and> (let req' = set_params req (emplace_all (zip (extract_param_names segs) vals)) in
           reads_args sig (extract_param_names segs) req' args \<and> out = f args req' s)"
    unfolding runs_route_def by blast
  from assms(2) [OF r(2,3)] r(1) have "(req_method req, p, sig, f) \<in> set (filter (\<lambda>(m, p, sig, f). Q p) rs)" by simp
  with r(2,3) rest show ?thesis unfolding runs_route_def by blast
qed

text \<open>A guard lets a request pass or answers it itself.\<close>

definition guard :: "((nat, nat) request_impl \<Rightarrow> bool) \<Rightarrow> response \<Rightarrow> ((nat, nat) request_impl, 's) middleware" where
  "guard allowed denied req nxt s = (if allowed req then nxt req s else (denied, s))"

lemma guarded_dispatch:
  assumes "program is_float cfg rs = Some a0"
  shows "\<exists>t. register_all is_float rs = Some t
    \<and> app_dispatch (use_scoped pre (guard allowed denied) a0) req s =
      (if prefix_matches pre (path_view req) \<and> \<not> allowed req then (denied, s) else serve t req s)"
proof -
  obtain t where t: "register_all is_float rs = Some t" "a0 = (http_app_new cfg)\<lparr>ha_router := t\<rparr>"
    using program_Some [OF assms] by blast
  then show ?thesis
    by (auto simp: app_dispatch_foldr use_scoped_def http_app_new_def matching_scoped_def guard_def)
qed

text \<open>
  Claim C14. A guard scoped to a prefix protects the routes below it: a request with a clean path that the guard
  does not allow is answered by the guard, by a route that is not below the prefix, or with 400, 404
  or 405. No body of a route below the prefix runs.
\<close>

theorem scoped_guard_protects:
  fixes denied :: response
  assumes "program is_float cfg rs = Some a0"
    and "map (route_of is_float) rs = map Some routes" "consistent_names routes"
    and "list_all (\<lambda>(m, p, sig, f). length sig \<le> 2) rs"
    and "lits \<noteq> []" "clean_path (path_view req)" "\<not> allowed req"
  defines "a \<equiv> use_scoped (prefix_of_segments lits) (guard allowed denied) a0"
  shows "app_dispatch a req s = (denied, s)
    \<or> runs_route (filter (\<lambda>(m, p, sig, f). \<not> below lits p) rs) req s (app_dispatch a req s)
    \<or> (response_status (fst (app_dispatch a req s)) \<in> {400, 404, 405} \<and> snd (app_dispatch a req s) = s)"
proof -
  obtain t where t: "register_all is_float rs = Some t" and d: "app_dispatch a req s =
      (if prefix_matches (prefix_of_segments lits) (path_view req) then (denied, s) else serve t req s)"
    using guarded_dispatch [OF assms(1), of "prefix_of_segments lits" allowed denied req s] assms(7) unfolding a_def by auto
  show ?thesis
  proof (cases "prefix_matches (prefix_of_segments lits) (path_view req)")
    case False
    have "\<not> below lits p" if "parse_pattern p = Some segs" "match_keys (map seg_key segs) (split_path (path_view req)) = Some vals" for p segs vals
    proof
      assume "below lits p"
      with that(1) have "take (length lits) (map seg_key segs) = map KStatic lits" by (simp add: below_def)
      then have k: "map seg_key segs = map KStatic lits @ drop (length lits) (map seg_key segs)"
        using append_take_drop_id [of "length lits" "map seg_key segs"] by simp
      have "match_keys (map KStatic lits @ drop (length lits) (map seg_key segs)) (split_path (path_view req)) = Some vals"
        using that(2) by (simp only: k [symmetric])
      with prefix_covers [OF assms(6) _ assms(5)] False show False by blast
    qed
    note nb = this
    have "runs_route rs req s out \<Longrightarrow> runs_route (filter (\<lambda>(m, p, sig, f). \<not> below lits p) rs) req s out" for out
      by (erule runs_route_filter [where Q = "\<lambda>p. \<not> below lits p"]) (rule nb)
    note runs = this
    have d': "app_dispatch a req s = serve t req s" using False d by simp
    show ?thesis using serve_answer [OF t assms(2-4), of req s] runs unfolding d' by blast
  qed (simp add: d)
qed

end
