(* ===== verification/Examples.thy ===== *)
theory Examples
  imports Route_Guards Static_Files Ws_Hub Grpc_Task
begin

text \<open>
  The programs of \<^verbatim>\<open>src/examples\<close>, each with the calls of the library that its \<^verbatim>\<open>main\<close> makes, and what
  they answer. The state of the handlers is what the program has printed. The library calls after
  \<^verbatim>\<open>listen\<close> are those of theories App and Http_App; here \<^verbatim>\<open>main\<close> ends in an exit or in listening.
\<close>

datatype printed = Out string | Err string

text \<open>\<open>Dies\<close> is a registration that terminates the process.\<close>

datatype 'a process = Exits int "printed list" | Listens 'a "16 word" "printed list" | Dies

definition registers :: "('a \<Rightarrow> 'a option) list \<Rightarrow> 'a \<Rightarrow> 'a option" where
  "registers calls a = foldl Option.bind (Some a) calls"

definition then_listen :: "16 word \<Rightarrow> printed list \<Rightarrow> 'a option \<Rightarrow> 'a process" where
  "then_listen port out a = (case a of None \<Rightarrow> Dies | Some b \<Rightarrow> Listens b port out)"

text \<open>A handler that answers every request with the same body.\<close>

definition always :: "string \<Rightarrow> 's typed_body" where
  "always body = (\<lambda>_ _. Pair (ok body))"

subsection \<open>hello-world\<close>

definition hello_name :: "(nat, nat) request_impl \<Rightarrow> string" where
  "hello_name req = (case param_string ''name'' req of Inl _ \<Rightarrow> ''stranger'' | Inr n \<Rightarrow> n)"

definition hello_routes :: "'s typed_route list" where
  "hello_routes =
     [(GET, ''/'', [], always ''Hello, World!''),
      (GET, ''/hello/{name}'', [], \<lambda>_ req. Pair (ok (''Hello, '' @ hello_name req @ ''!''))),
      (GET, ''/health'', [], always ''ok'')]"

definition hello_world :: "(string \<Rightarrow> bool) \<Rightarrow> 's http_app option" where
  "hello_world is_float = registers (map (app_route is_float) hello_routes) (http_app_new default_app_config)"

definition hello_world_main :: "(string \<Rightarrow> bool) \<Rightarrow> 's http_app process" where
  "hello_world_main is_float = then_listen 8080 [] (hello_world is_float)"

subsection \<open>middleware-plugin\<close>

definition kExpectedToken :: string where
  "kExpectedToken = ''secret-token-123''"

definition auth_middleware :: "string \<Rightarrow> ((nat, nat) request_impl, 's) middleware" where
  "auth_middleware required_token req nxt s =
     (if req_header ''Authorization'' req = None \<or> req_header ''Authorization'' req \<noteq> Some required_token
      then (unauthorized ''Missing or invalid Authorization token'', s)
      else nxt req s)"

definition logger_middleware :: "((nat, nat) request_impl, printed list) middleware" where
  "logger_middleware req nxt out =
     (let (res, out') = nxt req (out @ [Out (''[logger] '' @ method_text (req_method req) @ '' '' @ path_view req)]) in
      (res, out' @ [Out (''[logger] -> '' @ int_text (response_status res))]))"

definition middleware_routes :: "printed list typed_route list" where
  "middleware_routes =
     [(GET, ''/'', [], always ''Welcome to the middleware-plugin example.''),
      (GET, ''/api/data'', [], always ''Protected data. Auth check passed.''),
      (GET, ''/health'', [], always ''ok'')]"

definition middleware_plugin :: "(string \<Rightarrow> bool) \<Rightarrow> printed list http_app option" where
  "middleware_plugin is_float = registers (map (app_route is_float) middleware_routes)
     (use_scoped ''/api'' (auth_middleware kExpectedToken) (use_global logger_middleware (http_app_new default_app_config)))"

definition middleware_plugin_main :: "(string \<Rightarrow> bool) \<Rightarrow> printed list http_app process" where
  "middleware_plugin_main is_float = then_listen 8080
     [Out ''[middleware-plugin] listening on http://localhost:8080'', Out ''  Routes:'',
      Out ''    GET /           (public)'', Out ''    GET /health     (public)'',
      Out ''    GET /api/data   (requires Authorization: secret-token-123)'']
     (middleware_plugin is_float)"

subsection \<open>configured-server\<close>

definition config_text :: "app_config \<Rightarrow> string" where
  "config_text cfg =
     ''port='' @ dec_string (unat (cfg_port cfg)) @ '' host='' @ cfg_host cfg
     @ '' max_body_size='' @ dec_string (unat (cfg_max_body_size cfg))
     @ '' max_read_bytes='' @ dec_string (unat (cfg_max_read_bytes cfg))
     @ '' max_header_count='' @ dec_string (unat (cfg_max_header_count cfg))
     @ '' request_timeout='' @ int_text (cfg_request_timeout cfg) @ ''s io_threads='' @ dec_string (thread_count (cfg_executor cfg))
     @ '' cpu_pool_threads='' @ dec_string (cpu_pool_threads (cfg_executor cfg))
     @ '' drain_timeout='' @ int_text (drain_timeout (cfg_executor cfg)) @ ''s''"

definition config_lines :: "app_config \<Rightarrow> printed list" where
  "config_lines cfg =
     [Out (''[configured-server] listening on '' @ cfg_host cfg @ '':'' @ dec_string (unat (cfg_port cfg))),
      Out (''  max_body_size='' @ dec_string (unat (cfg_max_body_size cfg))
        @ ''  max_read_bytes='' @ dec_string (unat (cfg_max_read_bytes cfg))
        @ ''  max_header_count='' @ dec_string (unat (cfg_max_header_count cfg))),
      Out (''  io_threads='' @ dec_string (thread_count (cfg_executor cfg))
        @ ''  cpu_pool_threads='' @ dec_string (cpu_pool_threads (cfg_executor cfg))
        @ ''  drain_timeout='' @ int_text (drain_timeout (cfg_executor cfg)) @ ''s'')]"

definition configured_routes :: "app_config \<Rightarrow> 's typed_route list" where
  "configured_routes cfg =
     [(GET, ''/'', [], always ''configured-server is running''),
      (GET, ''/config'', [], always (config_text cfg))]"

definition configured_server :: "(string \<Rightarrow> bool) \<Rightarrow> app_config \<Rightarrow> 's http_app option" where
  "configured_server is_float cfg = registers (map (app_route is_float) (configured_routes cfg)) (http_app_new cfg)"

text \<open>The first argument, if any, is the path of the configuration file; the loader writes its warnings.\<close>

definition configured_server_main :: "(string \<Rightarrow> bool) \<Rightarrow> 'n toml_api \<Rightarrow> (string \<Rightarrow> bool) \<Rightarrow> (string \<Rightarrow> 'n parse_outcome)
    \<Rightarrow> string list \<Rightarrow> 's http_app process" where
  "configured_server_main is_float api exists parse_file args =
     (case app_create_config api exists parse_file (if args = [] then None else Some (hd args)) default_app_config of
        (Inl err, warnings) \<Rightarrow> Exits 1 (map Err warnings
          @ [Err (''[configured-server] config error ('' @ config_error_text (error_code err) @ ''): '' @ error_message err)])
      | (Inr cfg, warnings) \<Rightarrow>
          then_listen (cfg_port cfg) (map Err warnings @ config_lines cfg) (configured_server is_float cfg))"

subsection \<open>static-files\<close>

definition static_example_config :: "root_path \<Rightarrow> static_config" where
  "static_example_config root = \<lparr>cfg_root = root, cfg_url_prefix = ''/assets'', cfg_index_file = ''index.html'', cfg_mime_overrides = []\<rparr>"

definition static_example_routes :: "'s typed_route list" where
  "static_example_routes =
     [(GET, ''/'', [], always ''Open http://localhost:8080/assets/ for the static page.''),
      (GET, ''/health'', [], always ''ok'')]"

definition static_example :: "(string \<Rightarrow> bool) \<Rightarrow> filesystem \<Rightarrow> static_state \<Rightarrow> 's http_app option" where
  "static_example is_float fs st = registers (map (app_route is_float) static_example_routes)
     (use_global (static_files fs st) (http_app_new default_app_config))"

definition static_example_main :: "(string \<Rightarrow> bool) \<Rightarrow> filesystem \<Rightarrow> string \<Rightarrow> root_path \<Rightarrow> 's http_app process" where
  "static_example_main is_float fs dir root =
     (case make_state fs (static_example_config root) of
        Inl e \<Rightarrow> Exits 1 [Err (''[static-files-example] static file config error: '' @ static_files_error_text e)]
      | Inr st \<Rightarrow> then_listen 8080
          [Out ''[static-files-example] listening on http://localhost:8080'', Out (''  Static root: '' @ dir), Out ''  Try:'',
           Out ''    GET /assets/'', Out ''    GET /assets/app.css'', Out ''    GET /health'']
          (static_example is_float fs st))"

subsection \<open>grpc-echo\<close>

definition echo_method :: "unary_request \<Rightarrow> handler_outcome" where
  "echo_method req = Responded \<lparr>us_payload = ur_payload req, us_trailing = []\<rparr>"

definition grpc_echo_app :: "nat \<Rightarrow> (GrpcError + PluginError) + grpc_plugin app" where
  "grpc_echo_app cores =
     (case add_unary_method ''/aevox.examples.Echo/Echo'' (Some echo_method) (make_plugin (default_plugin_config\<lparr>gp_port := 50051\<rparr>)) of
        (Inl e, _) \<Rightarrow> Inl (Inl e)
      | (Inr _, plugin) \<Rightarrow> (case app_install plugin_install (Some plugin) (new_app cores default_app_config) of
          (Inl e, _) \<Rightarrow> Inl (Inr e)
        | (Inr _, a) \<Rightarrow> Inr a))"

definition grpc_echo_main :: "(string \<Rightarrow> bool) \<Rightarrow> nat \<Rightarrow> (grpc_plugin app \<times> 's http_app) process" where
  "grpc_echo_main is_float cores = (case grpc_echo_app cores of
       Inl (Inl e) \<Rightarrow> Exits 1 [Err (''failed to register gRPC method: '' @ grpc_error_text e)]
     | Inl (Inr e) \<Rightarrow> Exits 1 [Err (''failed to install gRPC plugin: '' @ plugin_error_text e)]
     | Inr a \<Rightarrow> then_listen 8080
         [Out ''HTTP listening on http://127.0.0.1:8080'', Out ''gRPC h2c listening on 127.0.0.1:50051'']
         (map_option (Pair a) (app_get is_float ''/health'' [] (always ''ok'') (http_app_new default_app_config))))"

subsection \<open>websocket-chat\<close>

record chat_handler =
  on_open :: "ws_handle \<Rightarrow> hub \<times> printed list \<Rightarrow> hub \<times> printed list"
  on_message :: "ws_handle \<Rightarrow> string \<Rightarrow> hub \<times> printed list \<Rightarrow> hub \<times> printed list"
  on_close :: "ws_handle \<Rightarrow> 16 word \<Rightarrow> hub \<times> printed list \<Rightarrow> hub \<times> printed list"

definition chat_open :: "ws_handle \<Rightarrow> hub \<times> printed list \<Rightarrow> hub \<times> printed list" where
  "chat_open ws s = (case s of (h, out) \<Rightarrow>
     (let h' = ws_subscribe ws (ws_topic ws h) h in
      (h', out @ [Out (''[open]  client joined room '' @ [CHR 0x27] @ ws_topic ws h' @ [CHR 0x27])])))"

definition chat_message :: "ws_handle \<Rightarrow> string \<Rightarrow> hub \<times> printed list \<Rightarrow> hub \<times> printed list" where
  "chat_message ws msg s = (case s of (h, out) \<Rightarrow> (ws_publish ws (ws_topic ws h) msg h, out))"

definition chat_close :: "ws_handle \<Rightarrow> 16 word \<Rightarrow> hub \<times> printed list \<Rightarrow> hub \<times> printed list" where
  "chat_close ws status s = (case s of (h, out) \<Rightarrow>
     (h, out @ [Out (''[close] client left room '' @ [CHR 0x27] @ ws_topic ws h @ [CHR 0x27]
        @ '' (code '' @ dec_string (unat status) @ '')'')]))"

definition chat :: chat_handler where
  "chat = \<lparr>on_open = chat_open, on_message = chat_message, on_close = chat_close\<rparr>"

definition websocket_chat :: "string \<rightharpoonup> chat_handler" where
  "websocket_chat = app_ws ''/chat/{room}'' chat Map.empty"

definition websocket_chat_main :: "(string \<rightharpoonup> chat_handler) process" where
  "websocket_chat_main = then_listen 8080 [Out ''WebSocket chat server listening on ws://localhost:8080/chat/{room}''] (Some websocket_chat)"

subsection \<open>The routes of a program as a table\<close>

lemma registers_build:
  assumes "ha_router a = empty_root" "map (route_of is_float) rs = map Some routes" "list_all (\<lambda>(m, _). m = GET) rs"
  shows "registers (map (app_route is_float) rs) a = Some (a\<lparr>ha_router := build_routes routes\<rparr>)"
  using assms(2,3)
proof (induction rs arbitrary: routes rule: rev_induct)
  case Nil
  then show ?case using assms(1) by (simp add: registers_def build_routes_def)
next
  case (snoc tr rs)
  from snoc.prems(1) obtain rest r where r: "routes = rest @ [r]" "map (route_of is_float) rs = map Some rest" "route_of is_float tr = Some r"
    by (cases routes rule: rev_cases) auto
  from snoc.prems(2) obtain p sig f where tr: "tr = (GET, p, sig, f)" "list_all (\<lambda>(m, _). m = GET) rs" by (cases tr) auto
  from r(3) obtain segs h where h: "parse_pattern p = Some segs" "typed_handler is_float sig f (extract_param_names segs) = Some h" "r = (segs, GET, h)"
    by (auto simp: tr route_of_def split: option.splits)
  from snoc.IH [OF r(2) tr(2)] show ?case
    by (simp add: registers_def tr(1) app_route_def app_routes router_route_def h register_route_def main_router_def kMethodCount_def
        build_routes_def r(1))
qed

lemma typed_handler_plain: "typed_handler is_float [] f names = Some (f [])"
proof -
  have "selected_branch [] = Some []" by code_simp
  then show ?thesis by (simp add: typed_handler_def wrapped_call_def Let_def)
qed

lemma example_patterns:
  "parse_pattern ''/'' = Some []" "parse_pattern ''/api/data'' = Some [static_seg ''api'', static_seg ''data'']"
  "parse_pattern ''/health'' = Some [static_seg ''health'']"
  "parse_pattern ''/hello/{name}'' = Some [static_seg ''hello'', param_seg ''name'' PtNone]"
  "parse_pattern ''/config'' = Some [static_seg ''config'']"
  by code_simp+

lemma serve_get:
  assumes "list_all (\<lambda>(_, m, _). m = GET) rs" "req_method req = GET"
  shows "serve (build_routes rs) req = dispatch_response set_params (dispatch_table (spec_table rs) GET (path_view req)) req"
proof -
  have "routable rs" using assms(1) by (auto simp: routable_def list_all_iff)
  then show ?thesis by (simp add: serve_def assms(2) dispatch_build_routes)
qed

lemma map_fst_split: "map fst segs = [a] \<longleftrightarrow> (\<exists>r. segs = [(a, r)])" "map fst segs = [a, b] \<longleftrightarrow> (\<exists>r r'. segs = [(a, r), (b, r')])"
  by (cases segs; auto)+

lemmas table_eval = spec_table_def spec_name_def spec_handler_def seg_key.simps static_seg_def param_seg_def seg_label_def Let_def
   dispatch_table_def finish_table_def kMethodCount_def upt_rec dispatch_response_def map_fst_split

lemmas table_build = route_of_def example_patterns typed_handler_plain

subsection \<open>What the programs answer\<close>

definition hello_table :: "((nat, nat) request_impl, 's) handler route list" where
  "hello_table = [([], GET, always ''Hello, World!'' []),
     ([static_seg ''hello'', param_seg ''name'' PtNone], GET, \<lambda>req. Pair (ok (''Hello, '' @ hello_name req @ ''!''))),
     ([static_seg ''health''], GET, always ''ok'' [])]"

lemma hello_world_built: "hello_world is_float = Some ((http_app_new default_app_config)\<lparr>ha_router := build_routes hello_table\<rparr>)"
  unfolding hello_world_def
  by (rule registers_build) (simp_all add: http_app_new_def hello_routes_def hello_table_def table_build)

text \<open>The greeting uses the captured name, whatever it is; \<^verbatim>\<open>stranger\<close> is never used.\<close>

lemma hello_greets:
  assumes "hello_world is_float = Some a" "req_method req = GET" "map fst (split_path (path_view req)) = [''hello'', name]"
  shows "app_dispatch a req s = (ok (''Hello, '' @ name @ ''!''), s)"
proof -
  have l: "list_all (\<lambda>(_, m, _). m = GET) (hello_table :: ((nat, nat) request_impl, 's) handler route list)" by (simp add: hello_table_def)
  have "a = (http_app_new default_app_config)\<lparr>ha_router := build_routes hello_table\<rparr>"
    using assms(1) by (simp add: hello_world_built)
  then have d: "app_dispatch a req s = serve (build_routes hello_table) req s"
    by (simp add: app_dispatch_foldr http_app_new_def matching_scoped_def)
  show ?thesis unfolding d serve_get [OF l assms(2)] using assms(3)
    by (auto simp: hello_table_def table_eval emplace_all_def set_params_def hello_name_def param_string_def)
qed

definition middleware_table :: "((nat, nat) request_impl, printed list) handler route list" where
  "middleware_table = [([], GET, always ''Welcome to the middleware-plugin example.'' []),
      ([static_seg ''api'', static_seg ''data''], GET, always ''Protected data. Auth check passed.'' []),
      ([static_seg ''health''], GET, always ''ok'' [])]"

lemma middleware_routes_table: "map (route_of is_float) middleware_routes = map Some middleware_table"
  by (simp add: middleware_routes_def middleware_table_def table_build)

lemma middleware_plugin_built:
  "middleware_plugin is_float = Some ((use_scoped ''/api'' (auth_middleware kExpectedToken)
     (use_global logger_middleware (http_app_new default_app_config)))\<lparr>ha_router := build_routes middleware_table\<rparr>)"
  unfolding middleware_plugin_def
  by (rule registers_build) (simp_all add: http_app_new_def use_scoped_def use_global_def middleware_routes_table, simp add: middleware_routes_def)

lemma auth_is_guard:
  "auth_middleware token = guard (\<lambda>req. req_header ''Authorization'' req = Some token)
     (unauthorized ''Missing or invalid Authorization token'')"
  by (intro ext) (auto simp: auth_middleware_def guard_def)

lemma middleware_plugin_dispatch:
  assumes "middleware_plugin is_float = Some a"
  shows "app_dispatch a req out =
    logger_middleware req (if prefix_matches ''/api'' (path_view req)
      then \<lambda>r. auth_middleware kExpectedToken r (serve (build_routes middleware_table)) else serve (build_routes middleware_table)) out"
  using assms unfolding middleware_plugin_built
  by (auto simp: app_dispatch_foldr matching_scoped_def use_global_def use_scoped_def http_app_new_def)

lemma middleware_plugin_refuses:
  assumes "middleware_plugin is_float = Some a" "prefix_matches ''/api'' (path_view req)"
    "req_header ''Authorization'' req \<noteq> Some kExpectedToken"
  shows "app_dispatch a req out = (unauthorized ''Missing or invalid Authorization token'',
     out @ [Out (''[logger] '' @ method_text (req_method req) @ '' '' @ path_view req), Out ''[logger] -> 401''])"
proof -
  have s: "int_text (response_status (unauthorized b)) = ''401''" for b
    by (simp add: unauthorized_def make_response_def response_status_def kStatusUnauthorized_def) code_simp
  show ?thesis using assms(2,3) unfolding middleware_plugin_dispatch [OF assms(1)]
    by (simp add: logger_middleware_def auth_middleware_def s)
qed

lemma middleware_serves_data:
  assumes "req_method req = GET" "map fst (split_path (path_view req)) = [''api'', ''data'']"
  shows "serve (build_routes middleware_table) req s = (ok ''Protected data. Auth check passed.'', s)"
proof -
  have l: "list_all (\<lambda>(_, m, _). m = GET) middleware_table" by (simp add: middleware_table_def)
  show ?thesis unfolding serve_get [OF l assms(1)] using assms(2) by (auto simp: middleware_table_def table_eval always_def)
qed

text \<open>
  The route that the guard of the example protects is reached without any token by doubling the first
  slash: the prefix does not cover the path, and the router skips the empty segment.
\<close>

lemma guard_bypassed_by_double_slash:
  assumes "middleware_plugin is_float = Some a" "req_method req = GET" "path_view req = ''//api/data''"
  shows "fst (app_dispatch a req out) = ok ''Protected data. Auth check passed.''"
proof -
  have "\<not> prefix_matches ''/api'' ''//api/data''" "map fst (split_path ''//api/data'') = [''api'', ''data'']" by code_simp+
  with assms(2,3) show ?thesis unfolding middleware_plugin_dispatch [OF assms(1)]
    by (simp add: logger_middleware_def middleware_serves_data split: prod.splits)
qed

text \<open>On clean paths the guard does what it is meant to, here for a request without a token.\<close>

lemma program_registers: "program is_float cfg rs = registers (map (app_route is_float) rs) (http_app_new cfg)"
  by (simp add: program_def registers_def foldl_map)

theorem scoped_guard_protects_witness:
  "\<exists>a r. program (\<lambda>_. True) default_app_config middleware_routes = Some a
     \<and> r = app_dispatch (use_scoped (prefix_of_segments [''api'']) (auth_middleware kExpectedToken) a) (sample_get ''/api/data'') []
     \<and> (r = (unauthorized ''Missing or invalid Authorization token'', [])
        \<or> runs_route (filter (\<lambda>(m, p, sig, f). \<not> below [''api''] p) middleware_routes) (sample_get ''/api/data'') [] r
        \<or> (response_status (fst r) \<in> {400, 404, 405} \<and> snd r = []))"
proof -
  obtain a where a: "program (\<lambda>_. True) default_app_config middleware_routes = Some a"
    unfolding program_registers using registers_build [OF _ middleware_routes_table]
    by (simp add: http_app_new_def middleware_routes_def)
  have c: "consistent_names middleware_table"
    by (auto simp: consistent_names_def middleware_table_def static_seg_def seg_key.simps less_Suc_eq)
  have l: "list_all (\<lambda>(m, p, sig, f). length sig \<le> 2) middleware_routes" by (simp add: middleware_routes_def)
  have p: "path_view (sample_get ''/api/data'') = ''/api/data''" "req_header ''Authorization'' (sample_get ''/api/data'') = None"
    by (simp_all add: sample_get_def make_request_def from_first_def before_def req_header_def default_request_def Let_def)
  have k: "clean_path (path_view (sample_get ''/api/data''))" "req_header ''Authorization'' (sample_get ''/api/data'') \<noteq> Some kExpectedToken"
    unfolding p by (simp_all add: clean_path_def starts_with_def sublist_code)
  have n: "[''api''] \<noteq> []" by simp
  note t = scoped_guard_protects [where lits = "[''api'']" and allowed = "\<lambda>req. req_header ''Authorization'' req = Some kExpectedToken",
      OF a middleware_routes_table c l n k, where denied = "unauthorized ''Missing or invalid Authorization token''" and s = "[]"]
  show ?thesis using a t unfolding auth_is_guard by auto
qed

definition configured_table :: "app_config \<Rightarrow> ((nat, nat) request_impl, 's) handler route list" where
  "configured_table cfg = [([], GET, always ''configured-server is running'' []), ([static_seg ''config''], GET, always (config_text cfg) [])]"

lemma configured_server_built: "configured_server is_float cfg = Some ((http_app_new cfg)\<lparr>ha_router := build_routes (configured_table cfg)\<rparr>)"
  unfolding configured_server_def
  by (rule registers_build) (simp_all add: http_app_new_def configured_routes_def configured_table_def table_build)

lemma configured_reports:
  assumes "configured_server is_float cfg = Some a" "req_method req = GET" "map fst (split_path (path_view req)) = [''config'']"
  shows "app_dispatch a req s = (ok (config_text cfg), s)"
proof -
  have l: "list_all (\<lambda>(_, m, _). m = GET) (configured_table cfg :: ((nat, nat) request_impl, 's) handler route list)"
    by (simp add: configured_table_def)
  have "a = (http_app_new cfg)\<lparr>ha_router := build_routes (configured_table cfg)\<rparr>"
    using assms(1) by (simp add: configured_server_built)
  then have d: "app_dispatch a req s = serve (build_routes (configured_table cfg)) req s"
    by (simp add: app_dispatch_foldr http_app_new_def matching_scoped_def)
  show ?thesis unfolding d serve_get [OF l assms(2)] using assms(3) by (auto simp: configured_table_def table_eval always_def)
qed

text \<open>The program exits with 1 exactly when the file does not load, and listens on the port of the file otherwise.\<close>

lemma configured_server_main_cases:
  "case configured_server_main is_float api exists parse_file args of
     Exits st _ \<Rightarrow> st = 1 \<and> args \<noteq> [] \<and> (\<exists>e w. load_toml_config api exists parse_file (hd args) default_app_config = (Inl e, w))
   | Listens a port _ \<Rightarrow> port = cfg_port (ha_config a)
   | Dies \<Rightarrow> False"
  by (auto simp: configured_server_main_def app_create_config_def then_listen_def configured_server_built http_app_new_def
      split: prod.splits sum.splits)

lemma static_example_built:
  "static_example is_float fs st = Some ((use_global (static_files fs st) (http_app_new default_app_config))\<lparr>ha_router := build_routes
     [([], GET, always ''Open http://localhost:8080/assets/ for the static page.'' []), ([static_seg ''health''], GET, always ''ok'' [])]\<rparr>)"
  unfolding static_example_def
  by (rule registers_build) (simp_all add: use_global_def http_app_new_def static_example_routes_def table_build)

lemma static_example_serves:
  assumes "static_example is_float fs st = Some a" "sf_prefix_matches (path_view req) (url_prefix st)"
  shows "app_dispatch a req s = (serve_file fs st (req_method req) (path_view req), s)"
  using assms unfolding static_example_built
  by (auto simp: app_dispatch_foldr use_global_def http_app_new_def matching_scoped_def static_files_def)

lemma grpc_echo_starts:
  "\<exists>a (b :: 's http_app). grpc_echo_main is_float cores = Listens (a, b) 8080
      [Out ''HTTP listening on http://127.0.0.1:8080'', Out ''gRPC h2c listening on 127.0.0.1:50051'']
    \<and> (\<exists>i. ap_plugins a = [Some i] \<and> gp_installed i \<and> gp_methods i = [''/aevox.examples.Echo/Echo'' \<mapsto> echo_method])"
proof -
  have v: "is_valid_method ''/aevox.examples.Echo/Echo''" by code_simp
  obtain b :: "'s http_app" where "app_get is_float ''/health'' [] (always ''ok'') (http_app_new default_app_config) = Some b"
    by (simp add: app_routes router_route_def table_build register_route_def main_router_def kMethodCount_def http_app_new_def)
  then show ?thesis
    by (auto simp: grpc_echo_main_def grpc_echo_app_def add_unary_method_def make_plugin_def v app_install_def plugin_install_def
        validate_config_def default_plugin_config_def new_app_def then_listen_def)
qed

text \<open>A chat message reaches the members of the sender's room, and not the sender.\<close>

lemma chat_reaches_room:
  assumes "hub_run R h" "hub_members h i = Some w" "m_has_bus w" "hub_members h j = Some v" "\<not> closed (m_session v)"
  shows "hub_members (fst (chat_message (Some i) msg (h, out))) j =
    Some (if (m_topic w, j) \<in> R \<and> j \<noteq> i then v\<lparr>m_session := post (BusMessage msg) (m_session v)\<rparr> else v)"
  using publish_delivers [OF assms(1-3), of "m_topic w" msg j] assms(2,4,5)
  by (simp add: chat_message_def ws_topic_def handle_member_def)

lemma chat_open_joins:
  assumes "hub_run R h" "hub_members h i = Some w" "m_has_bus w"
  shows "hub_run (insert (m_topic w, i) R) (fst (chat_open (Some i) (h, out)))"
  using hub_subscribe [OF assms(1), of "Some i" i w "m_topic w"] assms(2,3)
  by (simp add: chat_open_def ws_topic_def handle_member_def Let_def)

end
