(* ===== verification/Spec2Isabelle.thy ===== *)
theory Spec2Isabelle
  imports Ws_Handshake Router_Api Json Ws_Hub Grpc_Session
    Executor When_All Logger Static_Files Http_App Grpc_Task Route_Guards Examples
begin

text \<open>
  Aevox (C++23) is an HTTP/1.1 server framework with routing, middleware, WebSocket upgrades, static
  files, structured logging and a gRPC plugin. This library models the code under \<^verbatim>\<open>src/src/\<close> and
  the inline code of \<^verbatim>\<open>src/include/aevox/\<close>, and the programs under \<^verbatim>\<open>src/examples/\<close>; paths below leave
  out the leading \<^verbatim>\<open>src/\<close>.

  \<^bold>\<open>How the parts work together.\<close> \<^verbatim>\<open>App\<close> (\<^verbatim>\<open>router/app_impl.cpp\<close>) owns a router, the middleware, the plugins, a
  log writer, a topic bus and an executor. \<^verbatim>\<open>App::listen\<close> starts plugins and logging and runs the
  executor, whose accept loop starts the detached driver \<^verbatim>\<open>FireAndForget\<close> on one connection coroutine
  per socket. That coroutine reads octets, feeds the HTTP parser, builds a request, dispatches it
  through middleware and router to a typed handler, serializes the response and writes it. An
  upgraded connection becomes a WebSocket session: a read loop over the frame parser and a drain
  coroutine for the send queue, joined to other sessions by the topic bus. The gRPC plugin runs its
  own executor with an HTTP/2 session per connection.

  \<^bold>\<open>Theories and the code they model.\<close>
    \<^item> Base: \<^verbatim>\<open>Transitions\<close> (invariants and termination of step relations), \<^verbatim>\<open>Prelude\<close>
      (octets, characters, string scanning), \<^verbatim>\<open>Errors\<close> (\<^verbatim>\<open>error.hpp\<close>, \<^verbatim>\<open>error.cpp\<close>,
      \<^verbatim>\<open>grpc_error.cpp\<close>), \<^verbatim>\<open>Http_Types\<close> (\<^verbatim>\<open>HttpMethod\<close>, with its order).
    \<^item> Routing: \<^verbatim>\<open>Route_Pattern\<close> (\<^verbatim>\<open>parse_pattern\<close>, parameter extraction), \<^verbatim>\<open>Router\<close> (the trie of
      \<^verbatim>\<open>router_impl.cpp\<close>: \<^verbatim>\<open>ensure_child\<close>, \<^verbatim>\<open>insert_route\<close>, \<^verbatim>\<open>group\<close>, \<^verbatim>\<open>walk\<close>, \<^verbatim>\<open>dispatch\<close>),
      \<^verbatim>\<open>Handler_Wrap\<close> (\<^verbatim>\<open>normalise_handler\<close>), \<^verbatim>\<open>Router_Api\<close> (the templates of \<^verbatim>\<open>router_impl.hpp\<close>),
      \<^verbatim>\<open>Pipeline\<close> (\<^verbatim>\<open>wrap_reverse\<close>, \<^verbatim>\<open>dispatch_with_pipeline\<close>), \<^verbatim>\<open>Http_App\<close> (the registration calls of
      \<^verbatim>\<open>App\<close> and what a connection dispatches to), \<^verbatim>\<open>Route_Guards\<close> (scoped middleware against the
      routes below its prefix).
    \<^item> HTTP: \<^verbatim>\<open>Http_Parser\<close> (callbacks, \<^verbatim>\<open>feed\<close>, \<^verbatim>\<open>reset\<close>), \<^verbatim>\<open>Traceparent\<close>, \<^verbatim>\<open>Request\<close>, \<^verbatim>\<open>Response\<close> (values,
      factories, serializer), \<^verbatim>\<open>Json\<close> (error codes, glaze adapter, \<^verbatim>\<open>Request::json\<close>, \<^verbatim>\<open>Response::json\<close>),
      \<^verbatim>\<open>Static_Files\<close> (the whole middleware), \<^verbatim>\<open>Connection\<close> (the rounds of the handler of \<^verbatim>\<open>App::listen\<close>).
    \<^item> Coroutines: \<^verbatim>\<open>Task\<close> (frames, promises, symmetric transfer and handle ownership of \<^verbatim>\<open>task.hpp\<close>, the
      detached driver of \<^verbatim>\<open>asio_executor.cpp\<close>), \<^verbatim>\<open>Async_Ops\<close> (\<^verbatim>\<open>TcpStream::read\<close> and \<^verbatim>\<open>write\<close>, \<^verbatim>\<open>pool\<close>, \<^verbatim>\<open>sleep\<close>,
      the posting functions), \<^verbatim>\<open>When_All\<close> (\<^verbatim>\<open>when_all\<close>), \<^verbatim>\<open>Connection_Task\<close> (the connection handler as a
      coroutine body), \<^verbatim>\<open>Executor\<close> (\<^verbatim>\<open>listen\<close>, \<^verbatim>\<open>run\<close>, \<^verbatim>\<open>stop\<close>, threads and drain as steps).
    \<^item> WebSocket: \<^verbatim>\<open>Base64\<close>, \<^verbatim>\<open>Sha1\<close>, \<^verbatim>\<open>Ws_Handshake\<close>, \<^verbatim>\<open>Ws_Frame\<close>, \<^verbatim>\<open>Ws_Session\<close> (send path, read loop,
      \<^verbatim>\<open>wait_for_close\<close>), \<^verbatim>\<open>Topic_Bus\<close>, \<^verbatim>\<open>Ws_Hub\<close> (handles of \<^verbatim>\<open>websocket.cpp\<close> over sessions and bus).
    \<^item> Logging: \<^verbatim>\<open>Log_Format\<close>, \<^verbatim>\<open>Log_Writer\<close> (queue and writer thread as steps), \<^verbatim>\<open>Logger\<close> (the front end of
      \<^verbatim>\<open>log.hpp\<close> and \<^verbatim>\<open>logger.cpp\<close>, and the access-log middleware).
    \<^item> gRPC: \<^verbatim>\<open>Grpc_Envelope\<close>, \<^verbatim>\<open>Grpc_Session\<close> (callbacks, answering, data source), \<^verbatim>\<open>Grpc_Task\<close> (
      \<^verbatim>\<open>run\<close>, \<^verbatim>\<open>flush\<close> and the handlers as coroutines), \<^verbatim>\<open>Grpc_Plugin\<close>.
    \<^item> Program: \<^verbatim>\<open>Toml_Config\<close> (\<^verbatim>\<open>toml_loader.cpp\<close>, \<^verbatim>\<open>AppConfig\<close>), \<^verbatim>\<open>App\<close> (\<^verbatim>\<open>install\<close>, \<^verbatim>\<open>listen\<close>, \<^verbatim>\<open>stop\<close>, signals,
      destructor), \<^verbatim>\<open>Examples\<close> (the six programs: routes, middleware, handlers, exits, printed lines).

  \<^bold>\<open>How state and operations correspond.\<close> A class is a record with the members the code reads, a member function a
  function that returns the new record, \<^verbatim>\<open>std::expected\<close> a sum with the error on the left, a
  nullable pointer an option, an integer whose width matters a word. \<^verbatim>\<open>noexcept\<close> code that would
  dereference null or call \<^verbatim>\<open>std::terminate\<close> has a branch of its own (\<^verbatim>\<open>None\<close>, \<^verbatim>\<open>Terminated\<close>, \<^verbatim>\<open>Dangling\<close>,
  \<^verbatim>\<open>ProcessTerminated\<close>). Code that runs on several threads is an inductive step relation with one rule
  per atomic action (\<^verbatim>\<open>session_step\<close>, \<^verbatim>\<open>handover_step\<close>, \<^verbatim>\<open>log_step\<close>, \<^verbatim>\<open>internal_step\<close>, \<^verbatim>\<open>external_step\<close>,
  \<^verbatim>\<open>when_all_step\<close>, \<^verbatim>\<open>async_step\<close>), and its properties hold in every reachable state, so for every
  interleaving. Coroutine bodies are values of the type \<^verbatim>\<open>body\<close>, whose transitions on live frames are
  \<^verbatim>\<open>task_step\<close> and \<^verbatim>\<open>resume_backend\<close>.

  \<^bold>\<open>Interfaces.\<close> \<^verbatim>\<open>route_table\<close> states what a route table promises and is interpreted by the trie;
  \<^verbatim>\<open>subscriber_registry\<close> is what sessions need of the topic bus; \<^verbatim>\<open>plugin_lifecycle\<close> is what \<^verbatim>\<open>App\<close> needs of
  a plugin and is interpreted by the gRPC plugin; \<^verbatim>\<open>accept_codec\<close> is the digest and encoder the
  handshake relies on, interpreted by SHA-1 and Base64; \<^verbatim>\<open>log_sink\<close> is what the front end of the log needs
  of the writer. \<^verbatim>\<open>invariant_system\<close> and \<^verbatim>\<open>terminating_system\<close>, which extends it by a measure, are the
  step relations of the executor, of \<^verbatim>\<open>when_all\<close> and of the pools.

  \<^bold>\<open>What the lemmas show.\<close>
    \<^item> Routing: dispatch on the trie refines a flat route table, its answers are sound, static
      paths are found unless shadowed, registration order is irrelevant when routes
      do not compete, patterns round-trip, a whole program of typed routes is served, and a guard scoped
      to a prefix protects the routes below it on paths without empty segments.
    \<^item> HTTP: the parser assembles requests from any fragments within its limits, a connection answers in
      order, responses are framed, \<^verbatim>\<open>parse_traceparent\<close> accepts exactly what it documents, middleware
      nests in registration order, static files stay under their root and every file can be fetched.
    \<^item> Coroutines: a typed body ends after a computed number of transitions with the result of its direct
      reading, frames never dangle, the connection coroutine implements the connection loop, callers
      of \<^verbatim>\<open>pool\<close>, \<^verbatim>\<open>sleep\<close> and \<^verbatim>\<open>when_all\<close> are resumed exactly once, \<^verbatim>\<open>stop\<close> ends every \<^verbatim>\<open>run\<close>.
    \<^item> WebSocket: SHA-1 equals FIPS 180-4, Base64 decodes, frames round-trip and parse incrementally; one
      Close frame, a bounded queue, data in order, one resumption; publications reach every subscriber.
    \<^item> Logging, gRPC, program: records reach the stream in order and JSON lines read back; calls are
      answered once with body and trailers, streams do not influence each other; the first error of
      a configuration is reported, loaded values are exact, plugins are down after \<^verbatim>\<open>listen\<close>.
    \<^item> Behaviour that contradicts a document or the intention has a lemma of its own, such as
      \<^verbatim>\<open>frame_left_behind\<close>, \<^verbatim>\<open>stop_lost\<close>, \<^verbatim>\<open>flush_steals_wakeup\<close>, \<^verbatim>\<open>second_run_drops_guard\<close>, \<^verbatim>\<open>encode_truncates\<close>,
      \<^verbatim>\<open>data_after_close\<close>, \<^verbatim>\<open>guard_bypassed_by_double_slash\<close>, \<^verbatim>\<open>connection_writes_bounded\<close>, \<^verbatim>\<open>json_failure_body_broken\<close>.

  \<^bold>\<open>Bounds and fuel.\<close> \<^verbatim>\<open>run_machine n\<close> makes at most \<^verbatim>\<open>n\<close> transitions; \<^verbatim>\<open>body_cost b ins + 5\<close> suffice for
  every typed body, since each constructor of a body accounts for the transitions it takes and the
  driver adds five. \<^verbatim>\<open>connection_task\<close> is unfolded for a number of rounds; more rounds than the client
  causes never end the coroutine early. Other recursions are structural or have a measure. Counters of
  the code keep their width (request ids 64 bits, lengths of frames and envelopes 64 and 32 bits, the
  words of SHA-1 32 bits); \<^verbatim>\<open>std::size_t\<close> lengths of memory are naturals.

  \<^bold>\<open>Parameters.\<close> llhttp is a decision tree of callbacks (\<^verbatim>\<open>llhttp\<close>), toml++ a record of queries (\<^verbatim>\<open>toml_api\<close>), glaze a
  record of two functions, the file system a record of queries, the calendar of \<^verbatim>\<open>gmtime\<close> and the
  float reader functions; the iteration order of an unordered map is a function on lists. nghttp2 calls
  the callbacks in any order, what is submitted to it is a log. asio completes operations in any
  order, with any outcome; its strand and queues are in the step relations.

  \<^bold>\<open>Not modelled.\<close> Socket and TLS I/O, the byte stream between nghttp2 and the socket, wall-clock time, memory
  exhaustion and the memory order of atomics (steps are sequentially consistent). Concepts, forward
  declarations and doc comments of the headers have no behaviour. The ABI of coroutines (frame
  allocation, alignment) is left out. Tests, benchmarks and build files are not part
  of the library.
\<close>

end
